(* ===== verification/Prelude.thy ===== *)
theory Prelude
  imports Main "HOL-Library.Word" "HOL-Library.DAList" "HOL-Library.Code_Target_Nat"
begin

unbundle bit_operations_syntax

text \<open>
  Shared vocabulary of the development: the machine integers of the program, the byte strings
  it moves, time, the result type of fallible operations, and the hash maps that hold its
  sessions, with the lemmas every component uses about them.
\<close>

section \<open>Machine integers, bytes and time\<close>

type_synonym u8 = "8 word"
type_synonym u16 = "16 word"
type_synonym u32 = "32 word"
type_synonym u64 = "64 word"

text \<open>The program is built for 64-bit targets: \<open>usize\<close> has 64 bits.\<close>

type_synonym usize = "64 word"

type_synonym bytes = "u8 list"

text \<open>
  An \<open>Instant\<close> and a \<open>Duration\<close> are counted in nanoseconds. \<open>Instant::duration_since\<close>
  saturates at zero when the argument is the later one, which is subtraction on \<open>nat\<close>.
\<close>

type_synonym instant = nat
type_synonym duration = nat

definition duration_since :: "instant \<Rightarrow> instant \<Rightarrow> duration" where
  "duration_since now earlier = now - earlier"

definition from_secs :: "u64 \<Rightarrow> duration" where
  "from_secs n = unat n * 1000000000"

definition from_millis :: "u64 \<Rightarrow> duration" where
  "from_millis n = unat n * 1000000"

definition saturating_sub :: "'a::len word \<Rightarrow> 'a word \<Rightarrow> 'a word" where
  "saturating_sub a b = (if a \<le> b then 0 else a - b)"

lemma unat_saturating_sub: "unat (saturating_sub a b) = unat a - unat b"
  by (auto simp: saturating_sub_def word_le_nat_alt unat_sub)

lemma from_secs_eq_0 [simp]: "from_secs n = 0 \<longleftrightarrow> n = 0"
  by (simp add: from_secs_def unat_eq_zero)

lemma from_secs_pos [simp]: "0 < from_secs n \<longleftrightarrow> n \<noteq> 0"
  using from_secs_eq_0 [of n] by linarith

text \<open>Adding one to a word that is not the largest one does not wrap.\<close>

lemma unat_plus_1:
  fixes w :: "'a::len word"
  assumes "unat w + 1 < 2 ^ LENGTH('a)"
  shows "unat (w + 1) = unat w + 1"
  using assms by (simp add: unat_word_ariths)

lemma of_nat_word_inj:
  assumes "i < 2 ^ LENGTH('a)" and "j < 2 ^ LENGTH('a)"
    and "(of_nat i :: 'a::len word) = of_nat j"
  shows "i = j"
proof -
  from assms(3) have "unat (of_nat i :: 'a word) = unat (of_nat j :: 'a word)" by simp
  with assms(1,2) show ?thesis by (simp add: unat_of_nat)
qed

section \<open>Results\<close>

text \<open>
  A fallible operation returns \<open>'e + 'a\<close>, the error on the left. \<open>try_bind\<close> is Rust's
  postfix question mark: an error returns at once, a value is handed on.
\<close>

definition try_bind :: "'e + 'a \<Rightarrow> ('a \<Rightarrow> 'e + 'b) \<Rightarrow> 'e + 'b" where
  "try_bind r f = (case r of Inl e \<Rightarrow> Inl e | Inr a \<Rightarrow> f a)"

lemma try_bind_simps [simp]:
  "try_bind (Inl e) f = Inl e"
  "try_bind (Inr a) f = f a"
  by (simp_all add: try_bind_def)

lemma try_bind_eq_Inr: "try_bind r f = Inr b \<longleftrightarrow> (\<exists>a. r = Inr a \<and> f a = Inr b)"
  by (cases r) auto

lemma try_bind_eq_Inl:
  "try_bind r f = Inl e \<longleftrightarrow> r = Inl e \<or> (\<exists>a. r = Inr a \<and> f a = Inl e)"
  by (cases r) auto

text \<open>\<open>Option::or\<close> and \<open>Option::unwrap_or\<close>.\<close>

definition opt_or :: "'a option \<Rightarrow> 'a option \<Rightarrow> 'a option" where
  "opt_or a b = (case a of Some x \<Rightarrow> Some x | None \<Rightarrow> b)"

definition unwrap_or :: "'a option \<Rightarrow> 'a \<Rightarrow> 'a" where
  "unwrap_or a d = (case a of Some x \<Rightarrow> x | None \<Rightarrow> d)"

lemma opt_or_simps [simp]:
  "opt_or (Some x) b = Some x" "opt_or None b = b"
  "unwrap_or (Some x) d = x" "unwrap_or None d = d"
  by (simp_all add: opt_or_def unwrap_or_def)

text \<open>
  \<open>collect\<close> of an iterator of results: all values in order, or the first error.
\<close>

fun collect_results :: "('e + 'a) list \<Rightarrow> 'e + 'a list" where
  "collect_results [] = Inr []"
| "collect_results (r # rs) = try_bind r (\<lambda>a. try_bind (collect_results rs) (\<lambda>as. Inr (a # as)))"

lemma collect_results_Inr:
  "collect_results rs = Inr as \<longleftrightarrow> rs = map Inr as"
  by (induction rs arbitrary: as) (auto simp: try_bind_eq_Inr)

lemma collect_results_Inl:
  "collect_results rs = Inl e \<longleftrightarrow> (\<exists>as rs'. rs = map Inr as @ Inl e # rs')"
proof (induction rs)
  case Nil
  then show ?case by simp
next
  case (Cons r rs)
  show ?case
  proof (cases r)
    case (Inl d)
    then show ?thesis by (auto simp: Cons_eq_append_conv map_eq_Cons_conv Cons_eq_map_conv)
  next
    case (Inr a)
    have "collect_results (r # rs) = Inl e \<longleftrightarrow> collect_results rs = Inl e"
      using Inr by (auto simp: try_bind_eq_Inl)
    also have "\<dots> \<longleftrightarrow> (\<exists>as rs'. rs = map Inr as @ Inl e # rs')"
      by (rule Cons.IH)
    also have "\<dots> \<longleftrightarrow> (\<exists>as rs'. r # rs = map Inr as @ Inl e # rs')"
      using Inr by (auto simp: Cons_eq_append_conv map_eq_Cons_conv Cons_eq_map_conv)
    finally show ?thesis .
  qed
qed

section \<open>Hash maps\<close>

text \<open>
  A \<open>HashMap\<close> is an association list with distinct keys (\<open>alist\<close>): finite, executable, and
  with an iteration order, which the program never relies on. \<open>hm_get\<close>, \<open>hm_insert\<close> and
  \<open>hm_remove\<close> are \<open>get\<close>, \<open>insert\<close> and \<open>remove\<close>; \<open>hm_iter\<close> is the sequence \<open>iter\<close> yields.
\<close>

type_synonym ('k, 'v) hash_map = "('k, 'v) alist"

abbreviation hm_get :: "('k, 'v) hash_map \<Rightarrow> 'k \<Rightarrow> 'v option" where
  "hm_get \<equiv> DAList.lookup"

abbreviation hm_new :: "('k, 'v) hash_map" where
  "hm_new \<equiv> DAList.empty"

abbreviation hm_insert :: "'k \<Rightarrow> 'v \<Rightarrow> ('k, 'v) hash_map \<Rightarrow> ('k, 'v) hash_map" where
  "hm_insert \<equiv> DAList.update"

abbreviation hm_remove :: "'k \<Rightarrow> ('k, 'v) hash_map \<Rightarrow> ('k, 'v) hash_map" where
  "hm_remove \<equiv> DAList.delete"

abbreviation hm_iter :: "('k, 'v) hash_map \<Rightarrow> ('k \<times> 'v) list" where
  "hm_iter \<equiv> DAList.impl_of"

definition hm_len :: "('k, 'v) hash_map \<Rightarrow> nat" where
  "hm_len m = length (hm_iter m)"

text \<open>The loop \<open>for k in ks { m.remove(k) }\<close>.\<close>

definition hm_remove_all :: "'k list \<Rightarrow> ('k, 'v) hash_map \<Rightarrow> ('k, 'v) hash_map" where
  "hm_remove_all ks m = fold hm_remove ks m"

lemma hm_get_insert [simp]:
  "hm_get (hm_insert k v m) = (hm_get m)(k \<mapsto> v)"
  by (rule ext) (simp add: lookup_update)

lemma hm_get_remove_all [simp]:
  "hm_get (hm_remove_all ks m) = (\<lambda>k. if k \<in> set ks then None else hm_get m k)"
  unfolding hm_remove_all_def by (induction ks arbitrary: m) (auto simp: fun_eq_iff)

lemma hm_remove_all_Nil [simp]: "hm_remove_all [] m = m"
  by (simp add: hm_remove_all_def)

lemma hm_get_new [simp]: "hm_get hm_new = (\<lambda>_. None)"
  by (rule ext) simp

lemma hm_get_iter: "hm_get m = map_of (hm_iter m)"
  by (rule DAList.lookup.rep_eq)

lemma in_hm_iter [simp]: "(k, v) \<in> set (hm_iter m) \<longleftrightarrow> hm_get m k = Some v"
  unfolding hm_get_iter by (rule map_of_eq_Some_iff [symmetric]) simp

lemma dom_hm_get: "dom (hm_get m) = fst ` set (hm_iter m)"
  unfolding hm_get_iter by (rule dom_map_of_conv_image_fst)

lemma finite_dom_hm_get [simp]: "finite (dom (hm_get m))"
  by (simp add: dom_hm_get)

lemma hm_len_card: "hm_len m = card (dom (hm_get m))"
proof -
  have "card (fst ` set (hm_iter m)) = length (map fst (hm_iter m))"
    using distinct_card [OF impl_of_distinct] by (metis list.set_map)
  then show ?thesis by (simp add: hm_len_def dom_hm_get)
qed

lemma hm_len_empty [simp]: "hm_len hm_new = 0"
  by (simp add: hm_len_card)

end
