(* ===== verification/Rust_Str.thy ===== *)
theory Rust_Str
  imports Prelude
begin

text \<open>
  The string operations of Rust's standard library that the configuration code uses. A \<open>str\<close> is
  its UTF-8 bytes, a \<open>string\<close> here; every separator the program looks for is ASCII, and an
  ASCII byte never occurs inside the encoding of another character, so searching bytes is
  searching characters.
\<close>

section \<open>Splitting and searching\<close>

text \<open>\<open>s.split(c)\<close>, collected.\<close>

fun split_on :: "char \<Rightarrow> string \<Rightarrow> string list" where
  "split_on c [] = [[]]"
| "split_on c (x # xs) =
     (if x = c then [] # split_on c xs
      else (case split_on c xs of [] \<Rightarrow> [[x]] | p # ps \<Rightarrow> (x # p) # ps))"

text \<open>\<open>s.find(c)\<close> and \<open>s.rfind(c)\<close>: the index of the first and of the last occurrence.\<close>

fun find_char :: "char \<Rightarrow> string \<Rightarrow> nat option" where
  "find_char c [] = None"
| "find_char c (x # xs) = (if x = c then Some 0 else map_option Suc (find_char c xs))"

fun rfind_char :: "char \<Rightarrow> string \<Rightarrow> nat option" where
  "rfind_char c [] = None"
| "rfind_char c (x # xs) =
     (case rfind_char c xs of Some i \<Rightarrow> Some (Suc i) | None \<Rightarrow> (if x = c then Some 0 else None))"

definition starts_with :: "string \<Rightarrow> string \<Rightarrow> bool" where
  "starts_with p s \<longleftrightarrow> take (length p) s = p"

definition strip_prefix :: "string \<Rightarrow> string \<Rightarrow> string option" where
  "strip_prefix p s = (if starts_with p s then Some (drop (length p) s) else None)"

definition strip_suffix :: "string \<Rightarrow> string \<Rightarrow> string option" where
  "strip_suffix p s =
     (if starts_with (rev p) (rev s) then Some (take (length s - length p) s) else None)"

lemma split_on_not_Nil [simp]: "split_on c s \<noteq> []"
  by (induction s) (auto split: list.splits)

lemma split_on_parts: "p \<in> set (split_on c s) \<Longrightarrow> c \<notin> set p"
proof (induction s arbitrary: p)
  case Nil
  then show ?case by simp
next
  case (Cons x xs)
  then show ?case by (auto split: if_splits list.splits)
qed

lemma split_on_absent: "c \<notin> set s \<Longrightarrow> split_on c s = [s]"
  by (induction s) auto

lemma split_on_append:
  "c \<notin> set p \<Longrightarrow> split_on c (p @ c # s) = p # split_on c s"
  by (induction p) auto

lemma split_on_eq_single: "split_on c s = [p] \<longleftrightarrow> c \<notin> set s \<and> p = s"
proof
  assume "split_on c s = [p]"
  then show "c \<notin> set s \<and> p = s"
    by (induction s arbitrary: p) (auto split: if_splits list.splits)
next
  assume "c \<notin> set s \<and> p = s"
  then show "split_on c s = [p]" by (simp add: split_on_absent)
qed

lemma split_on_eq_pair:
  "split_on c s = [p, q] \<longleftrightarrow> s = p @ c # q \<and> c \<notin> set p \<and> c \<notin> set q"
proof
  assume "split_on c s = [p, q]"
  then show "s = p @ c # q \<and> c \<notin> set p \<and> c \<notin> set q"
  proof (induction s arbitrary: p)
    case Nil
    then show ?case by simp
  next
    case (Cons x xs)
    then show ?case
      by (auto simp: split_on_eq_single split: if_splits list.splits)
  qed
next
  assume "s = p @ c # q \<and> c \<notin> set p \<and> c \<notin> set q"
  then show "split_on c s = [p, q]" by (simp add: split_on_append split_on_absent)
qed

lemma find_char_Some:
  "find_char c s = Some i \<longleftrightarrow> i < length s \<and> s ! i = c \<and> c \<notin> set (take i s)"
proof (induction s arbitrary: i)
  case Nil
  then show ?case by simp
next
  case (Cons x xs)
  then show ?case by (cases i) auto
qed

lemma find_char_None: "find_char c s = None \<longleftrightarrow> c \<notin> set s"
  by (induction s) auto

lemma rfind_char_None: "rfind_char c s = None \<longleftrightarrow> c \<notin> set s"
  by (induction s) (auto split: option.splits)

lemma rfind_char_Some:
  "rfind_char c s = Some i \<longleftrightarrow> i < length s \<and> s ! i = c \<and> c \<notin> set (drop (Suc i) s)"
proof (induction s arbitrary: i)
  case Nil
  then show ?case by simp
next
  case (Cons x xs)
  show ?case
  proof (cases i)
    case 0
    have "rfind_char c xs \<noteq> None \<longleftrightarrow> c \<in> set xs" by (simp add: rfind_char_None)
    with 0 show ?thesis by (cases "rfind_char c xs") auto
  next
    case (Suc j)
    show ?thesis
    proof (cases "rfind_char c xs")
      case None
      then have "c \<notin> set xs" by (simp add: rfind_char_None)
      then show ?thesis
        using None Suc by (auto dest: nth_mem)
    next
      case (Some k)
      then show ?thesis
        using Suc Cons.IH [of j] by simp
    qed
  qed
qed

lemma strip_prefix_Some: "strip_prefix p s = Some r \<longleftrightarrow> s = p @ r"
  by (auto simp: strip_prefix_def starts_with_def) (metis append_take_drop_id)

lemma strip_suffix_Some: "strip_suffix p s = Some r \<longleftrightarrow> s = r @ p"
proof
  assume "strip_suffix p s = Some r"
  then have r: "r = take (length s - length p) s" and "take (length p) (rev s) = rev p"
    by (auto simp: strip_suffix_def starts_with_def split: if_splits)
  then have "drop (length s - length p) s = p"
    by (metis rev_rev_ident take_rev)
  with r show "s = r @ p" by (metis append_take_drop_id)
next
  assume "s = r @ p"
  then show "strip_suffix p s = Some r"
    by (simp add: strip_suffix_def starts_with_def)
qed

lemma strip_suffix_None: "strip_suffix p s = None \<longleftrightarrow> (\<forall>r. s \<noteq> r @ p)"
  using strip_suffix_Some [of p s] by (cases "strip_suffix p s") auto

section \<open>White space and letter case\<close>

text \<open>
  The UTF-8 encodings of the characters \<open>char::is_whitespace\<close> accepts: U+0009 to U+000D, U+0020,
  U+0085, U+00A0, U+1680, U+2000 to U+200A, U+2028, U+2029, U+202F, U+205F and U+3000.
\<close>

definition whitespace :: "string list" where
  "whitespace =
     [[CHR 0x09], [CHR 0x0A], [CHR 0x0B], [CHR 0x0C], [CHR 0x0D], [CHR 0x20],
      [CHR 0xC2, CHR 0x85], [CHR 0xC2, CHR 0xA0], [CHR 0xE1, CHR 0x9A, CHR 0x80],
      [CHR 0xE2, CHR 0x80, CHR 0x80], [CHR 0xE2, CHR 0x80, CHR 0x81],
      [CHR 0xE2, CHR 0x80, CHR 0x82], [CHR 0xE2, CHR 0x80, CHR 0x83],
      [CHR 0xE2, CHR 0x80, CHR 0x84], [CHR 0xE2, CHR 0x80, CHR 0x85],
      [CHR 0xE2, CHR 0x80, CHR 0x86], [CHR 0xE2, CHR 0x80, CHR 0x87],
      [CHR 0xE2, CHR 0x80, CHR 0x88], [CHR 0xE2, CHR 0x80, CHR 0x89],
      [CHR 0xE2, CHR 0x80, CHR 0x8A], [CHR 0xE2, CHR 0x80, CHR 0xA8],
      [CHR 0xE2, CHR 0x80, CHR 0xA9], [CHR 0xE2, CHR 0x80, CHR 0xAF],
      [CHR 0xE2, CHR 0x81, CHR 0x9F], [CHR 0xE3, CHR 0x80, CHR 0x80]]"

function strip_leading :: "string list \<Rightarrow> string \<Rightarrow> string" where
  "strip_leading ws s =
     (case find (\<lambda>w. w \<noteq> [] \<and> starts_with w s) ws of
        None \<Rightarrow> s
      | Some w \<Rightarrow> strip_leading ws (drop (length w) s))"
  by pat_completeness auto
termination
proof (relation "measure (\<lambda>(ws, s). length s)", simp)
  fix ws s w
  assume "find (\<lambda>w. w \<noteq> [] \<and> starts_with w s) ws = Some w"
  then have "w \<noteq> []" "take (length w) s = w"
    by (auto simp: find_Some_iff starts_with_def)
  then have "s \<noteq> []" by auto
  with \<open>w \<noteq> []\<close> show "((ws, drop (length w) s), ws, s) \<in> measure (\<lambda>(ws, s). length s)"
    by simp
qed

declare strip_leading.simps [simp del]

definition trim :: "string \<Rightarrow> string" where
  "trim s = rev (strip_leading (map rev whitespace) (rev (strip_leading whitespace s)))"

lemma strip_leading_suffix: "\<exists>p. s = p @ strip_leading ws s"
proof (induction ws s rule: strip_leading.induct)
  case (1 ws s)
  show ?case
  proof (cases "find (\<lambda>w. w \<noteq> [] \<and> starts_with w s) ws")
    case None
    then show ?thesis by (simp add: strip_leading.simps [of ws s])
  next
    case (Some w)
    with "1.IH" [OF Some] obtain p where "drop (length w) s = p @ strip_leading ws s"
      by (auto simp: strip_leading.simps [of ws s])
    then show ?thesis
      by (metis append.assoc append_take_drop_id)
  qed
qed

lemma trim_substring: "\<exists>p q. s = p @ trim s @ q"
proof -
  obtain p where p: "s = p @ strip_leading whitespace s"
    using strip_leading_suffix by blast
  obtain q where "rev (strip_leading whitespace s) = q @ rev (trim s)"
    using strip_leading_suffix by (metis trim_def rev_rev_ident)
  then have "strip_leading whitespace s = trim s @ rev q"
    by (metis rev_append rev_rev_ident)
  with p show ?thesis by metis
qed

text \<open>
  The program compares \<open>to_lowercase\<close> with ASCII literals that have no \<open>k\<close>. Apart from the
  Kelvin sign, whose lower case is \<open>k\<close>, no character outside ASCII has an ASCII lower case, so
  for these comparisons only the ASCII letters matter.
\<close>

definition lower_char :: "char \<Rightarrow> char" where
  "lower_char c =
     (if 65 \<le> (of_char c :: nat) \<and> (of_char c :: nat) \<le> 90
      then char_of ((of_char c :: nat) + 32) else c)"

definition to_lowercase :: "string \<Rightarrow> string" where
  "to_lowercase s = map lower_char s"

section \<open>Numbers\<close>

text \<open>\<open>char::to_digit\<close>.\<close>

definition to_digit :: "nat \<Rightarrow> char \<Rightarrow> nat option" where
  "to_digit radix c =
     (let n = (of_char c :: nat);
          d = (if 48 \<le> n \<and> n \<le> 57 then Some (n - 48)
               else if 97 \<le> n \<and> n \<le> 122 then Some (n - 87)
               else if 65 \<le> n \<and> n \<le> 90 then Some (n - 55)
               else None)
      in case d of None \<Rightarrow> None | Some k \<Rightarrow> if k < radix then Some k else None)"

fun decimal_value :: "nat \<Rightarrow> string \<Rightarrow> nat option" where
  "decimal_value acc [] = Some acc"
| "decimal_value acc (c # cs) =
     (case to_digit 10 c of None \<Rightarrow> None | Some d \<Rightarrow> decimal_value (10 * acc + d) cs)"

text \<open>\<open>str::parse::<u64>\<close>: one optional plus sign, then digits, at least one, without overflow.\<close>

definition parse_u64 :: "string \<Rightarrow> u64 option" where
  "parse_u64 s =
     (let digits = (case s of CHR ''+'' # cs \<Rightarrow> cs | _ \<Rightarrow> s) in
      if digits = [] then None
      else (case decimal_value 0 digits of
              None \<Rightarrow> None
            | Some n \<Rightarrow> if n < 2 ^ 64 then Some (of_nat n) else None))"

section \<open>Printable ASCII\<close>

definition printable :: "char \<Rightarrow> bool" where
  "printable c \<longleftrightarrow> 33 \<le> (of_char c :: nat) \<and> (of_char c :: nat) \<le> 126"

lemma whitespace_not_printable:
  "\<forall>w \<in> set whitespace. w \<noteq> [] \<and> \<not> printable (hd w) \<and> \<not> printable (last w)"
  by code_simp

lemma strip_leading_id:
  assumes "s = [] \<or> printable (hd s)" and "\<forall>w \<in> set ws. w \<noteq> [] \<and> \<not> printable (hd w)"
  shows "strip_leading ws s = s"
proof -
  have "find (\<lambda>w. w \<noteq> [] \<and> starts_with w s) ws = None"
    unfolding find_None_iff starts_with_def
  proof (intro notI, elim exE conjE)
    fix w assume w: "w \<in> set ws" "w \<noteq> []" "take (length w) s = w"
    then have "hd w = hd s" "s \<noteq> []" by (metis hd_take length_greater_0_conv, auto)
    with w assms show False by auto
  qed
  then show ?thesis by (simp add: strip_leading.simps [of ws s])
qed

text \<open>\<open>trim\<close> keeps a string that begins and ends with printable characters.\<close>

lemma trim_id:
  assumes "s = [] \<or> printable (hd s) \<and> printable (last s)"
  shows "trim s = s"
proof -
  have front: "strip_leading whitespace s = s"
    using assms whitespace_not_printable by (intro strip_leading_id) auto
  have "strip_leading (map rev whitespace) (rev s) = rev s"
    using assms whitespace_not_printable by (intro strip_leading_id) (auto simp: hd_rev)
  with front show ?thesis by (simp add: trim_def)
qed

lemma decimal_value_digits:
  "decimal_value acc s \<noteq> None \<Longrightarrow> c \<in> set s \<Longrightarrow> 48 \<le> (of_char c :: nat) \<and> (of_char c :: nat) \<le> 57"
proof (induction s arbitrary: acc)
  case Nil
  then show ?case by simp
next
  case (Cons x xs)
  from Cons.prems(1) obtain d where d: "to_digit 10 x = Some d"
    and "decimal_value (10 * acc + d) xs \<noteq> None"
    by (auto split: option.splits)
  then show ?case
    using Cons by (auto simp: to_digit_def Let_def split: if_splits)
qed

lemma sign_case:
  "(case s of CHR ''+'' # cs \<Rightarrow> cs | _ \<Rightarrow> s) =
     (if s \<noteq> [] \<and> hd s = CHR ''+'' then tl s else s)"
proof (cases s)
  case Nil
  then show ?thesis by simp
next
  case (Cons c cs)
  show ?thesis by (cases c) (simp add: Cons split: bool.split)
qed

lemma parse_u64_chars:
  assumes "parse_u64 s = Some k"
  shows "s \<noteq> []" and "c \<in> set s \<Longrightarrow> 43 \<le> (of_char c :: nat) \<and> (of_char c :: nat) \<le> 57"
proof -
  define digits where "digits = (case s of CHR ''+'' # cs \<Rightarrow> cs | _ \<Rightarrow> s)"
  have d: "digits \<noteq> []" "decimal_value 0 digits \<noteq> None"
    using assms unfolding parse_u64_def digits_def [symmetric]
    by (cases "decimal_value 0 digits"; auto simp: Let_def split: if_splits)+
  have s: "s = digits \<or> s = CHR ''+'' # digits"
    unfolding digits_def sign_case by (cases s) auto
  show "s \<noteq> []" using d s by auto
  show "43 \<le> (of_char c :: nat) \<and> (of_char c :: nat) \<le> 57" if "c \<in> set s"
    using s that decimal_value_digits [OF d(2), of c] by auto
qed

end
