(* ===== verification/Bytes.thy ===== *)
theory Bytes
  imports Prelude
begin

text \<open>
  Big-endian encodings of machine integers: \<open>to_be_bytes\<close> and \<open>from_be_bytes\<close> of \<open>u16\<close>,
  \<open>u32\<close> and \<open>u64\<close>, as one pair of functions for any width that is a whole number of bytes,
  and the proof that they are inverse to each other.
\<close>

section \<open>Encoding and decoding\<close>

text \<open>The \<open>n\<close> low bytes of a word, most significant byte first.\<close>

definition to_be_bytes :: "nat \<Rightarrow> 'a::len word \<Rightarrow> bytes" where
  "to_be_bytes n w = map (\<lambda>i. ucast (drop_bit (8 * i) w)) (rev [0..<n])"

definition shift_in :: "u8 \<Rightarrow> 'a::len word \<Rightarrow> 'a word" where
  "shift_in b acc = push_bit 8 acc OR ucast b"

definition from_be_bytes :: "bytes \<Rightarrow> 'a::len word" where
  "from_be_bytes bs = fold shift_in bs 0"

abbreviation u64_to_be_bytes :: "u64 \<Rightarrow> bytes" where
  "u64_to_be_bytes \<equiv> to_be_bytes 8"

abbreviation u32_to_be_bytes :: "u32 \<Rightarrow> bytes" where
  "u32_to_be_bytes \<equiv> to_be_bytes 4"

abbreviation u16_to_be_bytes :: "u16 \<Rightarrow> bytes" where
  "u16_to_be_bytes \<equiv> to_be_bytes 2"

section \<open>Round trips\<close>

lemma length_to_be_bytes [simp]: "length (to_be_bytes n w) = n"
  by (simp add: to_be_bytes_def)

lemma to_be_bytes_0 [simp]: "to_be_bytes 0 w = []"
  by (simp add: to_be_bytes_def)

lemma to_be_bytes_Suc:
  "to_be_bytes (Suc n) w = ucast (drop_bit (8 * n) w) # to_be_bytes n w"
  by (simp add: to_be_bytes_def)

lemma bit_u8_bound: "bit (b :: u8) i \<Longrightarrow> i < 8"
  using bit_imp_le_length [of b i] by simp

lemma to_be_bytes_snoc:
  "to_be_bytes (Suc n) w = to_be_bytes n (drop_bit 8 w) @ [ucast w]"
proof -
  have "[0..<Suc n] = 0 # map Suc [0..<n]"
    by (simp add: map_Suc_upt upt_conv_Cons del: upt_Suc)
  then have "rev [0..<Suc n] = map Suc (rev [0..<n]) @ [0]"
    by (simp add: rev_map del: upt_Suc)
  then show ?thesis
    by (simp add: to_be_bytes_def add.commute)
qed

text \<open>How \<open>shift_in\<close> is evaluated: the shifted word and the new byte share no bit.\<close>

lemma shift_in_code [code]: "shift_in b acc = acc * 256 + ucast b"
proof -
  have "push_bit 8 acc AND ucast b = 0"
    by (rule bit_word_eqI) (auto simp: bit_simps dest: bit_u8_bound)
  then have "push_bit 8 acc + ucast b = push_bit 8 acc OR ucast b"
    by (rule disjunctive_add_eq_or)
  then show ?thesis by (simp add: shift_in_def push_bit_eq_mult)
qed

lemma shift_in_join:
  "push_bit k (shift_in (ucast (drop_bit k w)) acc) OR take_bit k w
     = push_bit (k + 8) acc OR take_bit (k + 8) (w :: 'a::len word)"
proof (rule bit_word_eqI)
  fix i
  assume "i < LENGTH('a)"
  then show "bit (push_bit k (shift_in (ucast (drop_bit k w)) acc) OR take_bit k w) i
      = bit (push_bit (k + 8) acc OR take_bit (k + 8) w) i"
    by (auto simp: shift_in_def bit_simps not_le)
qed

lemma fold_shift_in_to_be_bytes:
  "fold shift_in (to_be_bytes n w) acc = push_bit (8 * n) acc OR take_bit (8 * n) w"
proof (induction n arbitrary: acc)
  case 0
  then show ?case by simp
next
  case (Suc n)
  then show ?case
    using shift_in_join [of "8 * n" w acc] by (simp add: to_be_bytes_Suc add.commute)
qed

lemma from_to_be_bytes:
  fixes w :: "'a::len word"
  assumes "LENGTH('a) \<le> 8 * n"
  shows "from_be_bytes (to_be_bytes n w) = w"
  using assms by (simp add: from_be_bytes_def fold_shift_in_to_be_bytes take_bit_word_eq_self)

lemma from_be_bytes_Nil [simp]: "from_be_bytes [] = 0"
  by (simp add: from_be_bytes_def)

lemma from_be_bytes_snoc: "from_be_bytes (bs @ [b]) = shift_in b (from_be_bytes bs)"
  by (simp add: from_be_bytes_def)

lemma take_bit_from_be_bytes:
  fixes bs :: bytes
  shows "take_bit (8 * length bs) (from_be_bytes bs :: 'a::len word) = from_be_bytes bs"
proof (induction bs rule: rev_induct)
  case Nil
  then show ?case by simp
next
  case (snoc b bs)
  show ?case
  proof (rule bit_word_eqI)
    fix i
    assume i: "i < LENGTH('a)"
    have high: "bit (from_be_bytes bs :: 'a word) j \<Longrightarrow> j < 8 * length bs" for j
      using snoc.IH by (metis bit_take_bit_iff)
    show "bit (take_bit (8 * length (bs @ [b])) (from_be_bytes (bs @ [b]) :: 'a word)) i
        = bit (from_be_bytes (bs @ [b]) :: 'a word) i"
      using i high [of "i - 8"]
      by (auto simp: from_be_bytes_snoc shift_in_def bit_simps dest: bit_u8_bound)
  qed
qed

lemma drop_bit_shift_in:
  fixes w :: "'a::len word"
  assumes "take_bit k w = w" and "k + 8 \<le> LENGTH('a)"
  shows "drop_bit 8 (shift_in b w) = w"
proof (rule bit_word_eqI)
  fix i
  assume i: "i < LENGTH('a)"
  have low: "bit w i \<Longrightarrow> i < k"
    using assms(1) by (metis bit_take_bit_iff)
  show "bit (drop_bit 8 (shift_in b w)) i = bit w i"
    using i low assms(2) by (auto simp: shift_in_def bit_simps dest: bit_u8_bound)
qed

lemma ucast_shift_in:
  fixes w :: "'a::len word"
  assumes "8 \<le> LENGTH('a)"
  shows "(ucast (shift_in b w) :: u8) = b"
  using assms by (intro bit_word_eqI) (auto simp: shift_in_def bit_simps)

lemma to_from_be_bytes:
  fixes bs :: bytes
  assumes "8 * length bs \<le> LENGTH('a::len)"
  shows "to_be_bytes (length bs) (from_be_bytes bs :: 'a word) = bs"
  using assms
proof (induction bs rule: rev_induct)
  case Nil
  then show ?case by simp
next
  case (snoc b bs)
  have "drop_bit 8 (shift_in b (from_be_bytes bs :: 'a word)) = from_be_bytes bs"
    using snoc.prems by (intro drop_bit_shift_in [OF take_bit_from_be_bytes]) simp
  with snoc show ?case
    by (simp add: from_be_bytes_snoc to_be_bytes_snoc ucast_shift_in)
qed

section \<open>The widths the program uses\<close>

lemma from_to_be_u64 [simp]: "from_be_bytes (u64_to_be_bytes w) = w"
  by (rule from_to_be_bytes) simp

lemma from_to_be_u32 [simp]: "from_be_bytes (u32_to_be_bytes w) = w"
  by (rule from_to_be_bytes) simp

lemma from_to_be_u16 [simp]: "from_be_bytes (u16_to_be_bytes w) = w"
  by (rule from_to_be_bytes) simp

lemma to_from_be_u64: "length bs = 8 \<Longrightarrow> u64_to_be_bytes (from_be_bytes bs) = bs"
  using to_from_be_bytes [of bs, where 'a = 64] by simp

lemma to_from_be_u32: "length bs = 4 \<Longrightarrow> u32_to_be_bytes (from_be_bytes bs) = bs"
  using to_from_be_bytes [of bs, where 'a = 32] by simp

lemma to_from_be_u16: "length bs = 2 \<Longrightarrow> u16_to_be_bytes (from_be_bytes bs) = bs"
  using to_from_be_bytes [of bs, where 'a = 16] by simp

end
