(* ===== verification/Ip_Addr.thy ===== *)
theory Ip_Addr
  imports Rust_Str Bytes
begin

text \<open>
  \<open>str::parse::<IpAddr>\<close> of Rust's standard library, which decides which hosts the
  configuration accepts and which of them are the same. The parser of \<open>core::net\<close> is a
  recursive descent over the bytes; \<open>read_atomically\<close> puts the input back when its closure
  fails, which here is the caller still holding the old input.
\<close>

section \<open>Addresses\<close>

text \<open>An IPv6 address is its eight groups.\<close>

datatype ip_addr = V4 u8 u8 u8 u8 | V6 "u16 list"

section \<open>The parser\<close>

fun read_digits :: "nat \<Rightarrow> nat \<Rightarrow> nat \<Rightarrow> nat \<Rightarrow> string \<Rightarrow> (nat \<times> nat \<times> string) option" where
  "read_digits radix max_digits result count [] = Some (result, count, [])"
| "read_digits radix max_digits result count (c # cs) =
     (case to_digit radix c of
        None \<Rightarrow> Some (result, count, c # cs)
      | Some d \<Rightarrow>
          if max_digits < count + 1 then None
          else read_digits radix max_digits (result * radix + d) (count + 1) cs)"

text \<open>\<open>read_number\<close> with a digit limit; \<open>bound\<close> is where the conversion to the result type fails.\<close>

definition read_number ::
    "nat \<Rightarrow> nat \<Rightarrow> bool \<Rightarrow> nat \<Rightarrow> string \<Rightarrow> (nat \<times> string) option" where
  "read_number radix max_digits allow_zero_prefix bound s =
     (case read_digits radix max_digits 0 0 s of
        None \<Rightarrow> None
      | Some (result, digit_count, rest) \<Rightarrow>
          if digit_count = 0 then None
          else if \<not> allow_zero_prefix \<and> starts_with ''0'' s \<and> digit_count > 1 then None
          else if result < bound then Some (result, rest) else None)"

definition read_given_char :: "char \<Rightarrow> string \<Rightarrow> string option" where
  "read_given_char target s =
     (case s of [] \<Rightarrow> None | c # cs \<Rightarrow> if c = target then Some cs else None)"

definition read_separator ::
    "char \<Rightarrow> nat \<Rightarrow> (string \<Rightarrow> 'a option) \<Rightarrow> string \<Rightarrow> 'a option" where
  "read_separator sep index inner s =
     (if index > 0 then Option.bind (read_given_char sep s) inner else inner s)"

text \<open>\<open>read_octets n i s\<close> reads the groups \<open>i\<close> to \<open>i + n - 1\<close> of a dotted quad.\<close>

fun read_octets :: "nat \<Rightarrow> nat \<Rightarrow> string \<Rightarrow> (nat list \<times> string) option" where
  "read_octets 0 i s = Some ([], s)"
| "read_octets (Suc n) i s =
     (case read_separator CHR ''.'' i (read_number 10 3 False 256) s of
        None \<Rightarrow> None
      | Some (octet, rest) \<Rightarrow>
          (case read_octets n (Suc i) rest of
             None \<Rightarrow> None
           | Some (octets, rest') \<Rightarrow> Some (octet # octets, rest')))"

definition read_ipv4_addr :: "string \<Rightarrow> (ip_addr \<times> string) option" where
  "read_ipv4_addr s =
     (case read_octets 4 0 s of
        Some ([a, b, c, d], rest) \<Rightarrow> Some (V4 (of_nat a) (of_nat b) (of_nat c) (of_nat d), rest)
      | _ \<Rightarrow> None)"

text \<open>
  \<open>read_groups n i s\<close> reads up to \<open>n\<close> groups, the first of them the \<open>i\<close>-th of its slice: the
  groups, whether they end in an embedded dotted quad, and what is left.
\<close>

fun read_groups :: "nat \<Rightarrow> nat \<Rightarrow> string \<Rightarrow> u16 list \<times> bool \<times> string" where
  "read_groups 0 i s = ([], False, s)"
| "read_groups (Suc n) i s =
     (case (if n > 0 then read_separator CHR '':'' i read_ipv4_addr s else None) of
        Some (V4 one two three four, rest) \<Rightarrow>
          ([from_be_bytes [one, two], from_be_bytes [three, four]], True, rest)
      | _ \<Rightarrow>
          (case read_separator CHR '':'' i (read_number 16 4 True 65536) s of
             None \<Rightarrow> ([], False, s)
           | Some (g, rest) \<Rightarrow>
               (let (gs, ipv4, rest') = read_groups n (Suc i) rest
                in (of_nat g # gs, ipv4, rest'))))"

definition read_ipv6_addr :: "string \<Rightarrow> (ip_addr \<times> string) option" where
  "read_ipv6_addr s =
     (let (head, head_ipv4, rest) = read_groups 8 0 s in
      if length head = 8 then Some (V6 head, rest)
      else if head_ipv4 then None
      else (case Option.bind (read_given_char CHR '':'' rest) (read_given_char CHR '':'') of
              None \<Rightarrow> None
            | Some rest1 \<Rightarrow>
                (let (tail, _, rest2) = read_groups (8 - (length head + 1)) 0 rest1
                 in Some (V6 (head @ replicate (8 - length tail - length head) 0 @ tail), rest2))))"

definition read_ip_addr :: "string \<Rightarrow> (ip_addr \<times> string) option" where
  "read_ip_addr s =
     (case read_ipv4_addr s of
        Some r \<Rightarrow> Some r
      | None \<Rightarrow> read_ipv6_addr s)"

definition parse_ip :: "string \<Rightarrow> ip_addr option" where
  "parse_ip s =
     (case read_ip_addr s of
        Some (ip, rest) \<Rightarrow> if rest = [] then Some ip else None
      | None \<Rightarrow> None)"

section \<open>What the parser consumes\<close>

definition ip_char :: "char \<Rightarrow> bool" where
  "ip_char c \<longleftrightarrow> to_digit 16 c \<noteq> None \<or> c = CHR ''.'' \<or> c = CHR '':''"

definition consumed :: "string \<Rightarrow> string \<Rightarrow> bool" where
  "consumed s rest \<longleftrightarrow> (\<exists>p. s = p @ rest \<and> (\<forall>c \<in> set p. ip_char c))"

lemma consumed_refl [simp]: "consumed s s"
  by (simp add: consumed_def)

lemma consumed_trans: "consumed s t \<Longrightarrow> consumed t u \<Longrightarrow> consumed s u"
  unfolding consumed_def by (metis Un_iff append.assoc set_append)

lemma consumed_Cons: "ip_char c \<Longrightarrow> consumed s t \<Longrightarrow> consumed (c # s) t"
  unfolding consumed_def by (metis append_Cons set_ConsD)

lemma consumed_Nil: "consumed s [] \<Longrightarrow> c \<in> set s \<Longrightarrow> ip_char c"
  by (auto simp: consumed_def)

lemma to_digit_ip_char: "to_digit radix c = Some d \<Longrightarrow> radix \<le> 16 \<Longrightarrow> ip_char c"
  by (auto simp: to_digit_def ip_char_def Let_def split: if_splits)

lemma read_digits_consumed:
  "read_digits radix m r n s = Some (v, k, rest) \<Longrightarrow> radix \<le> 16 \<Longrightarrow> consumed s rest"
  by (induction radix m r n s rule: read_digits.induct)
    (auto split: option.splits if_splits intro: consumed_Cons to_digit_ip_char)

lemma read_number_consumed:
  "read_number radix m z b s = Some (v, rest) \<Longrightarrow> radix \<le> 16 \<Longrightarrow> consumed s rest"
  by (auto simp: read_number_def split: option.splits if_splits intro: read_digits_consumed)

lemma read_separator_consumed:
  assumes "read_separator sep i inner s = Some (v, rest)" and "ip_char sep"
    and "\<And>s v. inner s = Some (v, rest) \<Longrightarrow> consumed s rest"
  shows "consumed s rest"
  using assms
  by (auto simp: read_separator_def read_given_char_def bind_eq_Some_conv
      split: if_splits list.splits intro: consumed_Cons)

lemma ip_char_seps [simp]: "ip_char CHR ''.''" "ip_char CHR '':''"
  by (simp_all add: ip_char_def)

lemma read_octets_consumed:
  "read_octets n i s = Some (os, rest) \<Longrightarrow> consumed s rest \<and> length os = n"
proof (induction n i s arbitrary: os rest rule: read_octets.induct)
  case (1 i s)
  then show ?case by simp
next
  case (2 n i s)
  then obtain octet s' octets where
    sep: "read_separator CHR ''.'' i (read_number 10 3 False 256) s = Some (octet, s')"
    and rec: "read_octets n (Suc i) s' = Some (octets, rest)" and os: "os = octet # octets"
    by (auto split: option.splits)
  have "consumed s s'"
    by (rule read_separator_consumed [OF sep]) (auto intro: read_number_consumed)
  then show ?case
    using "2.IH" [OF sep refl rec] os by (auto intro: consumed_trans)
qed

lemma read_ipv4_addr_consumed:
  "read_ipv4_addr s = Some (ip, rest) \<Longrightarrow> consumed s rest \<and> (\<exists>a b c d. ip = V4 a b c d)"
  by (auto simp: read_ipv4_addr_def split: option.splits list.splits dest: read_octets_consumed)

lemma read_groups_consumed:
  "read_groups n i s = (gs, v4, rest) \<Longrightarrow> consumed s rest \<and> length gs \<le> n"
proof (induction n arbitrary: i s gs v4 rest)
  case 0
  then show ?case by simp
next
  case (Suc n)
  let ?quad = "if n > 0 then read_separator CHR '':'' i read_ipv4_addr s else None"
  show ?case
  proof (cases "\<exists>a b c d r. ?quad = Some (V4 a b c d, r)")
    case True
    then obtain a b c d r where quad: "?quad = Some (V4 a b c d, r)" by blast
    then have sep: "n > 0" "read_separator CHR '':'' i read_ipv4_addr s = Some (V4 a b c d, r)"
      by (auto split: if_splits)
    have "consumed s r"
      by (rule read_separator_consumed [OF sep(2)]) (auto dest: read_ipv4_addr_consumed)
    then show ?thesis using Suc.prems quad sep(1) by auto
  next
    case False
    have group: "read_groups (Suc n) i s =
        (case read_separator CHR '':'' i (read_number 16 4 True 65536) s of
           None \<Rightarrow> ([], False, s)
         | Some (g, rest) \<Rightarrow>
             (let (gs, ipv4, rest') = read_groups n (Suc i) rest in (of_nat g # gs, ipv4, rest')))"
      using False by (cases "n > 0") (auto split: option.splits ip_addr.splits)
    show ?thesis
    proof (cases "read_separator CHR '':'' i (read_number 16 4 True 65536) s")
      case None
      with group Suc.prems show ?thesis by simp
    next
      case (Some r)
      obtain g s' where r: "r = (g, s')" by (cases r)
      have c: "consumed s s'"
        by (rule read_separator_consumed [OF Some [unfolded r]]) (auto intro: read_number_consumed)
      obtain gs' where rec: "read_groups n (Suc i) s' = (gs', v4, rest)" "gs = of_nat g # gs'"
        using group Suc.prems Some r by (auto split: prod.splits)
      have "consumed s' rest \<and> length gs' \<le> n"
        by (rule Suc.IH [OF rec(1)])
      with c rec(2) show ?thesis by (auto intro: consumed_trans)
    qed
  qed
qed

lemma read_ipv6_addr_consumed:
  "read_ipv6_addr s = Some (ip, rest) \<Longrightarrow>
     consumed s rest \<and> (\<exists>gs. ip = V6 gs \<and> length gs = 8)"
proof -
  assume read: "read_ipv6_addr s = Some (ip, rest)"
  obtain head h4 r where head: "read_groups 8 0 s = (head, h4, r)"
    by (cases "read_groups 8 0 s")
  then have c: "consumed s r" "length head \<le> 8"
    using read_groups_consumed by auto
  show ?thesis
  proof (cases "length head = 8")
    case True
    with read head c show ?thesis by (auto simp: read_ipv6_addr_def)
  next
    case False
    then obtain r1 where colons: "r = '':'' @ '':'' @ r1"
      using read head
      by (auto simp: read_ipv6_addr_def read_given_char_def bind_eq_Some_conv
          split: if_splits option.splits list.splits)
    obtain tail t4 r2 where tail: "read_groups (8 - (length head + 1)) 0 r1 = (tail, t4, r2)"
      by (cases "read_groups (8 - (length head + 1)) 0 r1")
    have "consumed r1 r2" "length tail \<le> 8 - (length head + 1)"
      using read_groups_consumed [OF tail] by auto
    moreover have "ip = V6 (head @ replicate (8 - length tail - length head) 0 @ tail)" "rest = r2"
      using read head False colons tail
      by (auto simp: read_ipv6_addr_def read_given_char_def split: if_splits)
    moreover have "consumed r r1"
      unfolding colons by (simp add: consumed_Cons)
    ultimately show ?thesis
      using c False by (auto intro: consumed_trans)
  qed
qed

text \<open>
  A host that parses is not empty, is made of hexadecimal digits, dots and colons, and has four
  octets or eight groups.
\<close>

definition ip_wf :: "ip_addr \<Rightarrow> bool" where
  "ip_wf ip = (case ip of V4 _ _ _ _ \<Rightarrow> True | V6 gs \<Rightarrow> length gs = 8)"

lemma parse_ip_empty [simp]: "parse_ip [] = None"
  by code_simp

lemma parse_ip_Some:
  assumes "parse_ip s = Some ip"
  shows "ip_wf ip" and "s \<noteq> []" and "\<forall>c \<in> set s. ip_char c"
proof -
  have read: "read_ip_addr s = Some (ip, [])"
    using assms by (auto simp: parse_ip_def split: option.splits if_splits)
  then have "consumed s [] \<and> ip_wf ip"
    by (auto simp: read_ip_addr_def ip_wf_def split: option.splits
        dest: read_ipv4_addr_consumed read_ipv6_addr_consumed)
  then show "ip_wf ip" "\<forall>c \<in> set s. ip_char c"
    by (auto dest: consumed_Nil)
  show "s \<noteq> []"
    using assms by auto
qed

end
