(* ===== verification/Config.thy ===== *)
theory Config
  imports Ip_Addr
begin

text \<open>
  Configuration (\<open>src/fproxy-rs/src/config.rs\<close>): endpoints, durations, the merge of command
  line and file, and \<open>validate\<close>. The YAML parser (\<open>serde_yaml::from_str\<close>) and the file system
  (\<open>std::fs::read_to_string\<close>) are parameters; the command line parser has already produced
  \<open>cli_args\<close>.
\<close>

section \<open>Data\<close>

definition DEFAULT_DEDUP_WINDOW :: usize where
  "DEFAULT_DEDUP_WINDOW = 10000"

definition DEFAULT_SESSION_TIMEOUT_SECS :: u64 where
  "DEFAULT_SESSION_TIMEOUT_SECS = 60"

datatype config_error =
    ModeRequired
  | InvalidMode
  | ClientListenRequired
  | ClientServersRequired
  | ServerListenRequired
  | ServerTargetRequired
  | InvalidEndpointFormat string
  | InvalidProtocol string
  | InvalidAddressFormat string string
  | InvalidIPAddress
  | ClientServersDifferentIPs
  | FileReadError string
  | FileParseError string

datatype mode = Client | Server

datatype transport = Udp | Tcp

record endpoint =
  ep_address :: string
  ep_protocol :: transport

record client_config =
  cc_listen_addr :: string
  cc_servers :: "endpoint list"
  cc_session_timeout :: duration

record server_config =
  sc_listen_addrs :: "endpoint list"
  sc_target_addr :: string
  sc_dedup_window :: usize
  sc_session_timeout :: duration

record config =
  cfg_mode :: mode
  cfg_verbose :: bool
  cfg_client :: "client_config option"
  cfg_server :: "server_config option"

record yaml_client_config =
  yc_listen_addr :: "string option"
  yc_servers :: "string option"
  yc_session_timeout :: "string option"

record yaml_server_config =
  ys_listen_addrs :: "string option"
  ys_target_addr :: "string option"
  ys_dedup_window :: "usize option"
  ys_session_timeout :: "string option"

record yaml_config =
  y_mode :: "string option"
  y_verbose :: "bool option"
  y_client :: "yaml_client_config option"
  y_server :: "yaml_server_config option"

record cli_args =
  arg_config :: "string option"
  arg_mode :: "string option"
  arg_verbose :: bool
  arg_listen :: "string option"
  arg_servers :: "string option"
  arg_listen_addrs :: "string option"
  arg_target :: "string option"
  arg_dedup_window :: "usize option"
  arg_session_timeout :: "string option"

text \<open>The derived \<open>Default\<close> instances.\<close>

definition client_config_default :: client_config where
  "client_config_default = \<lparr>cc_listen_addr = [], cc_servers = [], cc_session_timeout = 0\<rparr>"

definition server_config_default :: server_config where
  "server_config_default =
     \<lparr>sc_listen_addrs = [], sc_target_addr = [], sc_dedup_window = 0, sc_session_timeout = 0\<rparr>"

definition yaml_client_config_default :: yaml_client_config where
  "yaml_client_config_default =
     \<lparr>yc_listen_addr = None, yc_servers = None, yc_session_timeout = None\<rparr>"

definition yaml_server_config_default :: yaml_server_config where
  "yaml_server_config_default =
     \<lparr>ys_listen_addrs = None, ys_target_addr = None, ys_dedup_window = None,
      ys_session_timeout = None\<rparr>"

definition yaml_config_default :: yaml_config where
  "yaml_config_default = \<lparr>y_mode = None, y_verbose = None, y_client = None, y_server = None\<rparr>"

section \<open>Modes, hosts and endpoints\<close>

definition mode_from_str :: "string \<Rightarrow> mode option" where
  "mode_from_str s =
     (let l = to_lowercase s in
      if l = ''client'' then Some Client
      else if l = ''server'' then Some Server
      else None)"

definition extract_host :: "string \<Rightarrow> config_error + string" where
  "extract_host address =
     (if starts_with ''['' address then
        (case find_char CHR '']'' address of
           Some bracket_end \<Rightarrow> Inr (drop 1 (take bracket_end address))
         | None \<Rightarrow> Inl (InvalidAddressFormat address ''unclosed bracket''))
      else
        (case rfind_char CHR '':'' address of
           Some colon_pos \<Rightarrow> Inr (take colon_pos address)
         | None \<Rightarrow> Inl (InvalidAddressFormat address ''missing port'')))"

definition is_valid_ip :: "string \<Rightarrow> bool" where
  "is_valid_ip host = (parse_ip host \<noteq> None)"

definition parse_host_ip :: "string \<Rightarrow> config_error + ip_addr option" where
  "parse_host_ip address =
     try_bind (extract_host address) (\<lambda>host.
       if host = [] then Inr None
       else (case parse_ip host of
               Some ip \<Rightarrow> Inr (Some ip)
             | None \<Rightarrow> Inl InvalidIPAddress))"

definition normalize_listen_addr :: "string \<Rightarrow> string" where
  "normalize_listen_addr addr =
     (if starts_with '':'' addr then ''0.0.0.0'' @ addr
      else if starts_with ''[:]:'' addr then ''[::]'' @ drop 3 addr
      else addr)"

definition endpoint_parse :: "string \<Rightarrow> config_error + endpoint" where
  "endpoint_parse s =
     (let parts = split_on CHR ''/'' s in
      if length parts \<noteq> 2 then Inl (InvalidEndpointFormat s)
      else
        let address = parts ! 0; proto = to_lowercase (parts ! 1) in
        try_bind (if proto = ''udp'' then Inr Udp
                  else if proto = ''tcp'' then Inr Tcp
                  else Inl (InvalidProtocol (parts ! 1))) (\<lambda>protocol.
        try_bind (extract_host address) (\<lambda>host.
          if host \<noteq> [] \<and> \<not> is_valid_ip host then Inl InvalidIPAddress
          else Inr \<lparr>ep_address = normalize_listen_addr address, ep_protocol = protocol\<rparr>)))"

definition endpoint_parse_list :: "string \<Rightarrow> config_error + endpoint list" where
  "endpoint_parse_list s =
     (if s = [] then Inr []
      else collect_results
             (map endpoint_parse (filter (\<lambda>p. p \<noteq> []) (map trim (split_on CHR '','' s)))))"

section \<open>Durations\<close>

text \<open>\<open>num * 60\<close> and \<open>num * 3600\<close> are products of \<open>u64\<close>; the release profile wraps.\<close>

definition parse_duration :: "string \<Rightarrow> duration option" where
  "parse_duration s0 =
     (let s = trim s0 in
      if s = [] then None
      else
        let (num_str, unit) =
          (case strip_suffix ''ms'' s of Some n \<Rightarrow> (n, ''ms'') | None \<Rightarrow>
          (case strip_suffix ''s'' s of Some n \<Rightarrow> (n, ''s'') | None \<Rightarrow>
          (case strip_suffix ''m'' s of Some n \<Rightarrow> (n, ''m'') | None \<Rightarrow>
          (case strip_suffix ''h'' s of Some n \<Rightarrow> (n, ''h'') | None \<Rightarrow>
          (s, ''s''))))) in
        (case parse_u64 num_str of
           None \<Rightarrow> None
         | Some num \<Rightarrow>
             if unit = ''ms'' then Some (from_millis num)
             else if unit = ''s'' then Some (from_secs num)
             else if unit = ''m'' then Some (from_secs (num * 60))
             else if unit = ''h'' then Some (from_secs (num * 3600))
             else None))"

section \<open>Validation\<close>

text \<open>The loop over \<open>client.servers[1..]\<close>.\<close>

fun check_same_ip :: "ip_addr option \<Rightarrow> endpoint list \<Rightarrow> config_error + unit" where
  "check_same_ip first_ip [] = Inr ()"
| "check_same_ip first_ip (ep # eps) =
     try_bind (parse_host_ip (ep_address ep)) (\<lambda>ip.
       if first_ip \<noteq> ip then Inl ClientServersDifferentIPs
       else check_same_ip first_ip eps)"

definition validate_client :: "client_config \<Rightarrow> config_error + client_config" where
  "validate_client c =
     (if cc_listen_addr c = [] then Inl ClientListenRequired
      else if cc_servers c = [] then Inl ClientServersRequired
      else
        try_bind (if length (cc_servers c) > 1
                  then try_bind (parse_host_ip (ep_address (cc_servers c ! 0))) (\<lambda>first_ip.
                         check_same_ip first_ip (drop 1 (cc_servers c)))
                  else Inr ()) (\<lambda>_.
          Inr (if cc_session_timeout c = 0
               then c\<lparr>cc_session_timeout := from_secs DEFAULT_SESSION_TIMEOUT_SECS\<rparr>
               else c)))"

definition validate_server :: "server_config \<Rightarrow> config_error + server_config" where
  "validate_server s =
     (if sc_listen_addrs s = [] then Inl ServerListenRequired
      else if sc_target_addr s = [] then Inl ServerTargetRequired
      else
        let s1 = (if sc_dedup_window s = 0 then s\<lparr>sc_dedup_window := DEFAULT_DEDUP_WINDOW\<rparr> else s)
        in Inr (if sc_session_timeout s1 = 0
                then s1\<lparr>sc_session_timeout := from_secs DEFAULT_SESSION_TIMEOUT_SECS\<rparr>
                else s1))"

text \<open>
  \<open>validate\<close> works on \<open>&mut self\<close>: the configuration afterwards is returned beside the result,
  and holds the inserted default part even when the result is an error.
\<close>

definition config_validate :: "config \<Rightarrow> (config_error + unit) \<times> config" where
  "config_validate cfg =
     (case cfg_mode cfg of
        Client \<Rightarrow>
          let client = unwrap_or (cfg_client cfg) client_config_default in
          (case validate_client client of
             Inl e \<Rightarrow> (Inl e, cfg\<lparr>cfg_client := Some client\<rparr>)
           | Inr client' \<Rightarrow> (Inr (), cfg\<lparr>cfg_client := Some client'\<rparr>))
      | Server \<Rightarrow>
          let server = unwrap_or (cfg_server cfg) server_config_default in
          (case validate_server server of
             Inl e \<Rightarrow> (Inl e, cfg\<lparr>cfg_server := Some server\<rparr>)
           | Inr server' \<Rightarrow> (Inr (), cfg\<lparr>cfg_server := Some server'\<rparr>)))"

section \<open>Loading\<close>

definition load_from_file ::
    "(string \<Rightarrow> string + string) \<Rightarrow> (string \<Rightarrow> string + yaml_config) \<Rightarrow> string
       \<Rightarrow> config_error + yaml_config" where
  "load_from_file read_to_string from_str path =
     (case read_to_string path of
        Inl e \<Rightarrow> Inl (FileReadError e)
      | Inr content \<Rightarrow>
          (case from_str content of
             Inl e \<Rightarrow> Inl (FileParseError e)
           | Inr yaml \<Rightarrow> Inr yaml))"

definition effective_timeout :: "string option \<Rightarrow> string option \<Rightarrow> duration" where
  "effective_timeout arg yaml =
     unwrap_or (Option.bind (opt_or arg yaml) parse_duration) 0"

definition build_client_config :: "cli_args \<Rightarrow> yaml_config \<Rightarrow> config_error + client_config" where
  "build_client_config args yaml =
     (let yaml_client = unwrap_or (y_client yaml) yaml_client_config_default;
          listen = unwrap_or (opt_or (arg_listen args) (yc_listen_addr yaml_client)) [];
          listen_addr = normalize_listen_addr listen;
          servers_str = unwrap_or (opt_or (arg_servers args) (yc_servers yaml_client)) []
      in try_bind (endpoint_parse_list servers_str) (\<lambda>servers.
           Inr \<lparr>cc_listen_addr = listen_addr, cc_servers = servers,
                cc_session_timeout =
                  effective_timeout (arg_session_timeout args) (yc_session_timeout yaml_client)\<rparr>))"

definition build_server_config :: "cli_args \<Rightarrow> yaml_config \<Rightarrow> config_error + server_config" where
  "build_server_config args yaml =
     (let yaml_server = unwrap_or (y_server yaml) yaml_server_config_default;
          listen_addrs_str =
            unwrap_or (opt_or (arg_listen_addrs args) (ys_listen_addrs yaml_server)) []
      in try_bind (endpoint_parse_list listen_addrs_str) (\<lambda>listen_addrs.
           Inr \<lparr>sc_listen_addrs = listen_addrs,
                sc_target_addr =
                  unwrap_or (opt_or (arg_target args) (ys_target_addr yaml_server)) [],
                sc_dedup_window =
                  unwrap_or (opt_or (arg_dedup_window args) (ys_dedup_window yaml_server)) 0,
                sc_session_timeout =
                  effective_timeout (arg_session_timeout args) (ys_session_timeout yaml_server)\<rparr>))"

definition load ::
    "(string \<Rightarrow> string + string) \<Rightarrow> (string \<Rightarrow> string + yaml_config) \<Rightarrow> cli_args
       \<Rightarrow> config_error + config" where
  "load read_to_string from_str args =
     try_bind (case arg_config args of
                 Some path \<Rightarrow> load_from_file read_to_string from_str path
               | None \<Rightarrow> Inr yaml_config_default) (\<lambda>yaml.
     try_bind (case opt_or (arg_mode args) (y_mode yaml) of
                 Some s \<Rightarrow> (case mode_from_str s of Some m \<Rightarrow> Inr m | None \<Rightarrow> Inl InvalidMode)
               | None \<Rightarrow> Inl ModeRequired) (\<lambda>mode.
     try_bind (if mode = Client then try_bind (build_client_config args yaml) (\<lambda>c. Inr (Some c))
               else Inr None) (\<lambda>client.
     try_bind (if mode = Server then try_bind (build_server_config args yaml) (\<lambda>s. Inr (Some s))
               else Inr None) (\<lambda>server.
       let cfg = \<lparr>cfg_mode = mode,
                  cfg_verbose = (arg_verbose args \<or> unwrap_or (y_verbose yaml) False),
                  cfg_client = client, cfg_server = server\<rparr>
       in (case config_validate cfg of
             (Inl e, _) \<Rightarrow> Inl e
           | (Inr _, cfg') \<Rightarrow> Inr cfg')))))"

section \<open>Endpoints\<close>

lemma endpoint_parse_pair:
  assumes "s = addr @ CHR ''/'' # proto" and "CHR ''/'' \<notin> set addr" and "CHR ''/'' \<notin> set proto"
  shows "endpoint_parse s =
    try_bind (if to_lowercase proto = ''udp'' then Inr Udp
              else if to_lowercase proto = ''tcp'' then Inr Tcp
              else Inl (InvalidProtocol proto)) (\<lambda>protocol.
    try_bind (extract_host addr) (\<lambda>host.
      if host \<noteq> [] \<and> \<not> is_valid_ip host then Inl InvalidIPAddress
      else Inr \<lparr>ep_address = normalize_listen_addr addr, ep_protocol = protocol\<rparr>))"
proof -
  have "split_on CHR ''/'' s = [addr, proto]"
    using assms by (simp add: split_on_eq_pair)
  then show ?thesis by (simp add: endpoint_parse_def)
qed

lemma endpoint_parse_not_pair:
  assumes "length (split_on CHR ''/'' s) \<noteq> 2"
  shows "endpoint_parse s = Inl (InvalidEndpointFormat s)"
  using assms by (simp add: endpoint_parse_def)

lemma split_on_pairE:
  assumes "length (split_on c s) = 2"
  obtains p q where "s = p @ c # q" and "c \<notin> set p" and "c \<notin> set q"
proof -
  from assms obtain p q where "split_on c s = [p, q]"
    by (auto simp: numeral_2_eq_2 length_Suc_conv)
  then have "s = p @ c # q \<and> c \<notin> set p \<and> c \<notin> set q"
    by (simp add: split_on_eq_pair)
  then show ?thesis by (auto intro: that)
qed

text \<open>
  \<open>Endpoint::parse\<close> accepts a string exactly when it is one address and one protocol
  around a single slash, the protocol is \<open>udp\<close> or \<open>tcp\<close> in any letter case, and the host of the
  address is empty or an IP address; the endpoint is then that protocol and the normalised
  address. So no domain name is ever accepted.
\<close>

lemma endpoint_parse_accepts:
  "endpoint_parse s = Inr ep \<longleftrightarrow>
     (\<exists>addr proto host.
        s = addr @ CHR ''/'' # proto \<and> CHR ''/'' \<notin> set addr \<and> CHR ''/'' \<notin> set proto \<and>
        to_lowercase proto = (case ep_protocol ep of Udp \<Rightarrow> ''udp'' | Tcp \<Rightarrow> ''tcp'') \<and>
        extract_host addr = Inr host \<and>
        (host = [] \<or> (\<exists>ip. parse_ip host = Some ip)) \<and>
        ep_address ep = normalize_listen_addr addr)"
  (is "?lhs \<longleftrightarrow> ?rhs")
proof
  assume ?lhs
  then have "length (split_on CHR ''/'' s) = 2"
    by (auto simp: endpoint_parse_def Let_def split: if_splits)
  then obtain addr proto
    where parts: "s = addr @ CHR ''/'' # proto" "CHR ''/'' \<notin> set addr" "CHR ''/'' \<notin> set proto"
    by (rule split_on_pairE)
  with \<open>?lhs\<close> obtain host where
    "to_lowercase proto = (case ep_protocol ep of Udp \<Rightarrow> ''udp'' | Tcp \<Rightarrow> ''tcp'')"
    "extract_host addr = Inr host" "host = [] \<or> (\<exists>ip. parse_ip host = Some ip)"
    "ep_address ep = normalize_listen_addr addr"
    unfolding endpoint_parse_pair [OF parts]
    by (auto simp: try_bind_eq_Inr is_valid_ip_def split: if_splits)
  with parts show ?rhs by blast
next
  assume ?rhs
  then obtain addr proto host
    where parts: "s = addr @ CHR ''/'' # proto" "CHR ''/'' \<notin> set addr" "CHR ''/'' \<notin> set proto"
      and rest: "to_lowercase proto = (case ep_protocol ep of Udp \<Rightarrow> ''udp'' | Tcp \<Rightarrow> ''tcp'')"
        "extract_host addr = Inr host" "host = [] \<or> (\<exists>ip. parse_ip host = Some ip)"
        "ep_address ep = normalize_listen_addr addr"
    by blast
  show ?lhs
    unfolding endpoint_parse_pair [OF parts] using rest
    by (cases ep; cases "ep_protocol ep") (auto simp: is_valid_ip_def)
qed

text \<open>
  The two address forms the parser lets through although they cannot be used: a
  bracketed IPv6 host without a port, and an unbracketed IPv6 host that begins with a colon,
  whose address is then rewritten to one with no valid host.
\<close>

lemma endpoint_parse_lenient:
  "endpoint_parse ''[::1]/udp'' = Inr \<lparr>ep_address = ''[::1]'', ep_protocol = Udp\<rparr> \<and>
   endpoint_parse ''::1:8001/udp'' = Inr \<lparr>ep_address = ''0.0.0.0::1:8001'', ep_protocol = Udp\<rparr> \<and>
   parse_host_ip ''0.0.0.0::1:8001'' = Inl InvalidIPAddress"
proof -
  have "endpoint_parse ''[::1]/udp'' = Inr \<lparr>ep_address = ''[::1]'', ep_protocol = Udp\<rparr>"
    by code_simp
  moreover have "endpoint_parse ''::1:8001/udp''
      = Inr \<lparr>ep_address = ''0.0.0.0::1:8001'', ep_protocol = Udp\<rparr>"
    by code_simp
  moreover have "parse_host_ip ''0.0.0.0::1:8001'' = Inl InvalidIPAddress"
    by code_simp
  ultimately show ?thesis by blast
qed

section \<open>Validation\<close>

lemma check_same_ip_Inr:
  "check_same_ip ip eps = Inr () \<longleftrightarrow> (\<forall>ep \<in> set eps. parse_host_ip (ep_address ep) = Inr ip)"
  by (induction eps) (auto simp: try_bind_eq_Inr)

definition same_server :: "endpoint list \<Rightarrow> bool" where
  "same_server eps \<longleftrightarrow>
     length eps \<le> 1 \<or> (\<exists>ip. \<forall>ep \<in> set eps. parse_host_ip (ep_address ep) = Inr ip)"

definition with_default_timeout :: "duration \<Rightarrow> duration" where
  "with_default_timeout t = (if t = 0 then from_secs DEFAULT_SESSION_TIMEOUT_SECS else t)"

lemma with_default_timeout_pos [simp]: "0 < with_default_timeout t"
  by (simp add: with_default_timeout_def DEFAULT_SESSION_TIMEOUT_SECS_def)

lemma with_default_timeout_idem [simp]:
  "with_default_timeout (with_default_timeout t) = with_default_timeout t"
  using with_default_timeout_pos [of t] by (simp add: with_default_timeout_def)

lemma same_ip_check:
  assumes "eps \<noteq> []"
  shows "(if length eps > 1
          then try_bind (parse_host_ip (ep_address (eps ! 0))) (\<lambda>ip. check_same_ip ip (drop 1 eps))
          else Inr ()) = Inr () \<longleftrightarrow> same_server eps"
proof -
  from assms obtain ep eps' where eps: "eps = ep # eps'" by (cases eps) auto
  show ?thesis
    by (auto simp: eps same_server_def try_bind_eq_Inr check_same_ip_Inr)
qed

lemma validate_client_Inr:
  "validate_client c = Inr c' \<longleftrightarrow>
     cc_listen_addr c \<noteq> [] \<and> cc_servers c \<noteq> [] \<and> same_server (cc_servers c) \<and>
     c' = c\<lparr>cc_session_timeout := with_default_timeout (cc_session_timeout c)\<rparr>"
proof (cases "cc_listen_addr c = [] \<or> cc_servers c = []")
  case True
  then show ?thesis by (auto simp: validate_client_def)
next
  case False
  have filled: "(if cc_session_timeout c = 0
      then c\<lparr>cc_session_timeout := from_secs DEFAULT_SESSION_TIMEOUT_SECS\<rparr> else c)
      = c\<lparr>cc_session_timeout := with_default_timeout (cc_session_timeout c)\<rparr>"
    by (cases c) (simp add: with_default_timeout_def)
  let ?check = "if length (cc_servers c) > 1
    then try_bind (parse_host_ip (ep_address (cc_servers c ! 0)))
           (\<lambda>ip. check_same_ip ip (drop 1 (cc_servers c)))
    else Inr ()"
  have check: "?check = Inr () \<longleftrightarrow> same_server (cc_servers c)"
    using False by (intro same_ip_check) simp
  have "validate_client c = try_bind ?check (\<lambda>_.
      Inr (c\<lparr>cc_session_timeout := with_default_timeout (cc_session_timeout c)\<rparr>))"
    unfolding validate_client_def filled using False by simp
  with False check show ?thesis
    by (cases ?check) (auto simp del: One_nat_def)
qed

lemma validate_server_Inr:
  "validate_server s = Inr s' \<longleftrightarrow>
     sc_listen_addrs s \<noteq> [] \<and> sc_target_addr s \<noteq> [] \<and>
     s' = s\<lparr>sc_dedup_window :=
              (if sc_dedup_window s = 0 then DEFAULT_DEDUP_WINDOW else sc_dedup_window s),
            sc_session_timeout := with_default_timeout (sc_session_timeout s)\<rparr>"
  by (cases s) (auto simp: validate_server_def with_default_timeout_def Let_def)

text \<open>What \<open>validate\<close> promises of a configuration it accepts.\<close>

definition client_config_ok :: "client_config \<Rightarrow> bool" where
  "client_config_ok c \<longleftrightarrow>
     cc_listen_addr c \<noteq> [] \<and> cc_servers c \<noteq> [] \<and> same_server (cc_servers c) \<and>
     cc_session_timeout c \<noteq> 0"

definition server_config_ok :: "server_config \<Rightarrow> bool" where
  "server_config_ok s \<longleftrightarrow>
     sc_listen_addrs s \<noteq> [] \<and> sc_target_addr s \<noteq> [] \<and> sc_dedup_window s \<noteq> 0 \<and>
     sc_session_timeout s \<noteq> 0"

definition config_ok :: "config \<Rightarrow> bool" where
  "config_ok cfg \<longleftrightarrow>
     (case cfg_mode cfg of
        Client \<Rightarrow> (\<exists>c. cfg_client cfg = Some c \<and> client_config_ok c)
      | Server \<Rightarrow> (\<exists>s. cfg_server cfg = Some s \<and> server_config_ok s))"

lemma validate_client_ok: "validate_client c = Inr c' \<Longrightarrow> client_config_ok c'"
  by (simp add: validate_client_Inr client_config_ok_def)

lemma validate_server_ok: "validate_server s = Inr s' \<Longrightarrow> server_config_ok s'"
  by (simp add: validate_server_Inr server_config_ok_def DEFAULT_DEDUP_WINDOW_def)

lemma config_validate_Inr:
  "config_validate cfg = (Inr u, cfg') \<Longrightarrow> config_ok cfg'"
  by (auto simp: config_validate_def config_ok_def Let_def validate_client_ok validate_server_ok
      split: mode.splits sum.splits)

lemma config_validate_fix:
  "config_ok cfg \<Longrightarrow> config_validate cfg = (Inr (), cfg)"
proof (cases "cfg_mode cfg")
  case Client
  assume ok: "config_ok cfg"
  then obtain c where c: "cfg_client cfg = Some c" "client_config_ok c"
    using Client by (auto simp: config_ok_def)
  then have "validate_client c = Inr c"
    unfolding validate_client_Inr
    by (cases c) (simp add: client_config_ok_def with_default_timeout_def)
  with c Client show ?thesis by (simp add: config_validate_def)
next
  case Server
  assume ok: "config_ok cfg"
  then obtain s where s: "cfg_server cfg = Some s" "server_config_ok s"
    using Server by (auto simp: config_ok_def)
  then have "validate_server s = Inr s"
    unfolding validate_server_Inr
    by (cases s) (simp add: server_config_ok_def with_default_timeout_def)
  with s Server show ?thesis by (simp add: config_validate_def)
qed

section \<open>Loading\<close>

lemma mode_choice_Inr:
  "(case m of Some s \<Rightarrow> (case mode_from_str s of Some m \<Rightarrow> Inr m | None \<Rightarrow> Inl InvalidMode)
    | None \<Rightarrow> Inl ModeRequired) = Inr md \<longleftrightarrow> Option.bind m mode_from_str = Some md"
  by (cases m) (auto split: option.splits)

lemma validated_Inr:
  "(case config_validate cfg of (Inl e, _) \<Rightarrow> Inl e | (Inr _, cfg') \<Rightarrow> Inr cfg') = Inr cfg''
     \<longleftrightarrow> config_validate cfg = (Inr (), cfg'')"
  by (auto split: prod.splits sum.splits)

lemma client_part_Inr:
  "(if b then try_bind r (\<lambda>c. Inr (Some c)) else Inr None) = Inr p \<longleftrightarrow>
     (if b then \<exists>c. r = Inr c \<and> p = Some c else p = None)"
  by (cases r) auto

lemma load_Inr:
  "load rd ys args = Inr cfg \<longleftrightarrow>
     (\<exists>yaml mode client server.
        (case arg_config args of Some path \<Rightarrow> load_from_file rd ys path
         | None \<Rightarrow> Inr yaml_config_default) = Inr yaml \<and>
        Option.bind (opt_or (arg_mode args) (y_mode yaml)) mode_from_str = Some mode \<and>
        (if mode = Client then \<exists>c. build_client_config args yaml = Inr c \<and> client = Some c
         else client = None) \<and>
        (if mode = Server then \<exists>s. build_server_config args yaml = Inr s \<and> server = Some s
         else server = None) \<and>
        config_validate
          \<lparr>cfg_mode = mode, cfg_verbose = (arg_verbose args \<or> unwrap_or (y_verbose yaml) False),
           cfg_client = client, cfg_server = server\<rparr> = (Inr (), cfg))"
  unfolding load_def try_bind_eq_Inr Let_def mode_choice_Inr validated_Inr client_part_Inr
  by auto

text \<open>
  Claim C33: whatever \<open>load\<close> returns has passed \<open>validate\<close>: it carries the part its mode needs,
  with a listen address, at least one endpoint, a target, one server address shared by all
  client endpoints, a nonzero window and a nonzero timeout; and it carries no other part.
\<close>

theorem load_valid:
  assumes "load rd ys args = Inr cfg"
  shows "config_ok cfg \<and> (cfg_client cfg = None \<or> cfg_server cfg = None)"
proof -
  obtain yaml md verb client server where v: "config_validate
      \<lparr>cfg_mode = md, cfg_verbose = verb, cfg_client = client, cfg_server = server\<rparr> = (Inr (), cfg)"
    and "if md = Client then \<exists>c. build_client_config args yaml = Inr c \<and> client = Some c
         else client = None"
    and "if md = Server then \<exists>s. build_server_config args yaml = Inr s \<and> server = Some s
         else server = None"
    using assms unfolding load_Inr by blast
  then have one: "md = Client \<and> server = None \<or> md = Server \<and> client = None"
    by (cases md) auto
  have "cfg_client cfg = None \<or> cfg_server cfg = None"
    using v one by (auto simp: config_validate_def Let_def split: mode.splits sum.splits)
  then show ?thesis
    using config_validate_Inr [OF v] by blast
qed

definition no_args :: cli_args where
  "no_args = \<lparr>arg_config = None, arg_mode = None, arg_verbose = False, arg_listen = None,
     arg_servers = None, arg_listen_addrs = None, arg_target = None, arg_dedup_window = None,
     arg_session_timeout = None\<rparr>"

definition sample_args :: cli_args where
  "sample_args = no_args\<lparr>arg_mode := Some ''Client'', arg_listen := Some '':5000'',
     arg_servers := Some ''10.0.0.1:8001/udp, 10.0.0.1:8002/TCP''\<rparr>"

definition sample_config :: config where
  "sample_config = \<lparr>cfg_mode = Client, cfg_verbose = False,
     cfg_client = Some \<lparr>cc_listen_addr = ''0.0.0.0:5000'',
       cc_servers = [\<lparr>ep_address = ''10.0.0.1:8001'', ep_protocol = Udp\<rparr>,
                     \<lparr>ep_address = ''10.0.0.1:8002'', ep_protocol = Tcp\<rparr>],
       cc_session_timeout = 60000000000\<rparr>,
     cfg_server = None\<rparr>"

lemma load_sample: "load (\<lambda>_. Inl []) (\<lambda>_. Inl []) sample_args = Inr sample_config"
  by code_simp

theorem load_valid_witness:
  "config_ok sample_config \<and> (cfg_client sample_config = None \<or> cfg_server sample_config = None)"
  by (rule load_valid [OF load_sample])

text \<open>
  The command line takes precedence, option by option: in client mode the loaded
  configuration is built from the given value where there is one, else from the file's, else
  from the default; a timeout of zero, missing or unreadable, becomes sixty seconds.
\<close>

lemma load_client_fields:
  assumes "load rd ys args = Inr cfg" and "cfg_mode cfg = Client"
  shows "\<exists>yaml c.
    (case arg_config args of Some path \<Rightarrow> load_from_file rd ys path
     | None \<Rightarrow> Inr yaml_config_default) = Inr yaml \<and>
    cfg_client cfg = Some c \<and>
    cfg_verbose cfg = (arg_verbose args \<or> unwrap_or (y_verbose yaml) False) \<and>
    (let y = unwrap_or (y_client yaml) yaml_client_config_default in
     cc_listen_addr c
       = normalize_listen_addr (unwrap_or (opt_or (arg_listen args) (yc_listen_addr y)) []) \<and>
     Inr (cc_servers c)
       = endpoint_parse_list (unwrap_or (opt_or (arg_servers args) (yc_servers y)) []) \<and>
     cc_session_timeout c
       = with_default_timeout
           (effective_timeout (arg_session_timeout args) (yc_session_timeout y)))"
proof -
  obtain yaml mode client server where l:
    "(case arg_config args of Some path \<Rightarrow> load_from_file rd ys path
      | None \<Rightarrow> Inr yaml_config_default) = Inr yaml"
    "if mode = Client then \<exists>c. build_client_config args yaml = Inr c \<and> client = Some c
     else client = None"
    "config_validate
       \<lparr>cfg_mode = mode, cfg_verbose = (arg_verbose args \<or> unwrap_or (y_verbose yaml) False),
        cfg_client = client, cfg_server = server\<rparr> = (Inr (), cfg)"
    using assms(1) unfolding load_Inr by blast
  then have "mode = Client"
    using assms(2) by (auto simp: config_validate_def Let_def split: mode.splits sum.splits)
  with l(2) obtain c where c: "build_client_config args yaml = Inr c" "client = Some c"
    by auto
  with l(3) \<open>mode = Client\<close> obtain c' where c': "validate_client c = Inr c'"
    "cfg_client cfg = Some c'"
    "cfg_verbose cfg = (arg_verbose args \<or> unwrap_or (y_verbose yaml) False)"
    by (auto simp: config_validate_def split: sum.splits)
  with c l(1) show ?thesis
    by (auto simp: build_client_config_def Let_def try_bind_eq_Inr validate_client_Inr)
qed

lemma load_client_fields_example:
  "\<exists>yaml c. Inr yaml_config_default = Inr yaml \<and>
     cfg_client sample_config = Some c \<and>
     cfg_verbose sample_config
       = (arg_verbose sample_args \<or> unwrap_or (y_verbose yaml) False) \<and>
     (let y = unwrap_or (y_client yaml) yaml_client_config_default in
      cc_listen_addr c
        = normalize_listen_addr (unwrap_or (opt_or (arg_listen sample_args) (yc_listen_addr y)) []) \<and>
      Inr (cc_servers c)
        = endpoint_parse_list (unwrap_or (opt_or (arg_servers sample_args) (yc_servers y)) []) \<and>
      cc_session_timeout c
        = with_default_timeout
            (effective_timeout (arg_session_timeout sample_args) (yc_session_timeout y)))"
proof -
  have "cfg_mode sample_config = Client" by (simp add: sample_config_def)
  from load_client_fields [OF load_sample this] show ?thesis
    by (simp add: sample_args_def no_args_def)
qed

text \<open>
  A configuration that has passed \<open>validate\<close> passes it again and is not changed by it: the
  defaults are filled in once.
\<close>

lemma validate_idempotent:
  assumes "config_validate cfg = (Inr (), cfg')"
  shows "config_validate cfg' = (Inr (), cfg')"
  using config_validate_Inr [OF assms] by (rule config_validate_fix)

definition bare_server :: config where
  "bare_server = \<lparr>cfg_mode = Server, cfg_verbose = True, cfg_client = None,
     cfg_server = Some \<lparr>sc_listen_addrs = [\<lparr>ep_address = ''0.0.0.0:1'', ep_protocol = Udp\<rparr>],
       sc_target_addr = ''10.0.0.9:80'', sc_dedup_window = 0, sc_session_timeout = 0\<rparr>\<rparr>"

definition full_server :: config where
  "full_server = \<lparr>cfg_mode = Server, cfg_verbose = True, cfg_client = None,
     cfg_server = Some \<lparr>sc_listen_addrs = [\<lparr>ep_address = ''0.0.0.0:1'', ep_protocol = Udp\<rparr>],
       sc_target_addr = ''10.0.0.9:80'', sc_dedup_window = 10000,
       sc_session_timeout = 60000000000\<rparr>\<rparr>"

lemma validate_idempotent_witness:
  "config_validate bare_server = (Inr (), full_server) \<and>
   config_validate full_server = (Inr (), full_server)"
proof -
  have v: "config_validate bare_server = (Inr (), full_server)" by code_simp
  with validate_idempotent [OF v] show ?thesis by blast
qed

section \<open>Durations\<close>

lemma parse_duration_number:
  assumes k: "parse_u64 n = Some k"
  shows "parse_duration n = Some (from_secs k)"
    and "parse_duration (n @ ''ms'') = Some (from_millis k)"
    and "parse_duration (n @ ''s'') = Some (from_secs k)"
    and "parse_duration (n @ ''m'') = Some (from_secs (k * 60))"
    and "parse_duration (n @ ''h'') = Some (from_secs (k * 3600))"
proof -
  note n = parse_u64_chars [OF k]
  have printable_n: "printable c" if "c \<in> set n" for c
    using n(2) [OF that] by (simp add: printable_def)
  have no_unit: "c \<notin> set n" if "57 < (of_char c :: nat)" for c
    using n(2) [of c] that by auto
  have trim: "trim (n @ u) = n @ u" if "list_all printable u" for u
    using n(1) printable_n that
    by (intro trim_id) (auto simp: list_all_iff last_append intro: printable_n)
  have ends: "strip_suffix [c] (n @ [d]) = (if c = d then Some n else None)" for c d
    by (auto simp: strip_suffix_Some strip_suffix_None)
  have ms: "strip_suffix ''ms'' (n @ [d]) = None" for d
    using no_unit [of "CHR ''m''"] by (auto simp: strip_suffix_None append_eq_append_conv2
        append_eq_Cons_conv Cons_eq_append_conv)
  have none: "strip_suffix [c] n = None" if "57 < (of_char c :: nat)" for c
    using no_unit [OF that] by (auto simp: strip_suffix_None)
  have none2: "strip_suffix ''ms'' n = None"
    using no_unit [of "CHR ''m''"] by (auto simp: strip_suffix_None)
  have both: "strip_suffix ''ms'' (n @ ''ms'') = Some n"
    by (simp add: strip_suffix_Some)
  show "parse_duration n = Some (from_secs k)"
    using trim [of "[]"] n(1) by (simp add: parse_duration_def none none2 k)
  show "parse_duration (n @ ''ms'') = Some (from_millis k)"
    using trim [of "''ms''"] by (simp add: parse_duration_def both k printable_def)
  show "parse_duration (n @ ''s'') = Some (from_secs k)"
    using trim [of "''s''"] by (simp add: parse_duration_def ends ms k printable_def)
  show "parse_duration (n @ ''m'') = Some (from_secs (k * 60))"
    using trim [of "''m''"] by (simp add: parse_duration_def ends ms k printable_def)
  show "parse_duration (n @ ''h'') = Some (from_secs (k * 3600))"
    using trim [of "''h''"] by (simp add: parse_duration_def ends ms k printable_def)
qed

lemma unat_times:
  fixes k c :: u64
  assumes "unat k * unat c < 2 ^ 64"
  shows "unat (k * c) = unat k * unat c"
  using assms by (simp add: unat_word_ariths)

text \<open>
  A decimal number reads as that many seconds, and with the suffix \<open>ms\<close>, \<open>s\<close>, \<open>m\<close> or \<open>h\<close> as
  that many milliseconds, seconds, minutes or hours, exactly, as long as its seconds fit in
  64 bits.
\<close>

lemma parse_duration_units:
  assumes "parse_u64 n = Some k" and "unat k * 3600 < 2 ^ 64"
  shows "parse_duration n = Some (unat k * 1000000000) \<and>
         parse_duration (n @ ''ms'') = Some (unat k * 1000000) \<and>
         parse_duration (n @ ''s'') = Some (unat k * 1000000000) \<and>
         parse_duration (n @ ''m'') = Some (unat k * 60 * 1000000000) \<and>
         parse_duration (n @ ''h'') = Some (unat k * 3600 * 1000000000)"
  using assms(2) parse_duration_number [OF assms(1)]
  by (simp add: from_secs_def from_millis_def unat_times)

lemma parse_duration_units_example:
  "parse_duration ''90'' = Some 90000000000 \<and> parse_duration ''90ms'' = Some 90000000 \<and>
   parse_duration ''90s'' = Some 90000000000 \<and> parse_duration ''90m'' = Some 5400000000000 \<and>
   parse_duration ''90h'' = Some 324000000000000"
proof -
  have "parse_u64 ''90'' = Some 90" by code_simp
  from parse_duration_units [OF this] show ?thesis by simp
qed

text \<open>
  Beyond that bound the product wraps: this many minutes, six hundred thousand million
  years, are read as forty-four seconds; and a timeout that is no duration at all is not an
  error, it becomes the default of sixty seconds.
\<close>

theorem parse_duration_wraps:
  "parse_duration ''307445734561825861m'' = Some (from_secs 44) \<and>
   parse_duration ''five'' = None \<and>
   load (\<lambda>_. Inl []) (\<lambda>_. Inl []) (sample_args\<lparr>arg_session_timeout := Some ''five''\<rparr>)
     = Inr sample_config"
proof -
  have "parse_duration ''307445734561825861m'' = Some (from_secs 44)" by code_simp
  moreover have "parse_duration ''five'' = None" by code_simp
  moreover have "load (\<lambda>_. Inl []) (\<lambda>_. Inl [])
      (sample_args\<lparr>arg_session_timeout := Some ''five''\<rparr>) = Inr sample_config"
    by code_simp
  ultimately show ?thesis by blast
qed

end
