(* ===== verification/Cli.thy ===== *)
theory Cli
  imports Config
begin

text \<open>
  The program's entry (\<open>src/fproxy-rs/src/main.rs\<close>): the rewriting of Go-style flags, and the
  way from the loaded configuration to the client or the server. The command line parser of
  \<open>clap\<close> is a parameter. What \<open>main\<close> does from there on is theory \<open>Program\<close>.
\<close>

section \<open>Flags\<close>

definition known_flags :: "string list" where
  "known_flags =
     [''config'', ''mode'', ''verbose'', ''listen'', ''servers'', ''listen-addrs'', ''target'',
      ''dedup-window'', ''session-timeout'', ''help'', ''version'']"

definition convert_arg :: "string \<Rightarrow> string" where
  "convert_arg arg =
     (case strip_prefix ''-'' arg of
        Some rest \<Rightarrow>
          if \<not> starts_with ''-'' rest then
            let flag_name = (case split_on CHR ''='' rest of p # _ \<Rightarrow> p | [] \<Rightarrow> rest) in
            if flag_name \<in> set known_flags then ''-'' @ arg else arg
          else arg
      | None \<Rightarrow> arg)"

definition convert_go_style_args :: "string list \<Rightarrow> string list" where
  "convert_go_style_args args = map convert_arg args"

lemma known_flag_chars:
  "f \<in> set known_flags \<Longrightarrow> f \<noteq> [] \<and> hd f \<noteq> CHR ''-'' \<and> CHR ''='' \<notin> set f"
  by (auto simp: known_flags_def)

lemma split_on_hd:
  "\<exists>ps. split_on c s = takeWhile (\<lambda>x. x \<noteq> c) s # ps"
  by (induction s) auto

lemma convert_arg_eq:
  "convert_arg arg =
     (case arg of [] \<Rightarrow> []
      | c # rest \<Rightarrow> if c = CHR ''-'' \<and> takeWhile (\<lambda>x. x \<noteq> CHR ''='') rest \<in> set known_flags
                  then ''-'' @ arg else arg)"
proof (cases arg)
  case Nil
  then show ?thesis by (simp add: convert_arg_def strip_prefix_def starts_with_def)
next
  case (Cons c rest)
  obtain ps where ps: "split_on CHR ''='' rest = takeWhile (\<lambda>x. x \<noteq> CHR ''='') rest # ps"
    using split_on_hd by blast
  have "\<not> starts_with ''-'' rest" if "takeWhile (\<lambda>x. x \<noteq> CHR ''='') rest \<in> set known_flags"
    using known_flag_chars [OF that] by (cases rest) (auto simp: starts_with_def split: if_splits)
  with Cons ps show ?thesis
    by (auto simp: convert_arg_def strip_prefix_def starts_with_def)
qed

lemma takeWhile_neq_eq:
  "takeWhile (\<lambda>x. x \<noteq> c) s = f \<longleftrightarrow> c \<notin> set f \<and> (s = f \<or> (\<exists>v. s = f @ c # v))"
proof
  assume f: "takeWhile (\<lambda>x. x \<noteq> c) s = f"
  then have "c \<notin> set f" using set_takeWhileD by fastforce
  moreover have "s = f \<or> (\<exists>v. s = f @ c # v)"
  proof (cases "dropWhile (\<lambda>x. x \<noteq> c) s")
    case Nil
    with f show ?thesis by (metis append_Nil2 takeWhile_dropWhile_id)
  next
    case (Cons x v)
    then have "x = c" using hd_dropWhile [of "\<lambda>x. x \<noteq> c" s] by simp
    with f Cons show ?thesis by (metis takeWhile_dropWhile_id)
  qed
  ultimately show "c \<notin> set f \<and> (s = f \<or> (\<exists>v. s = f @ c # v))" by blast
next
  assume "c \<notin> set f \<and> (s = f \<or> (\<exists>v. s = f @ c # v))"
  then show "takeWhile (\<lambda>x. x \<noteq> c) s = f"
    by (auto simp: takeWhile_append)
qed

text \<open>
  An argument gets a second dash exactly when it is one dash and a known flag name,
  alone or followed by an equals sign and a value; every other argument is passed on as it is,
  and converting twice is converting once, so arguments already in the double-dash form survive.
\<close>

theorem convert_arg_known:
  "convert_arg arg =
     (if \<exists>f v. List.member known_flags f \<and> (arg = ''-'' @ f \<or> arg = ''-'' @ f @ ''='' @ v)
      then ''-'' @ arg else arg) \<and>
   convert_go_style_args (convert_go_style_args args) = convert_go_style_args args"
proof -
  have known: "takeWhile (\<lambda>x. x \<noteq> CHR ''='') s \<in> set known_flags \<longleftrightarrow>
      (\<exists>f v. List.member known_flags f \<and> (s = f \<or> s = f @ ''='' @ v))" for s
  proof
    assume "takeWhile (\<lambda>x. x \<noteq> CHR ''='') s \<in> set known_flags"
    moreover define f where "f = takeWhile (\<lambda>x. x \<noteq> CHR ''='') s"
    moreover have "s = f \<or> (\<exists>v. s = f @ ''='' @ v)"
      using f_def takeWhile_neq_eq [of "CHR ''=''" s f] by auto
    ultimately show "\<exists>f v. List.member known_flags f \<and> (s = f \<or> s = f @ ''='' @ v)"
      by auto
  next
    assume "\<exists>f v. List.member known_flags f \<and> (s = f \<or> s = f @ ''='' @ v)"
    then obtain f v where f: "f \<in> set known_flags" "s = f \<or> s = f @ ''='' @ v"
      by auto
    then have "takeWhile (\<lambda>x. x \<noteq> CHR ''='') s = f"
      using known_flag_chars by (auto simp: takeWhile_neq_eq)
    with f show "takeWhile (\<lambda>x. x \<noteq> CHR ''='') s \<in> set known_flags" by simp
  qed
  have "convert_arg (convert_arg a) = convert_arg a" for a
  proof -
    have "takeWhile (\<lambda>x. x \<noteq> CHR ''='') (CHR ''-'' # r) \<notin> set known_flags" for r
      using known_flag_chars [of "takeWhile (\<lambda>x. x \<noteq> CHR ''='') (CHR ''-'' # r)"] by auto
    then show ?thesis by (cases a) (auto simp: convert_arg_eq)
  qed
  then have "convert_go_style_args (convert_go_style_args args) = convert_go_style_args args"
    by (simp add: convert_go_style_args_def)
  moreover have "convert_arg arg =
     (if \<exists>f v. List.member known_flags f \<and> (arg = ''-'' @ f \<or> arg = ''-'' @ f @ ''='' @ v)
      then ''-'' @ arg else arg)"
    by (cases arg) (auto simp: convert_arg_eq known)
  ultimately show ?thesis by blast
qed

section \<open>From the configuration to the running proxy\<close>

text \<open>
  What \<open>main\<close> comes to before it starts anything: the error \<open>load\<close> returned, a panic of one
  of the two \<open>expect\<close> calls, or the client or server to start, with the log level.
\<close>

datatype log_level = DEBUG | INFO

datatype launch =
    LoadFailed config_error
  | ExpectFailed log_level string
  | StartClient log_level client_config
  | StartServer log_level server_config

definition main ::
    "(string list \<Rightarrow> cli_args) \<Rightarrow> (string \<Rightarrow> string + string) \<Rightarrow> (string \<Rightarrow> string + yaml_config)
       \<Rightarrow> string list \<Rightarrow> launch" where
  "main parse_from read_to_string from_str argv =
     (let args = parse_from (convert_go_style_args argv) in
      case load read_to_string from_str args of
        Inl e \<Rightarrow> LoadFailed e
      | Inr config \<Rightarrow>
          let log_level = (if cfg_verbose config then DEBUG else INFO) in
          (case cfg_mode config of
             Client \<Rightarrow> (case cfg_client config of
                         None \<Rightarrow> ExpectFailed log_level ''client config required''
                       | Some client_cfg \<Rightarrow> StartClient log_level client_cfg)
           | Server \<Rightarrow> (case cfg_server config of
                         None \<Rightarrow> ExpectFailed log_level ''server config required''
                       | Some server_cfg \<Rightarrow> StartServer log_level server_cfg)))"

lemma load_config_ok: "load rd ys args = Inr cfg \<Longrightarrow> config_ok cfg"
  unfolding load_Inr by (auto intro: config_validate_Inr)

text \<open>
  Neither \<open>expect\<close> of \<open>main\<close> can fail, for any command line and file: what \<open>load\<close>
  returns has the part its mode asks for, and the client or server that \<open>main\<close> starts gets a
  validated configuration.
\<close>

lemma main_never_panics:
  "(case main parse_from rd ys argv of
      LoadFailed e \<Rightarrow> load rd ys (parse_from (convert_go_style_args argv)) = Inl e
    | ExpectFailed lvl msg \<Rightarrow> False
    | StartClient lvl c \<Rightarrow> client_config_ok c
    | StartServer lvl s \<Rightarrow> server_config_ok s)"
proof (cases "load rd ys (parse_from (convert_go_style_args argv))")
  case (Inl e)
  then show ?thesis by (simp add: main_def)
next
  case (Inr cfg)
  then show ?thesis
    using load_config_ok [OF Inr] by (auto simp: main_def Let_def config_ok_def split: mode.splits)
qed

end
