(* ===== verification/Dedup.thy ===== *)
theory Dedup
  imports Prelude
begin

text \<open>
  What a deduplication window promises, apart from how it is stored. A window is checked
  against one sequence number after another; \<open>check w s\<close> returns whether \<open>s\<close> is a duplicate and
  the window afterwards. Its meaning is the set of sequence numbers it refuses.

  The locale \<open>replay_filter\<close> holds the laws that make a filter admit nothing twice; the locale
  \<open>sliding_window\<close> adds those that bound what it refuses without having seen it. The server's
  \<open>DedupWindow\<close> and the client's \<open>ResponseDedupWindow\<close> interpret both.
\<close>

section \<open>Running a filter over a sequence of arrivals\<close>

fun run_filter :: "('w \<Rightarrow> u32 \<Rightarrow> bool \<times> 'w) \<Rightarrow> 'w \<Rightarrow> u32 list \<Rightarrow> u32 list \<times> 'w" where
  "run_filter check w [] = ([], w)"
| "run_filter check w (s # ss) =
     (let (dup, w1) = check w s; (as, w2) = run_filter check w1 ss
      in (if dup then as else s # as, w2))"

abbreviation admitted :: "('w \<Rightarrow> u32 \<Rightarrow> bool \<times> 'w) \<Rightarrow> 'w \<Rightarrow> u32 list \<Rightarrow> u32 list" where
  "admitted check w ss \<equiv> fst (run_filter check w ss)"

abbreviation window_after :: "('w \<Rightarrow> u32 \<Rightarrow> bool \<times> 'w) \<Rightarrow> 'w \<Rightarrow> u32 list \<Rightarrow> 'w" where
  "window_after check w ss \<equiv> snd (run_filter check w ss)"

lemma run_filter_Cons:
  "admitted check w (s # ss) =
     (if fst (check w s) then [] else [s]) @ admitted check (snd (check w s)) ss"
  "window_after check w (s # ss) = window_after check (snd (check w s)) ss"
  by (simp_all add: Let_def case_prod_beta)

lemma run_filter_append:
  "admitted check w (ss @ ts) =
     admitted check w ss @ admitted check (window_after check w ss) ts"
  "window_after check w (ss @ ts) = window_after check (window_after check w ss) ts"
  by (induction ss arbitrary: w) (simp_all add: Let_def case_prod_beta)

lemma admitted_subset: "set (admitted check w ss) \<subseteq> set ss"
  by (induction ss arbitrary: w) (auto simp: Let_def case_prod_beta)

declare run_filter.simps(2) [simp del]

section \<open>Nothing is admitted twice\<close>

locale replay_filter =
  fixes check :: "'w \<Rightarrow> u32 \<Rightarrow> bool \<times> 'w"
    and inv :: "'w \<Rightarrow> bool"
    and refused :: "'w \<Rightarrow> u32 set"
  assumes inv_check: "inv w \<Longrightarrow> inv (snd (check w s))"
    and verdict: "inv w \<Longrightarrow> fst (check w s) \<longleftrightarrow> s \<in> refused w"
    and refused_grows: "inv w \<Longrightarrow> refused w \<subseteq> refused (snd (check w s))"
    and checked_refused: "inv w \<Longrightarrow> s \<in> refused (snd (check w s))"
    and duplicate_stable: "fst (check w s) \<Longrightarrow> snd (check w s) = w"
begin

lemma inv_run: "inv w \<Longrightarrow> inv (window_after check w ss)"
  by (induction ss arbitrary: w) (simp_all add: run_filter_Cons inv_check)

lemma refused_grows_run: "inv w \<Longrightarrow> refused w \<subseteq> refused (window_after check w ss)"
proof (induction ss arbitrary: w)
  case Nil
  then show ?case by simp
next
  case (Cons s ss)
  then show ?case
    using refused_grows [of w s] inv_check [of w s] by (simp add: run_filter_Cons) blast
qed

lemma processed_refused: "inv w \<Longrightarrow> set ss \<subseteq> refused (window_after check w ss)"
proof (induction ss arbitrary: w)
  case Nil
  then show ?case by simp
next
  case (Cons s ss)
  have inv': "inv (snd (check w s))" by (rule inv_check [OF Cons.prems])
  show ?case
    using Cons.IH [OF inv'] checked_refused [OF Cons.prems, of s] refused_grows_run [OF inv', of ss]
    by (auto simp: run_filter_Cons)
qed

lemma admitted_not_refused: "inv w \<Longrightarrow> set (admitted check w ss) \<inter> refused w = {}"
proof (induction ss arbitrary: w)
  case Nil
  then show ?case by simp
next
  case (Cons s ss)
  then show ?case
    using verdict [of w s] refused_grows [of w s] inv_check [of w s]
    by (auto simp: run_filter_Cons)
qed

lemma admitted_distinct: "inv w \<Longrightarrow> distinct (admitted check w ss)"
proof (induction ss arbitrary: w)
  case Nil
  then show ?case by simp
next
  case (Cons s ss)
  have inv': "inv (snd (check w s))" by (rule inv_check [OF Cons.prems])
  then have "s \<notin> set (admitted check (snd (check w s)) ss)"
    using admitted_not_refused [OF inv', of ss] checked_refused [OF Cons.prems, of s] by blast
  with Cons.IH [OF inv'] show ?case by (simp add: run_filter_Cons)
qed

text \<open>Whatever has been checked once is a duplicate from then on.\<close>

lemma replay_duplicate: "inv w \<Longrightarrow> s \<in> set ss \<Longrightarrow> fst (check (window_after check w ss) s)"
  using processed_refused [of w ss] by (auto simp: verdict inv_run)

text \<open>A run of refused numbers leaves the window as it is.\<close>

lemma refused_run_stable:
  "inv w \<Longrightarrow> set ss \<subseteq> refused w \<Longrightarrow> run_filter check w ss = ([], w)"
proof (induction ss)
  case Nil
  then show ?case by simp
next
  case (Cons s ss)
  then have "check w s = (True, w)"
    using verdict [of w s] duplicate_stable [of w s] by (cases "check w s") auto
  with Cons show ?case by (simp add: run_filter.simps(2))
qed

end

section \<open>What may be refused unseen\<close>

locale sliding_window = replay_filter check inv refused
  for check :: "'w \<Rightarrow> u32 \<Rightarrow> bool \<times> 'w"
    and inv :: "'w \<Rightarrow> bool"
    and refused :: "'w \<Rightarrow> u32 set" +
  fixes fresh :: "'w \<Rightarrow> bool"
    and width :: "'w \<Rightarrow> nat"
  assumes fresh_refused: "fresh w \<Longrightarrow> refused w = {}"
    and fresh_check: "inv w \<Longrightarrow> fresh w \<Longrightarrow> refused (snd (check w s)) = {..s}"
    and check_not_fresh: "\<not> fresh (snd (check w s))"
    and width_check: "width (snd (check w s)) = width w"
    and slide: "inv w \<Longrightarrow> \<not> fresh w \<Longrightarrow> r \<in> refused (snd (check w s)) \<Longrightarrow>
      r \<in> refused w \<or> r = s \<or> unat r + width w \<le> unat s"
begin

lemma refused_reason_started:
  assumes "inv w" and "\<not> fresh w" and "r \<in> refused (window_after check w ss)"
  shows "r \<in> refused w \<or> r \<in> set ss \<or> (\<exists>t \<in> set ss. unat r + width w \<le> unat t)"
  using assms
proof (induction ss arbitrary: w)
  case Nil
  then show ?case by simp
next
  case (Cons s ss)
  let ?w = "snd (check w s)"
  have "r \<in> refused ?w \<or> r \<in> set ss \<or> (\<exists>t \<in> set ss. unat r + width ?w \<le> unat t)"
    using Cons.prems by (intro Cons.IH) (simp_all add: inv_check check_not_fresh run_filter_Cons)
  then show ?case
    using slide [OF Cons.prems(1,2), of r s] by (auto simp: width_check)
qed

text \<open>
  A refused number is one of three things: already checked, below the first number of the
  session, or at least a window's width behind the newest one.
\<close>

lemma refused_reason:
  assumes "inv w" and "fresh w" and "r \<in> refused (window_after check w (f # ss))"
  shows "r \<in> set (f # ss) \<or> r < f \<or> (\<exists>t \<in> set ss. unat r + width w \<le> unat t)"
proof -
  let ?w = "snd (check w f)"
  have "r \<in> refused ?w \<or> r \<in> set ss \<or> (\<exists>t \<in> set ss. unat r + width ?w \<le> unat t)"
    using assms
    by (intro refused_reason_started) (simp_all add: inv_check check_not_fresh run_filter_Cons)
  then show ?thesis
    using fresh_check [OF assms(1,2), of f] by (auto simp: width_check)
qed

lemma fresh_number_admitted:
  assumes "inv w" and "fresh w"
    and "s \<notin> set (f # ss)" and "f \<le> s" and "\<forall>t \<in> set ss. unat t < unat s + width w"
  shows "\<not> fst (check (window_after check w (f # ss)) s)"
proof
  assume "fst (check (window_after check w (f # ss)) s)"
  then have "s \<in> refused (window_after check w (f # ss))"
    using assms(1) by (simp add: verdict inv_run)
  from refused_reason [OF assms(1,2) this] show False
    using assms(3-5) by force
qed

lemma first_admitted: "inv w \<Longrightarrow> fresh w \<Longrightarrow> \<not> fst (check w s)"
  by (simp add: verdict fresh_refused)

text \<open>Arrivals in increasing order are all admitted, whatever the width.\<close>

lemma increasing_admitted:
  assumes "inv w" and "fresh w" and "sorted_wrt (<) ss"
  shows "admitted check w ss = ss"
  using assms(3)
proof (induction ss rule: rev_induct)
  case Nil
  then show ?case by simp
next
  case (snoc s ss)
  then have IH: "admitted check w ss = ss" by (simp add: sorted_wrt_append)
  have "\<not> fst (check (window_after check w ss) s)"
  proof (cases ss)
    case Nil
    with assms show ?thesis by (simp add: first_admitted)
  next
    case (Cons f ts)
    have above: "\<forall>t \<in> set ss. t < s"
      using snoc.prems by (simp add: sorted_wrt_append)
    then have "\<forall>t \<in> set ts. unat t < unat s + width w"
      unfolding Cons by (auto simp: word_less_nat_alt intro: trans_less_add1)
    then show ?thesis
      using above assms(1,2) unfolding Cons
      by (intro fresh_number_admitted) auto
  qed
  then show ?case
    by (simp add: run_filter_append IH run_filter_Cons)
qed

end

end
