(* ===== verification/Server_Dedup.thy ===== *)
theory Server_Dedup
  imports Dedup
begin

text \<open>
  \<open>DedupWindow\<close> of \<open>src/fproxy-rs/src/server.rs\<close>: the record, \<open>new\<close> and \<open>is_duplicate\<close>, its
  invariant, and the interpretations of the filter contracts of theory \<open>Dedup\<close>.
\<close>

section \<open>The window\<close>

text \<open>A \<open>HashMap<u32, ()>\<close> is a set of \<open>u32\<close>.\<close>

record dedup_window =
  dw_seen :: "u32 set"
  dw_min_seq :: u32
  dw_max_seq :: u32
  dw_size :: usize
  dw_started :: bool

definition dedup_window_new :: "usize \<Rightarrow> dedup_window" where
  "dedup_window_new size' =
     \<lparr>dw_seen = {}, dw_min_seq = 0, dw_max_seq = 0, dw_size = size', dw_started = False\<rparr>"

text \<open>
  \<open>self.size as u32 - 1\<close> keeps the low 32 bits of the size; the release profile wraps when
  they are zero, a debug build panics, see \<open>is_duplicate_checked\<close>.
\<close>

definition slide_min :: "dedup_window \<Rightarrow> u32" where
  "slide_min w = saturating_sub (dw_max_seq w) (ucast (dw_size w) - 1)"

definition is_duplicate :: "dedup_window \<Rightarrow> u32 \<Rightarrow> bool \<times> dedup_window" where
  "is_duplicate w seq =
     (if \<not> dw_started w then
        (False, w\<lparr>dw_started := True, dw_min_seq := seq, dw_max_seq := seq,
                  dw_seen := insert seq (dw_seen w)\<rparr>)
      else if seq \<in> dw_seen w then (True, w)
      else if seq < dw_min_seq w then (True, w)
      else
        let w1 = w\<lparr>dw_seen := insert seq (dw_seen w)\<rparr> in
        if seq > dw_max_seq w1 then
          let w2 = w1\<lparr>dw_max_seq := seq\<rparr> in
          if unat (dw_size w2) < card (dw_seen w2) then
            let new_min = slide_min w2 in
            (False, w2\<lparr>dw_seen := Set.filter (\<lambda>s. new_min \<le> s) (dw_seen w2),
                       dw_min_seq := new_min\<rparr>)
          else (False, w2)
        else (False, w1))"

text \<open>
  The same code where overflow checks are on, as in a debug build: \<open>None\<close> is the panic of the
  subtraction.
\<close>

definition checked_sub :: "'a::len word \<Rightarrow> 'a word \<Rightarrow> 'a word option" where
  "checked_sub a b = (if b \<le> a then Some (a - b) else None)"

definition is_duplicate_checked :: "dedup_window \<Rightarrow> u32 \<Rightarrow> (bool \<times> dedup_window) option" where
  "is_duplicate_checked w seq =
     (if \<not> dw_started w then
        Some (False, w\<lparr>dw_started := True, dw_min_seq := seq, dw_max_seq := seq,
                       dw_seen := insert seq (dw_seen w)\<rparr>)
      else if seq \<in> dw_seen w then Some (True, w)
      else if seq < dw_min_seq w then Some (True, w)
      else
        let w1 = w\<lparr>dw_seen := insert seq (dw_seen w)\<rparr> in
        if seq > dw_max_seq w1 then
          let w2 = w1\<lparr>dw_max_seq := seq\<rparr> in
          if unat (dw_size w2) < card (dw_seen w2) then
            case checked_sub (ucast (dw_size w2)) 1 of
              None \<Rightarrow> None
            | Some width \<Rightarrow>
                let new_min = saturating_sub (dw_max_seq w2) width in
                Some (False, w2\<lparr>dw_seen := Set.filter (\<lambda>s. new_min \<le> s) (dw_seen w2),
                                dw_min_seq := new_min\<rparr>)
          else Some (False, w2)
        else Some (False, w1))"

section \<open>Its invariant\<close>

definition dw_inv :: "dedup_window \<Rightarrow> bool" where
  "dw_inv w \<longleftrightarrow> dw_size w \<noteq> 0 \<and>
     (if dw_started w
      then dw_max_seq w \<in> dw_seen w \<and>
        (\<forall>s \<in> dw_seen w. dw_min_seq w \<le> s \<and> s \<le> dw_max_seq w)
      else dw_seen w = {})"

definition dw_refused :: "dedup_window \<Rightarrow> u32 set" where
  "dw_refused w = (if dw_started w then dw_seen w \<union> {..<dw_min_seq w} else {})"

lemma dw_inv_new: "size' \<noteq> 0 \<Longrightarrow> dw_inv (dedup_window_new size')"
  by (simp add: dw_inv_def dedup_window_new_def)

lemma card_word_interval:
  fixes a b :: "'a::len word"
  assumes "A \<subseteq> {a..b}" and "a \<le> b"
  shows "card A \<le> unat b + 1 - unat a"
proof -
  have "unat ` A \<subseteq> {unat a..unat b}"
    using assms(1) by (auto simp: word_le_nat_alt)
  then have "card (unat ` A) \<le> card {unat a..unat b}"
    by (intro card_mono) simp_all
  moreover have "card (unat ` A) = card A"
    by (intro card_image inj_onI) (simp add: word_unat_eq_iff)
  ultimately show ?thesis by simp
qed

text \<open>
  When the window slides, the size fits in 32 bits and the new lower end lies strictly above
  the old one.
\<close>

lemma slide_arith:
  assumes "dw_inv w" and "dw_started w" and "dw_max_seq w < seq"
    and full: "unat (dw_size w) < card (insert seq (dw_seen w))"
  shows "ucast (dw_size w) \<noteq> (0 :: u32)"
    and "unat (slide_min (w\<lparr>dw_seen := A, dw_max_seq := seq\<rparr>)) = unat seq + 1 - unat (dw_size w)"
    and "unat (dw_min_seq w) + unat (dw_size w) \<le> unat seq"
    and "0 < unat (dw_size w)"
proof -
  have "dw_min_seq w \<le> seq"
    using assms(1-3) by (auto simp: dw_inv_def intro: order_trans less_imp_le)
  moreover have "x \<le> seq" if "x \<in> dw_seen w" for x
    using assms(1-3) that by (auto simp: dw_inv_def intro: order_trans less_imp_le)
  ultimately have "insert seq (dw_seen w) \<subseteq> {dw_min_seq w .. seq}" "dw_min_seq w \<le> seq"
    using assms(1,2) by (auto simp: dw_inv_def)
  then have "card (insert seq (dw_seen w)) \<le> unat seq + 1 - unat (dw_min_seq w)"
    by (rule card_word_interval)
  with full show low: "unat (dw_min_seq w) + unat (dw_size w) \<le> unat seq"
    by linarith
  show pos: "0 < unat (dw_size w)"
    using assms(1) by (auto simp: dw_inv_def unat_eq_zero [symmetric])
  have "unat seq < 2 ^ LENGTH(32)" by (rule unsigned_less)
  with low have size: "unat (ucast (dw_size w) :: u32) = unat (dw_size w)"
    by (simp add: unsigned_ucast_eq take_bit_nat_eq_self)
  with pos show nonzero: "ucast (dw_size w) \<noteq> (0 :: u32)"
    by auto
  then have "unat (ucast (dw_size w) - 1 :: u32) = unat (dw_size w) - 1"
    using size pos by (simp add: unat_sub word_le_nat_alt)
  then show "unat (slide_min (w\<lparr>dw_seen := A, dw_max_seq := seq\<rparr>)) = unat seq + 1 - unat (dw_size w)"
    using pos by (simp add: slide_min_def unat_saturating_sub)
qed

text \<open>With overflow checks on, a window of nonzero size does the same and does not panic.\<close>

lemma checked_sub_one: "(a :: 'a::len word) \<noteq> 0 \<Longrightarrow> checked_sub a 1 = Some (a - 1)"
  by (simp add: checked_sub_def word_le_nat_alt Suc_le_eq unat_gt_0)

lemma is_duplicate_checked_agrees:
  assumes "dw_inv w"
  shows "is_duplicate_checked w seq = Some (is_duplicate w seq)"
proof (cases "dw_started w \<and> dw_max_seq w < seq \<and> unat (dw_size w) < card (insert seq (dw_seen w))")
  case True
  with slide_arith(1) [OF assms] have "checked_sub (ucast (dw_size w)) 1 = Some (ucast (dw_size w) - 1 :: u32)"
    by (intro checked_sub_one) blast
  then show ?thesis
    by (simp add: is_duplicate_checked_def is_duplicate_def Let_def slide_min_def)
next
  case False
  then show ?thesis
    by (auto simp: is_duplicate_checked_def is_duplicate_def Let_def)
qed

text \<open>With a size of zero it panics on the second number, if that is larger.\<close>

lemma zero_window_panics:
  assumes "r < s"
  shows "is_duplicate_checked (snd (is_duplicate (dedup_window_new 0) r)) s = None"
  using assms by (auto simp: is_duplicate_checked_def is_duplicate_def dedup_window_new_def checked_sub_def)

text \<open>The four ways through \<open>is_duplicate\<close>.\<close>

lemma is_duplicate_first:
  "\<not> dw_started w \<Longrightarrow> is_duplicate w s =
     (False, w\<lparr>dw_started := True, dw_min_seq := s, dw_max_seq := s,
        dw_seen := insert s (dw_seen w)\<rparr>)"
  by (simp add: is_duplicate_def)

lemma is_duplicate_refused:
  "dw_started w \<Longrightarrow> s \<in> dw_refused w \<Longrightarrow> is_duplicate w s = (True, w)"
  by (auto simp: is_duplicate_def dw_refused_def)

lemma is_duplicate_inside:
  assumes "dw_started w" and "s \<notin> dw_refused w"
    and "dw_max_seq w < s \<longrightarrow> card (insert s (dw_seen w)) \<le> unat (dw_size w)"
  shows "is_duplicate w s = (False, w\<lparr>dw_seen := insert s (dw_seen w),
           dw_max_seq := max s (dw_max_seq w)\<rparr>)"
  using assms by (auto simp: is_duplicate_def dw_refused_def Let_def max_def)

lemma is_duplicate_slide:
  fixes w s
  defines "m \<equiv> slide_min (w\<lparr>dw_seen := insert s (dw_seen w), dw_max_seq := s\<rparr>)"
  assumes "dw_started w" and "s \<notin> dw_refused w" and "dw_max_seq w < s"
    and "unat (dw_size w) < card (insert s (dw_seen w))"
  shows "is_duplicate w s = (False, w\<lparr>dw_seen := {r \<in> insert s (dw_seen w). m \<le> r},
           dw_max_seq := s, dw_min_seq := m\<rparr>)"
  using assms by (auto simp: is_duplicate_def dw_refused_def Let_def)

lemma is_duplicate_cases:
  obtains (first) "\<not> dw_started w"
  | (dup) "dw_started w" "s \<in> dw_refused w"
  | (inside) "dw_started w" "s \<notin> dw_refused w"
      "dw_max_seq w < s \<longrightarrow> card (insert s (dw_seen w)) \<le> unat (dw_size w)"
  | (slide) "dw_started w" "s \<notin> dw_refused w" "dw_max_seq w < s"
      "unat (dw_size w) < card (insert s (dw_seen w))"
  by (metis not_le)

section \<open>The contracts hold\<close>

lemma dw_slide_facts:
  assumes "dw_inv w" and "dw_started w" and "dw_max_seq w < s"
    and "unat (dw_size w) < card (insert s (dw_seen w))"
  defines "m \<equiv> slide_min (w\<lparr>dw_seen := insert s (dw_seen w), dw_max_seq := s\<rparr>)"
  shows "m \<le> s" and "dw_min_seq w < m"
    and "r < m \<longleftrightarrow> unat r + unat (dw_size w) \<le> unat s"
proof -
  note arith = slide_arith(2-4) [OF assms(1-4)]
  have m: "unat m = unat s + 1 - unat (dw_size w)"
    unfolding m_def by (rule arith(1))
  with arith(2,3) show "m \<le> s" "dw_min_seq w < m"
      "r < m \<longleftrightarrow> unat r + unat (dw_size w) \<le> unat s"
    by (auto simp: word_le_nat_alt word_less_nat_alt)
qed

lemma dw_inv_check:
  assumes "dw_inv w"
  shows "dw_inv (snd (is_duplicate w s))"
proof (cases rule: is_duplicate_cases [where w = w and s = s])
  case first
  with assms show ?thesis by (simp add: is_duplicate_first dw_inv_def)
next
  case dup
  with assms show ?thesis by (simp add: is_duplicate_refused)
next
  case inside
  with assms show ?thesis
    by (auto simp: is_duplicate_inside dw_inv_def dw_refused_def max_def not_less not_le
        intro: order_trans less_imp_le)
next
  case slide
  then show ?thesis
    using assms dw_slide_facts(1) [OF assms slide(1,3,4)]
    by (auto simp: is_duplicate_slide dw_inv_def intro: order_trans less_imp_le)
qed

lemma dw_verdict: "dw_inv w \<Longrightarrow> fst (is_duplicate w s) \<longleftrightarrow> s \<in> dw_refused w"
  by (cases rule: is_duplicate_cases [where w = w and s = s])
    (simp_all add: is_duplicate_first is_duplicate_refused is_duplicate_inside
      is_duplicate_slide dw_refused_def)

lemma dw_refused_check:
  assumes "dw_inv w"
  shows "dw_refused (snd (is_duplicate w s)) =
    (if \<not> dw_started w then {..s}
     else if dw_max_seq w < s \<and> s \<notin> dw_refused w
          \<and> unat (dw_size w) < card (insert s (dw_seen w))
       then insert s (dw_refused w) \<union> {r. unat r + unat (dw_size w) \<le> unat s}
     else insert s (dw_refused w))"
proof (cases rule: is_duplicate_cases [where w = w and s = s])
  case first
  with assms show ?thesis
    by (auto simp: is_duplicate_first dw_refused_def dw_inv_def)
next
  case dup
  with assms show ?thesis by (auto simp: is_duplicate_refused)
next
  case inside
  with assms show ?thesis
    by (auto simp: is_duplicate_inside dw_refused_def)
next
  case slide
  let ?m = "slide_min (w\<lparr>dw_seen := insert s (dw_seen w), dw_max_seq := s\<rparr>)"
  have below: "{..<?m} = {r. unat r + unat (dw_size w) \<le> unat s}"
    using dw_slide_facts(3) [OF assms slide(1,3,4)] by auto
  have "{..<dw_min_seq w} \<subseteq> {..<?m}"
    using dw_slide_facts(2) [OF assms slide(1,3,4)] by auto
  then have merge: "insert s (dw_seen w) \<union> {..<?m} = insert s (dw_refused w) \<union> {..<?m}"
    using slide(1) by (auto simp: dw_refused_def)
  have "dw_refused (snd (is_duplicate w s)) = {r \<in> insert s (dw_seen w). ?m \<le> r} \<union> {..<?m}"
    using slide by (simp add: is_duplicate_slide dw_refused_def)
  also have "\<dots> = insert s (dw_seen w) \<union> {..<?m}"
    by auto
  finally show ?thesis
    using slide below merge by simp
qed

lemma dw_size_check [simp]: "dw_size (snd (is_duplicate w s)) = dw_size w"
  by (cases rule: is_duplicate_cases [where w = w and s = s])
    (simp_all add: is_duplicate_first is_duplicate_refused is_duplicate_inside is_duplicate_slide)

lemma dw_started_check [simp]: "dw_started (snd (is_duplicate w s))"
  by (cases rule: is_duplicate_cases [where w = w and s = s])
    (simp_all add: is_duplicate_first is_duplicate_refused is_duplicate_inside is_duplicate_slide)

lemma dw_duplicate_stable: "fst (is_duplicate w s) \<Longrightarrow> snd (is_duplicate w s) = w"
  by (cases rule: is_duplicate_cases [where w = w and s = s])
    (simp_all add: is_duplicate_first is_duplicate_refused is_duplicate_inside is_duplicate_slide)

interpretation dw: sliding_window is_duplicate dw_inv dw_refused
  "\<lambda>w. \<not> dw_started w" "\<lambda>w. unat (dw_size w)"
proof (unfold_locales, goal_cases)
  case (1 w s)
  then show ?case by (rule dw_inv_check)
next
  case (2 w s)
  then show ?case by (rule dw_verdict)
next
  case (3 w s)
  then show ?case by (cases "dw_started w") (auto simp: dw_refused_check, simp add: dw_refused_def)
next
  case (4 w s)
  then show ?case by (auto simp: dw_refused_check)
next
  case (5 w s)
  then show ?case by (rule dw_duplicate_stable)
next
  case (6 w)
  then show ?case by (simp add: dw_refused_def)
next
  case (7 w s)
  then show ?case by (simp add: dw_refused_check)
next
  case (8 w s)
  show ?case by simp
next
  case (9 w s)
  show ?case by simp
next
  case (10 w r s)
  then show ?case by (auto simp: dw_refused_check split: if_splits)
qed

end
