(* ===== verification/Client_Dedup.thy ===== *)
theory Client_Dedup
  imports Server_Dedup
begin

text \<open>
  \<open>ResponseDedupWindow\<close> of \<open>src/fproxy-rs/src/client.rs\<close>. The client has its own copy of the
  window; it is shown to behave as the server's, and takes over its contracts from there.
\<close>

section \<open>The window\<close>

definition DEFAULT_RESPONSE_DEDUP_SIZE :: usize where
  "DEFAULT_RESPONSE_DEDUP_SIZE = 1000"

record response_dedup_window =
  rw_seen :: "u32 set"
  rw_min_seq :: u32
  rw_max_seq :: u32
  rw_size :: usize
  rw_started :: bool

definition response_window_new :: "usize \<Rightarrow> response_dedup_window" where
  "response_window_new size' =
     \<lparr>rw_seen = {}, rw_min_seq = 0, rw_max_seq = 0, rw_size = size', rw_started = False\<rparr>"

definition response_is_duplicate ::
    "response_dedup_window \<Rightarrow> u32 \<Rightarrow> bool \<times> response_dedup_window" where
  "response_is_duplicate w seq =
     (if \<not> rw_started w then
        (False, w\<lparr>rw_started := True, rw_min_seq := seq, rw_max_seq := seq,
                  rw_seen := insert seq (rw_seen w)\<rparr>)
      else if seq \<in> rw_seen w then (True, w)
      else if seq < rw_min_seq w then (True, w)
      else
        let w1 = w\<lparr>rw_seen := insert seq (rw_seen w)\<rparr> in
        if seq > rw_max_seq w1 then
          let w2 = w1\<lparr>rw_max_seq := seq\<rparr> in
          if unat (rw_size w2) < card (rw_seen w2) then
            let new_min = saturating_sub (rw_max_seq w2) (ucast (rw_size w2) - 1) in
            (False, w2\<lparr>rw_seen := Set.filter (\<lambda>s. new_min \<le> s) (rw_seen w2),
                       rw_min_seq := new_min\<rparr>)
          else (False, w2)
        else (False, w1))"

section \<open>It is the server's window\<close>

definition as_dw :: "response_dedup_window \<Rightarrow> dedup_window" where
  "as_dw w = \<lparr>dw_seen = rw_seen w, dw_min_seq = rw_min_seq w, dw_max_seq = rw_max_seq w,
              dw_size = rw_size w, dw_started = rw_started w\<rparr>"

lemma as_dw_inject [simp]: "as_dw v = as_dw w \<longleftrightarrow> v = w"
  by (cases v; cases w) (simp add: as_dw_def)

lemma as_dw_simps [simp]:
  "dw_seen (as_dw w) = rw_seen w" "dw_min_seq (as_dw w) = rw_min_seq w"
  "dw_max_seq (as_dw w) = rw_max_seq w" "dw_size (as_dw w) = rw_size w"
  "dw_started (as_dw w) = rw_started w"
  by (simp_all add: as_dw_def)

lemma as_dw_new [simp]: "as_dw (response_window_new n) = dedup_window_new n"
  by (simp add: as_dw_def response_window_new_def dedup_window_new_def)

lemma is_duplicate_as_dw:
  "is_duplicate (as_dw w) s = map_prod id as_dw (response_is_duplicate w s)"
  by (simp add: is_duplicate_def response_is_duplicate_def slide_min_def Let_def as_dw_def)

lemma response_is_duplicate_sel:
  "fst (response_is_duplicate w s) = fst (is_duplicate (as_dw w) s)"
  "as_dw (snd (response_is_duplicate w s)) = snd (is_duplicate (as_dw w) s)"
  by (simp_all add: is_duplicate_as_dw)

lemma run_response_filter:
  "run_filter is_duplicate (as_dw w) ss =
     map_prod id as_dw (run_filter response_is_duplicate w ss)"
proof (induction ss arbitrary: w)
  case Nil
  then show ?case by simp
next
  case (Cons s ss)
  show ?case
    using Cons.IH [of "snd (response_is_duplicate w s)"]
    by (simp add: prod_eq_iff run_filter_Cons response_is_duplicate_sel)
qed

definition rw_inv :: "response_dedup_window \<Rightarrow> bool" where
  "rw_inv w = dw_inv (as_dw w)"

definition rw_refused :: "response_dedup_window \<Rightarrow> u32 set" where
  "rw_refused w = dw_refused (as_dw w)"

lemma rw_inv_new: "n \<noteq> 0 \<Longrightarrow> rw_inv (response_window_new n)"
  by (simp add: rw_inv_def dw_inv_new)

lemma rw_started_new [simp]: "\<not> rw_started (response_window_new n)"
  by (simp add: response_window_new_def)

lemma rw_size_new [simp]: "rw_size (response_window_new n) = n"
  by (simp add: response_window_new_def)

lemma rw_check [simp]:
  "rw_size (snd (response_is_duplicate w s)) = rw_size w"
  "rw_started (snd (response_is_duplicate w s))"
  using dw_size_check [of "as_dw w" s] dw_started_check [of "as_dw w" s]
  by (simp_all flip: response_is_duplicate_sel(2))

interpretation rw: sliding_window response_is_duplicate rw_inv rw_refused
  "\<lambda>w. \<not> rw_started w" "\<lambda>w. unat (rw_size w)"
proof (unfold_locales, goal_cases)
  case (1 w s)
  then show ?case by (simp add: rw_inv_def response_is_duplicate_sel dw.inv_check)
next
  case (2 w s)
  then show ?case by (simp add: rw_inv_def rw_refused_def response_is_duplicate_sel dw.verdict)
next
  case (3 w s)
  then show ?case
    by (simp add: rw_inv_def rw_refused_def response_is_duplicate_sel dw.refused_grows)
next
  case (4 w s)
  then show ?case
    by (simp add: rw_inv_def rw_refused_def response_is_duplicate_sel dw.checked_refused)
next
  case (5 w s)
  then show ?case
    using dw.duplicate_stable [of "as_dw w" s] by (simp flip: response_is_duplicate_sel)
next
  case (6 w)
  then show ?case by (simp add: rw_refused_def dw_refused_def)
next
  case (7 w s)
  then show ?case
    using dw.fresh_check [of "as_dw w" s]
    by (simp add: rw_inv_def rw_refused_def response_is_duplicate_sel)
next
  case (8 w s)
  show ?case by simp
next
  case (9 w s)
  show ?case by simp
next
  case (10 w r s)
  then show ?case
    using dw.slide [of "as_dw w" r s]
    by (simp add: rw_inv_def rw_refused_def response_is_duplicate_sel)
qed

end
