(* ===== verification/Protocol.thy ===== *)
theory Protocol
  imports Bytes
begin

text \<open>
  The packet format shared by the UDP and the TCP transport (\<open>src/fproxy-rs/src/protocol.rs\<close>):
  eight bytes of session id, four bytes of sequence number, both big-endian, then the payload.
  The locale \<open>packet_codec\<close> states what the client and the server rely on; both transports
  interpret it.
\<close>

section \<open>The codec\<close>

definition HEADER_SIZE :: nat where
  "HEADER_SIZE = 12"

datatype protocol_error = PacketTooShort

type_synonym packet = "u64 \<times> u32 \<times> bytes"

definition encode_packet :: "u64 \<Rightarrow> u32 \<Rightarrow> bytes \<Rightarrow> bytes" where
  "encode_packet session_id seq payload =
     u64_to_be_bytes session_id @ u32_to_be_bytes seq @ payload"

definition decode_packet :: "bytes \<Rightarrow> protocol_error + packet" where
  "decode_packet packet =
     (if length packet < HEADER_SIZE then Inl PacketTooShort
      else
        let session_id = from_be_bytes (map (nth packet) [0, 1, 2, 3, 4, 5, 6, 7]);
            seq = from_be_bytes (map (nth packet) [8, 9, 10, 11]);
            payload = drop HEADER_SIZE packet
        in Inr (session_id, seq, payload))"

definition encode_tcp :: "u64 \<Rightarrow> u32 \<Rightarrow> bytes \<Rightarrow> bytes" where
  "encode_tcp session_id seq payload = encode_packet session_id seq payload"

definition decode_tcp :: "bytes \<Rightarrow> protocol_error + packet" where
  "decode_tcp packet = decode_packet packet"

definition encode_udp :: "u64 \<Rightarrow> u32 \<Rightarrow> bytes \<Rightarrow> bytes" where
  "encode_udp session_id seq payload = encode_packet session_id seq payload"

definition decode_udp :: "bytes \<Rightarrow> protocol_error + packet" where
  "decode_udp packet = decode_packet packet"

section \<open>The contract of a packet codec\<close>

locale packet_codec =
  fixes enc :: "u64 \<Rightarrow> u32 \<Rightarrow> bytes \<Rightarrow> bytes"
    and dec :: "bytes \<Rightarrow> protocol_error + packet"
  assumes dec_enc: "dec (enc sid sq pl) = Inr (sid, sq, pl)"
    and dec_sound: "dec pkt = Inr (sid, sq, pl) \<Longrightarrow> pkt = enc sid sq pl"
    and dec_short: "dec pkt = Inl err \<longleftrightarrow> length pkt < HEADER_SIZE"
    and enc_length: "length (enc sid sq pl) = HEADER_SIZE + length pl"
begin

lemma dec_iff: "dec pkt = Inr (sid, sq, pl) \<longleftrightarrow> pkt = enc sid sq pl"
  using dec_enc dec_sound by blast

lemma enc_inject: "enc sid sq pl = enc sid' sq' pl' \<longleftrightarrow> sid = sid' \<and> sq = sq' \<and> pl = pl'"
  by (metis dec_enc Inr_inject prod.inject)

lemma dec_total: "HEADER_SIZE \<le> length pkt \<Longrightarrow> \<exists>sid sq pl. dec pkt = Inr (sid, sq, pl)"
  by (metis dec_short leD old.sum.exhaust prod_cases3)

lemma dec_payload_length:
  "dec pkt = Inr (sid, sq, pl) \<Longrightarrow> length pkt = HEADER_SIZE + length pl"
  by (simp add: dec_iff enc_length)

end

section \<open>Both transports meet it\<close>

lemma length_12_split:
  assumes "HEADER_SIZE \<le> length pkt"
  shows "map (nth pkt) [0, 1, 2, 3, 4, 5, 6, 7] = take 8 pkt"
    and "map (nth pkt) [8, 9, 10, 11] = take 4 (drop 8 pkt)"
  using assms
  by (auto intro!: nth_equalityI simp: HEADER_SIZE_def less_Suc_eq numeral_eq_Suc nth_append)

lemma decode_packet_eq:
  "decode_packet pkt =
     (if length pkt < HEADER_SIZE then Inl PacketTooShort
      else Inr (from_be_bytes (take 8 pkt), from_be_bytes (take 4 (drop 8 pkt)), drop 12 pkt))"
  using length_12_split [of pkt]
  by (auto simp: decode_packet_def Let_def HEADER_SIZE_def simp del: list.map)

lemma decode_encode_packet: "decode_packet (encode_packet sid sq pl) = Inr (sid, sq, pl)"
  by (simp add: decode_packet_eq encode_packet_def HEADER_SIZE_def)

lemma encode_decode_packet:
  assumes "decode_packet pkt = Inr (sid, sq, pl)"
  shows "pkt = encode_packet sid sq pl"
proof -
  have len: "HEADER_SIZE \<le> length pkt"
    using assms by (auto simp: decode_packet_eq split: if_splits)
  have fields: "u64_to_be_bytes sid = take 8 pkt" "u32_to_be_bytes sq = take 4 (drop 8 pkt)"
    "pl = drop 12 pkt"
    using assms len
    by (auto simp: decode_packet_eq HEADER_SIZE_def to_from_be_u64 to_from_be_u32 split: if_splits)
  have "drop 8 pkt = take 4 (drop 8 pkt) @ drop 12 pkt"
    using append_take_drop_id [of 4 "drop 8 pkt"] by simp
  then have "pkt = take 8 pkt @ take 4 (drop 8 pkt) @ drop 12 pkt"
    using append_take_drop_id [of 8 pkt] by simp
  with fields show ?thesis
    by (simp add: encode_packet_def)
qed

lemma decode_packet_short:
  "decode_packet pkt = Inl err \<longleftrightarrow> length pkt < HEADER_SIZE"
  by (cases err) (simp add: decode_packet_eq)

lemma length_encode_packet: "length (encode_packet sid sq pl) = HEADER_SIZE + length pl"
  by (simp add: encode_packet_def HEADER_SIZE_def)

lemmas packet_laws =
  decode_encode_packet encode_decode_packet decode_packet_short length_encode_packet

interpretation udp: packet_codec encode_udp decode_udp
  by unfold_locales (simp_all add: encode_udp_def decode_udp_def packet_laws)

interpretation tcp: packet_codec encode_tcp decode_tcp
  by unfold_locales (simp_all add: encode_tcp_def decode_tcp_def packet_laws)

text \<open>The two transports read each other's packets: the session and its sequence are shared.\<close>

lemma transports_agree: "encode_tcp = encode_udp" "decode_tcp = decode_udp"
  by (simp_all add: fun_eq_iff encode_tcp_def encode_udp_def decode_tcp_def decode_udp_def)

end
