(* ===== verification/Framing.thy ===== *)
theory Framing
  imports Protocol
begin

text \<open>
  Length-prefixed frames on a TCP byte stream. Both programs write a frame as two big-endian
  length bytes and the packet, and read frames in a loop of two \<open>read_exact\<close> calls. A stream is
  the bytes that arrive before it ends and the error that its end raises; a reader of the
  stream sees nothing else, so how the network cuts the bytes into segments does not matter.
\<close>

section \<open>Writing frames\<close>

definition MAX_TCP_FRAME_SIZE :: nat where
  "MAX_TCP_FRAME_SIZE = 65535"

text \<open>\<open>(data.len() as u16)\<close> keeps the low sixteen bits of the length.\<close>

definition tcp_frame :: "bytes \<Rightarrow> bytes" where
  "tcp_frame data = u16_to_be_bytes (of_nat (length data)) @ data"

section \<open>Reading from a stream\<close>

datatype io_error = UnexpectedEof | InvalidInput | OtherError

record tcp_stream =
  arriving :: bytes
  ends_with :: io_error

definition read_exact :: "nat \<Rightarrow> tcp_stream \<Rightarrow> io_error + bytes \<times> tcp_stream" where
  "read_exact n st =
     (if n \<le> length (arriving st)
      then Inr (take n (arriving st), st\<lparr>arriving := drop n (arriving st)\<rparr>)
      else Inl (ends_with st))"

lemma read_exact_Inr:
  "read_exact n st = Inr (data, st') \<longleftrightarrow>
     length data = n \<and> arriving st = data @ arriving st' \<and> ends_with st' = ends_with st"
  unfolding read_exact_def by (cases st; cases st') (auto simp: append_eq_conv_conj)

lemma read_exact_shorter:
  "read_exact n st = Inr (data, st') \<Longrightarrow> length (arriving st') + n = length (arriving st)"
  by (auto simp: read_exact_Inr)

text \<open>The bytes of the length prefix, as the readers turn them into a \<open>usize\<close>.\<close>

definition frame_length :: "bytes \<Rightarrow> nat" where
  "frame_length len_buf = unat (from_be_bytes len_buf :: u16)"

lemma frame_length_bound: "frame_length len_buf \<le> MAX_TCP_FRAME_SIZE"
proof -
  have "unat (from_be_bytes len_buf :: u16) < 2 ^ LENGTH(16)"
    by (rule unsigned_less)
  then show ?thesis
    by (simp add: frame_length_def MAX_TCP_FRAME_SIZE_def)
qed

section \<open>What one pass of a reading loop yields\<close>

text \<open>
  One iteration of the loops in \<open>handle_tcp_conn\<close> and \<open>handle_tcp_server_response\<close>: the
  length prefix, the two length checks, the data. The loop leaves with the reason on the left.
\<close>

datatype loop_exit = LengthFailed io_error | BadLength nat | DataFailed io_error

definition read_frame :: "tcp_stream \<Rightarrow> loop_exit + bytes \<times> tcp_stream" where
  "read_frame st =
     (case read_exact 2 st of
        Inl e \<Rightarrow> Inl (LengthFailed e)
      | Inr (len_buf, st1) \<Rightarrow>
          let n = frame_length len_buf in
          if n = 0 \<or> n > MAX_TCP_FRAME_SIZE then Inl (BadLength n)
          else (case read_exact n st1 of
                  Inl e \<Rightarrow> Inl (DataFailed e)
                | Inr (data, st2) \<Rightarrow> Inr (data, st2)))"

lemma read_frame_shorter:
  assumes "read_frame st = Inr (data, st')"
  shows "length (arriving st') < length (arriving st)"
  using assms
  by (auto simp: read_frame_def Let_def dest!: read_exact_shorter
      split: sum.splits prod.splits if_splits)

text \<open>All frames of a stream, in order, and the reason the loop stops.\<close>

function read_frames :: "tcp_stream \<Rightarrow> bytes list \<times> loop_exit" where
  "read_frames st =
     (case read_frame st of
        Inl x \<Rightarrow> ([], x)
      | Inr (data, st') \<Rightarrow> (let (ds, x) = read_frames st' in (data # ds, x)))"
  by pat_completeness auto
termination
  by (relation "measure (\<lambda>st. length (arriving st))") (auto dest: read_frame_shorter)

declare read_frames.simps [simp del]

definition stream_of :: "bytes \<Rightarrow> io_error \<Rightarrow> tcp_stream" where
  "stream_of bs e = \<lparr>arriving = bs, ends_with = e\<rparr>"

lemma stream_of_simps [simp]:
  "arriving (stream_of bs e) = bs"
  "ends_with (stream_of bs e) = e"
  "stream_of bs e\<lparr>arriving := bs'\<rparr> = stream_of bs' e"
  by (simp_all add: stream_of_def)

section \<open>Frames survive the stream\<close>

definition frameable :: "bytes \<Rightarrow> bool" where
  "frameable data \<longleftrightarrow> data \<noteq> [] \<and> length data \<le> MAX_TCP_FRAME_SIZE"

lemma frame_length_prefix:
  assumes "length data \<le> MAX_TCP_FRAME_SIZE"
  shows "frame_length (u16_to_be_bytes (of_nat (length data))) = length data"
  using assms by (simp add: frame_length_def MAX_TCP_FRAME_SIZE_def unat_of_nat)

lemma read_frame_tcp_frame:
  assumes "frameable data"
  shows "read_frame (stream_of (tcp_frame data @ rest) e) = Inr (data, stream_of rest e)"
  using assms
  by (simp add: read_frame_def read_exact_def tcp_frame_def frameable_def frame_length_prefix)

lemma read_frames_tcp_frames:
  assumes "\<forall>d \<in> set ds. frameable d"
  shows "read_frames (stream_of (concat (map tcp_frame ds) @ rest) e)
           = (ds @ fst (read_frames (stream_of rest e)), snd (read_frames (stream_of rest e)))"
  using assms
proof (induction ds)
  case Nil
  then show ?case by simp
next
  case (Cons d ds)
  then show ?case
    by (subst read_frames.simps) (simp add: read_frame_tcp_frame)
qed

lemma read_frames_short:
  "length bs < 2 \<Longrightarrow> read_frames (stream_of bs e) = ([], LengthFailed e)"
  by (subst read_frames.simps) (simp add: read_frame_def read_exact_def)

text \<open>A frame cut off by the end of the stream yields nothing.\<close>

lemma read_frame_truncated:
  assumes "frameable data" and "k < length (tcp_frame data)"
  shows "\<exists>x. read_frame (stream_of (take k (tcp_frame data)) e) = Inl x
           \<and> (x = LengthFailed e \<or> x = DataFailed e)"
proof (cases "k < 2")
  case True
  then show ?thesis by (simp add: read_frame_def read_exact_def)
next
  case False
  then have "take k (tcp_frame data)
      = u16_to_be_bytes (of_nat (length data)) @ take (k - 2) data"
    by (simp add: tcp_frame_def)
  with False assms show ?thesis
    by (simp add: read_frame_def read_exact_def frameable_def frame_length_prefix tcp_frame_def
        Let_def)
qed

lemma read_frames_truncated:
  assumes "frameable data" and "k < length (tcp_frame data)"
  shows "fst (read_frames (stream_of (take k (tcp_frame data)) e)) = []"
  using read_frame_truncated [OF assms, of e] by (subst read_frames.simps) auto

text \<open>Every frame the loop hands on has between one and 65535 bytes.\<close>

lemma read_frame_frameable:
  "read_frame st = Inr (data, st') \<Longrightarrow> frameable data"
  by (auto simp: read_frame_def read_exact_Inr Let_def frameable_def
      split: sum.splits prod.splits if_splits)

lemma read_frames_frameable: "d \<in> set (fst (read_frames st)) \<Longrightarrow> frameable d"
proof (induction st rule: read_frames.induct)
  case (1 st)
  show ?case
  proof (cases "read_frame st")
    case (Inl x)
    with "1.prems" show ?thesis by (simp add: read_frames.simps [of st])
  next
    case (Inr r)
    obtain data st' where r: "r = (data, st')" by (cases r)
    with Inr "1.prems" have "d = data \<or> d \<in> set (fst (read_frames st'))"
      by (simp add: read_frames.simps [of st] case_prod_beta)
    moreover have "d \<in> set (fst (read_frames st')) \<Longrightarrow> frameable d"
      by (rule "1.IH" [OF Inr]) (simp_all add: r)
    moreover have "frameable data"
      using Inr r by (simp add: read_frame_frameable)
    ultimately show ?thesis by blast
  qed
qed

text \<open>
  Outside that range the prefix no longer tells the length: a frame of 65536 bytes announces
  zero of them.
\<close>

lemma frame_length_truncates:
  "frame_length (u16_to_be_bytes (of_nat (length data))) = length data mod 65536"
  by (simp add: frame_length_def unat_of_nat)

section \<open>Packets in datagrams and in frames\<close>

text \<open>What the receiver of a datagram, or of a stream that holds one frame, decodes.\<close>

definition datagram_packet :: "bytes \<Rightarrow> packet option" where
  "datagram_packet bs = (case decode_udp bs of Inr p \<Rightarrow> Some p | Inl _ \<Rightarrow> None)"

definition frame_packet :: "bytes \<Rightarrow> packet option" where
  "frame_packet bs =
     (case read_frames (stream_of bs UnexpectedEof) of
        ([d], LengthFailed _) \<Rightarrow> (case decode_tcp d of Inr p \<Rightarrow> Some p | Inl _ \<Rightarrow> None)
      | _ \<Rightarrow> None)"

lemma datagram_packet_encode [simp]:
  "datagram_packet (encode_udp sid sq pl) = Some (sid, sq, pl)"
  by (simp add: datagram_packet_def udp.dec_enc)

lemma frameable_packet:
  "length (encode_tcp sid sq pl) \<le> MAX_TCP_FRAME_SIZE \<Longrightarrow> frameable (encode_tcp sid sq pl)"
  using tcp.enc_length [of sid sq pl]
  by (auto simp: frameable_def HEADER_SIZE_def simp flip: length_0_conv)

lemma frame_packet_frame:
  assumes "length (encode_tcp sid sq pl) \<le> MAX_TCP_FRAME_SIZE"
  shows "frame_packet (tcp_frame (encode_tcp sid sq pl)) = Some (sid, sq, pl)"
proof -
  have "read_frames (stream_of (tcp_frame (encode_tcp sid sq pl)) UnexpectedEof)
      = ([encode_tcp sid sq pl], LengthFailed UnexpectedEof)"
    using read_frames_tcp_frames [of "[encode_tcp sid sq pl]" "[]" UnexpectedEof]
      frameable_packet [OF assms]
    by (simp add: read_frames_short)
  then show ?thesis by (simp add: frame_packet_def tcp.dec_enc)
qed

lemma payload_fits: "length pl \<le> 65523 \<longleftrightarrow> length (encode_tcp sid sq pl) \<le> MAX_TCP_FRAME_SIZE"
  by (simp add: tcp.enc_length HEADER_SIZE_def MAX_TCP_FRAME_SIZE_def)

end
