(* ===== verification/Socket_Addr.thy ===== *)
theory Socket_Addr
  imports Ip_Addr
begin

text \<open>
  \<open>SocketAddr\<close> of Rust's standard library and its \<open>Display\<close>, from which the client builds the
  keys of its TCP sessions.
\<close>

section \<open>Printing\<close>

datatype socket_addr =
    SocketV4 u8 u8 u8 u8 (v4_port: u16)
  | SocketV6 u16 u16 u16 u16 u16 u16 u16 u16 (v6_port: u16) (flowinfo: u32) (scope_id: u32)

definition digit_char :: "nat \<Rightarrow> char" where
  "digit_char d = (if d < 10 then char_of (48 + d) else char_of (87 + d))"

text \<open>A number in a radix from 2 to 16, most significant digit first.\<close>

fun show_radix :: "nat \<Rightarrow> nat \<Rightarrow> string" where
  "show_radix r n =
     (if n < r \<or> r < 2 then [digit_char n] else show_radix r (n div r) @ [digit_char (n mod r)])"

declare show_radix.simps [simp del]

definition show_dec :: "'a::len word \<Rightarrow> string" where
  "show_dec w = show_radix 10 (unat w)"

definition show_hex :: "'a::len word \<Rightarrow> string" where
  "show_hex w = show_radix 16 (unat w)"

definition show_ipv4 :: "u8 \<Rightarrow> u8 \<Rightarrow> u8 \<Rightarrow> u8 \<Rightarrow> string" where
  "show_ipv4 a b c d =
     show_dec a @ ''.'' @ show_dec b @ ''.'' @ show_dec c @ ''.'' @ show_dec d"

text \<open>\<open>fmt_subslice\<close>: groups in hexadecimal, separated by colons.\<close>

fun fmt_subslice :: "u16 list \<Rightarrow> string" where
  "fmt_subslice [] = []"
| "fmt_subslice [g] = show_hex g"
| "fmt_subslice (g # gs) = show_hex g @ '':'' @ fmt_subslice gs"

text \<open>
  The longest run of zero groups, the first of that length: the fold of the \<open>for\<close> loop over
  the segments, with the longest and the current span as start and length.
\<close>

definition span_step :: "(nat \<times> nat) \<times> (nat \<times> nat) \<Rightarrow> nat \<times> u16 \<Rightarrow> (nat \<times> nat) \<times> (nat \<times> nat)" where
  "span_step = (\<lambda>(longest, current) (i, segment).
     if segment = 0 then
       let current' = (if snd current = 0 then i else fst current, snd current + 1) in
       (if snd current' > snd longest then current' else longest, current')
     else (longest, (0, 0)))"

definition zero_span :: "u16 list \<Rightarrow> nat \<times> nat" where
  "zero_span segments = fst (foldl span_step ((0, 0), (0, 0)) (List.enumerate 0 segments))"

definition show_ipv6 :: "u16 list \<Rightarrow> string" where
  "show_ipv6 segments =
     (if take 6 segments = [0, 0, 0, 0, 0, 0xFFFF] then
        (let g = segments ! 6; h = segments ! 7 in
         ''::ffff:'' @ show_ipv4 (ucast (drop_bit 8 g)) (ucast g) (ucast (drop_bit 8 h)) (ucast h))
      else
        let (start, len) = zero_span segments in
        if len > 1 then
          fmt_subslice (take start segments) @ ''::'' @ fmt_subslice (drop (start + len) segments)
        else fmt_subslice segments)"

definition show_socket_addr :: "socket_addr \<Rightarrow> string" where
  "show_socket_addr addr =
     (case addr of
        SocketV4 a b c d port \<Rightarrow> show_ipv4 a b c d @ '':'' @ show_dec port
      | SocketV6 a b c d e f g h port flow scope \<Rightarrow>
          (if scope = 0 then ''['' @ show_ipv6 [a, b, c, d, e, f, g, h] @ '']:'' @ show_dec port
           else ''['' @ show_ipv6 [a, b, c, d, e, f, g, h] @ ''%'' @ show_dec scope @ '']:''
             @ show_dec port))"

section \<open>What printing keeps apart\<close>

lemma of_char_digit_char: "d < 16 \<Longrightarrow> (of_char (digit_char d) :: nat) = (if d < 10 then 48 + d else 87 + d)"
  by (simp add: digit_char_def)

lemma to_digit_digit_char: "d < 10 \<Longrightarrow> to_digit 10 (digit_char d) = Some d"
  by (simp add: to_digit_def of_char_digit_char)

lemma show_radix_chars:
  "2 \<le> r \<Longrightarrow> r \<le> 16 \<Longrightarrow> c \<in> set (show_radix r n) \<Longrightarrow> \<exists>d < r. c = digit_char d"
proof (induction r n rule: show_radix.induct)
  case (1 r n)
  have "n mod r < r" using "1.prems"(1) by simp
  then have "\<exists>d < r. digit_char (n mod r) = digit_char d" by blast
  with 1 show ?case
    by (auto simp: show_radix.simps [of r n] split: if_splits)
qed

lemma decimal_value_snoc:
  "decimal_value acc (s @ [c]) =
     Option.bind (decimal_value acc s) (\<lambda>n. map_option (\<lambda>d. 10 * n + d) (to_digit 10 c))"
  by (induction s arbitrary: acc) (auto split: option.splits)

lemma decimal_value_show: "decimal_value 0 (show_radix 10 n) = Some n"
proof (induction "10 :: nat" n rule: show_radix.induct)
  case (1 n)
  show ?case
  proof (cases "n < 10")
    case True
    then show ?thesis by (simp add: show_radix.simps [of 10 n] to_digit_digit_char)
  next
    case False
    with 1 show ?thesis
      by (simp add: show_radix.simps [of 10 n] decimal_value_snoc to_digit_digit_char)
  qed
qed

lemma show_dec_inject [simp]: "show_dec v = show_dec w \<longleftrightarrow> v = w"
  unfolding show_dec_def by (metis decimal_value_show option.inject word_unat_eq_iff)

lemma show_dec_digits: "c \<in> set (show_dec w) \<Longrightarrow> \<exists>d < 10. c = digit_char d"
  unfolding show_dec_def using show_radix_chars [of 10 c] by simp

lemma show_hex_digits: "c \<in> set (show_hex w) \<Longrightarrow> \<exists>d < 16. c = digit_char d"
  unfolding show_hex_def using show_radix_chars [of 16 c] by simp

lemma not_in_show_dec:
  assumes "(of_char c :: nat) < 48 \<or> 57 < (of_char c :: nat)"
  shows "c \<notin> set (show_dec w)"
  using assms show_dec_digits [of c w] of_char_digit_char by fastforce

lemma separators_not_digits [simp]:
  "CHR ''.'' \<notin> set (show_dec w)" "CHR '':'' \<notin> set (show_dec w)" "CHR ''-'' \<notin> set (show_dec w)"
  by (simp_all add: not_in_show_dec)

lemma dash_not_hex [simp]: "CHR ''-'' \<notin> set (show_hex w)"
  using show_hex_digits [of "CHR ''-''" w] of_char_digit_char by (auto dest!: arg_cong [of _ _ "of_char :: char \<Rightarrow> nat"] split: if_splits)

lemma split_pair_inject:
  assumes "c \<notin> set p" and "c \<notin> set p'" and "p @ c # s = p' @ c # s'"
  shows "p = p' \<and> s = s'"
  using assms
proof (induction p arbitrary: p')
  case Nil
  then show ?case by (cases p') auto
next
  case (Cons x p)
  then show ?case by (cases p') auto
qed

lemma show_ipv4_inject: "show_ipv4 a b c d = show_ipv4 a' b' c' d' \<longleftrightarrow>
    a = a' \<and> b = b' \<and> c = c' \<and> d = d'"
  unfolding show_ipv4_def by (auto dest!: split_pair_inject [rotated 2])

lemma show_ipv4_no_colon [simp]: "CHR '':'' \<notin> set (show_ipv4 a b c d)"
  "CHR ''-'' \<notin> set (show_ipv4 a b c d)"
  by (simp_all add: show_ipv4_def)

lemma fmt_subslice_no_dash [simp]: "CHR ''-'' \<notin> set (fmt_subslice gs)"
  by (induction gs rule: fmt_subslice.induct) simp_all

lemma show_ipv6_no_dash [simp]: "CHR ''-'' \<notin> set (show_ipv6 gs)"
  by (simp add: show_ipv6_def Let_def case_prod_beta)

lemma show_socket_addr_no_dash: "CHR ''-'' \<notin> set (show_socket_addr addr)"
  by (cases addr) (simp_all add: show_socket_addr_def)

section \<open>Numbers in hexadecimal\<close>

lemma digit_char_inject:
  assumes "i < 16" and "j < 16"
  shows "digit_char i = digit_char j \<longleftrightarrow> i = j"
proof
  assume "digit_char i = digit_char j"
  then have "(of_char (digit_char i) :: nat) = of_char (digit_char j)" by simp
  with assms show "i = j" by (simp add: of_char_digit_char split: if_splits)
qed simp

lemma show_radix_not_Nil [simp]: "show_radix r n \<noteq> []" "[] \<noteq> show_radix r n"
  by (subst show_radix.simps, simp)+

lemma show_radix_inject:
  assumes "2 \<le> r" and "r \<le> 16"
  shows "show_radix r n = show_radix r m \<longleftrightarrow> n = m"
proof
  assume "show_radix r n = show_radix r m"
  then show "n = m"
  proof (induction n arbitrary: m rule: less_induct)
    case (less n)
    have digit: "k mod r < 16" for k
      by (rule less_le_trans [OF mod_less_divisor]) (use assms in auto)
    show ?case
    proof (cases "n < r \<or> m < r")
      case True
      with less.prems assms digit_char_inject [of n m] show ?thesis
        by (auto simp: show_radix.simps [of r n] show_radix.simps [of r m] split: if_splits)
    next
      case False
      with less.prems assms have "show_radix r (n div r) = show_radix r (m div r)"
          "digit_char (n mod r) = digit_char (m mod r)"
        by (simp_all add: show_radix.simps [of r n] show_radix.simps [of r m])
      moreover have "n div r < n" using False assms by simp
      ultimately have "n div r = m div r" "n mod r = m mod r"
        using less.IH digit_char_inject [OF digit digit] by blast+
      then show ?thesis by (metis div_mult_mod_eq)
    qed
  qed
qed simp

lemma show_hex_inject [simp]: "show_hex v = show_hex w \<longleftrightarrow> v = w"
  using word_unat_eq_iff [of v w] by (simp add: show_hex_def show_radix_inject)

lemma show_hex_not_Nil [simp]: "show_hex w \<noteq> []" "[] \<noteq> show_hex w"
  by (simp_all add: show_hex_def)

lemma not_in_show_hex:
  assumes "(of_char c :: nat) < 48 \<or> (57 < (of_char c :: nat) \<and> (of_char c :: nat) < 97) \<or> 102 < (of_char c :: nat)"
  shows "c \<notin> set (show_hex w)"
proof
  assume "c \<in> set (show_hex w)"
  then obtain d where "d < 16" "c = digit_char d" using show_hex_digits by blast
  with assms show False by (auto simp: of_char_digit_char split: if_splits)
qed

lemma separators_not_hex [simp]:
  "CHR '':'' \<notin> set (show_hex w)" "CHR ''.'' \<notin> set (show_hex w)" "CHR ''%'' \<notin> set (show_hex w)"
  "CHR '']'' \<notin> set (show_hex w)"
  by (simp_all add: not_in_show_hex)

section \<open>IPv6 addresses\<close>

text \<open>The parts between the colons: a group each, and an empty one on each side of a double colon.\<close>

lemma split_on_show_hex: "split_on CHR '':'' (show_hex g) = [show_hex g]"
  by (rule split_on_absent) simp

lemma split_on_fmt_subslice:
  "split_on CHR '':'' (fmt_subslice gs) = (if gs = [] then [[]] else map show_hex gs)"
  by (induction gs rule: fmt_subslice.induct) (simp_all add: split_on_append split_on_show_hex)

lemma split_on_fmt_append:
  "split_on CHR '':'' (fmt_subslice gs @ CHR '':'' # s)
     = (if gs = [] then [[]] else map show_hex gs) @ split_on CHR '':'' s"
  by (induction gs rule: fmt_subslice.induct) (simp_all add: split_on_append)

lemma map_show_hex_inject [simp]: "map show_hex gs = map show_hex hs \<longleftrightarrow> gs = hs"
  by (rule inj_map_eq_map) (simp add: inj_def)

lemma fmt_subslice_inject: "fmt_subslice gs = fmt_subslice hs \<longleftrightarrow> gs = hs"
proof
  assume "fmt_subslice gs = fmt_subslice hs"
  then have "split_on CHR '':'' (fmt_subslice gs) = split_on CHR '':'' (fmt_subslice hs)" by simp
  then show "gs = hs"
    unfolding split_on_fmt_subslice by (cases gs; cases hs) (auto split: if_splits)
qed simp

definition compressed :: "u16 list \<Rightarrow> u16 list \<Rightarrow> string" where
  "compressed gs hs = fmt_subslice gs @ ''::'' @ fmt_subslice hs"

lemma compressed_parts:
  "split_on CHR '':'' (compressed gs hs) =
     (if gs = [] then [[]] else map show_hex gs) @ [] # (if hs = [] then [[]] else map show_hex hs)"
  by (simp add: compressed_def split_on_fmt_append split_on_fmt_subslice)

lemma compressed_inject: "compressed gs hs = compressed gs' hs' \<longleftrightarrow> gs = gs' \<and> hs = hs'"
proof
  assume "compressed gs hs = compressed gs' hs'"
  then have eq: "split_on CHR '':'' (compressed gs hs) = split_on CHR '':'' (compressed gs' hs')" by simp
  have before: "takeWhile (\<lambda>p. p \<noteq> []) (split_on CHR '':'' (compressed xs ys)) = map show_hex xs" for xs ys
    by (auto simp: compressed_parts takeWhile_append)
  have all: "filter (\<lambda>p. p \<noteq> []) (split_on CHR '':'' (compressed xs ys)) = map show_hex (xs @ ys)" for xs ys
    by (simp add: compressed_parts filter_empty_conv filter_id_conv)
  have "map show_hex gs = map show_hex gs'" "map show_hex (gs @ hs) = map show_hex (gs' @ hs')"
    using before [of gs hs] before [of gs' hs'] all [of gs hs] all [of gs' hs'] eq by simp_all
  then show "gs = gs' \<and> hs = hs'" unfolding map_show_hex_inject by simp
qed simp

lemma compressed_not_plain: "gs \<noteq> [] \<Longrightarrow> compressed xs ys \<noteq> fmt_subslice gs"
proof
  assume "gs \<noteq> []" and "compressed xs ys = fmt_subslice gs"
  then have "split_on CHR '':'' (compressed xs ys) = map show_hex gs"
    by (simp add: split_on_fmt_subslice)
  moreover have "[] \<in> set (split_on CHR '':'' (compressed xs ys))" by (simp add: compressed_parts)
  ultimately show False by auto
qed

text \<open>The span of zeros is inside the groups and all its groups are zero.\<close>

definition zeros :: "u16 list \<Rightarrow> nat \<times> nat \<Rightarrow> bool" where
  "zeros gs span \<longleftrightarrow> fst span + snd span \<le> length gs \<and> (\<forall>i < snd span. gs ! (fst span + i) = 0)"

lemma zeros_zero_span: "zeros segments (zero_span segments)"
proof -
  let ?state = "\<lambda>n. foldl span_step ((0, 0), (0, 0)) (List.enumerate 0 (take n segments))"
  have "n \<le> length segments \<Longrightarrow> zeros segments (fst (?state n)) \<and> zeros segments (snd (?state n)) \<and>
      (snd (snd (?state n)) = 0 \<or> fst (snd (?state n)) + snd (snd (?state n)) = n)" for n
  proof (induction n)
    case 0
    show ?case by (simp add: zeros_def)
  next
    case (Suc n)
    then have state: "?state (Suc n) = span_step (?state n) (n, segments ! n)"
      by (simp add: take_Suc_conv_app_nth enumerate_append_eq)
    obtain longest s l where n: "?state n = (longest, (s, l))" by (metis prod.exhaust)
    have "zeros segments (s, l) \<Longrightarrow> s + l = n \<Longrightarrow> segments ! n = 0 \<Longrightarrow> zeros segments (s, Suc l)"
      using Suc.prems by (auto simp: zeros_def less_Suc_eq)
    moreover have "segments ! n = 0 \<Longrightarrow> zeros segments (n, Suc 0)"
      using Suc.prems by (simp add: zeros_def)
    ultimately show ?case
      using Suc unfolding state n by (auto simp: span_step_def Let_def zeros_def)
  qed
  from this [of "length segments"] show ?thesis by (simp add: zero_span_def)
qed

lemma zeros_split:
  assumes "zeros gs (start, len)"
  shows "gs = take start gs @ replicate len 0 @ drop (start + len) gs"
proof -
  have "take len (drop start gs) = replicate len 0"
    using assms by (intro nth_equalityI) (auto simp: zeros_def)
  then show ?thesis by (metis append_take_drop_id drop_drop add.commute)
qed

text \<open>Eight groups print as no other eight do.\<close>

definition mapped :: "u16 list \<Rightarrow> bool" where
  "mapped gs \<longleftrightarrow> take 6 gs = [0, 0, 0, 0, 0, 0xFFFF]"

lemma show_ipv6_cases:
  assumes "length gs = 8"
  obtains (mapped) g h where "gs = [0, 0, 0, 0, 0, 0xFFFF, g, h]"
      "show_ipv6 gs = ''::ffff:'' @ show_ipv4 (ucast (drop_bit 8 g)) (ucast g) (ucast (drop_bit 8 h)) (ucast h)"
    | (compressed) xs ys len where "gs = xs @ replicate len 0 @ ys" "show_ipv6 gs = compressed xs ys"
        "\<not> mapped gs"
    | (plain) "show_ipv6 gs = fmt_subslice gs" "\<not> mapped gs"
proof (cases "mapped gs")
  case True
  with assms obtain g h where "gs = [0, 0, 0, 0, 0, 0xFFFF, g, h]"
    by (auto simp: mapped_def numeral_eq_Suc length_Suc_conv)
  with that(1) show ?thesis by (simp add: show_ipv6_def)
next
  case False
  obtain start len where span: "zero_span gs = (start, len)" by (cases "zero_span gs")
  then have "gs = take start gs @ replicate len 0 @ drop (start + len) gs"
    using zeros_zero_span [of gs] by (intro zeros_split) simp
  moreover have "show_ipv6 gs = (if len > 1 then compressed (take start gs) (drop (start + len) gs)
      else fmt_subslice gs)"
    using False span by (simp add: show_ipv6_def mapped_def compressed_def)
  ultimately show ?thesis using that(2,3) False by (cases "len > 1") simp_all
qed

lemma dot_in_show_ipv4 [simp]: "CHR ''.'' \<in> set (show_ipv4 a b c d)"
  by (simp add: show_ipv4_def)

lemma dot_not_in_groups [simp]: "CHR ''.'' \<notin> set (fmt_subslice gs)"
  by (induction gs rule: fmt_subslice.induct) simp_all

lemma bytes_of_group:
  fixes g h :: u16
  assumes "(ucast (drop_bit 8 g) :: u8) = ucast (drop_bit 8 h)" and "(ucast g :: u8) = ucast h"
  shows "g = h"
proof (rule bit_word_eqI)
  fix n assume n: "n < LENGTH(16)"
  show "bit g n \<longleftrightarrow> bit h n"
  proof (cases "n < 8")
    case True
    with arg_cong [OF assms(2), of "\<lambda>w. bit w n"] show ?thesis by (simp add: bit_ucast_iff)
  next
    case False
    then show ?thesis
      using n arg_cong [OF assms(1), of "\<lambda>w. bit w (n - 8)"]
      by (simp add: bit_ucast_iff bit_drop_bit_eq less_diff_conv2)
  qed
qed

lemma show_ipv6_inject:
  assumes gs: "length gs = 8" and hs: "length hs = 8"
  shows "show_ipv6 gs = show_ipv6 hs \<longleftrightarrow> gs = hs"
proof
  assume eq: "show_ipv6 gs = show_ipv6 hs"
  have no_dot: "CHR ''.'' \<notin> set (compressed xs ys)" for xs ys by (simp add: compressed_def)
  have nonempty: "gs \<noteq> []" "hs \<noteq> []" using assms by auto
  from gs show "gs = hs"
  proof (cases rule: show_ipv6_cases)
    case m: (mapped g h)
    from hs show ?thesis
    proof (cases rule: show_ipv6_cases)
      case (mapped g' h')
      with m eq show ?thesis by (auto simp: show_ipv4_inject intro: bytes_of_group)
    next
      case (compressed xs ys len)
      with m eq no_dot show ?thesis by (metis dot_in_show_ipv4 Un_iff set_append)
    next
      case plain
      with m eq show ?thesis by (metis dot_in_show_ipv4 dot_not_in_groups Un_iff set_append)
    qed
  next
    case c: (compressed xs ys len)
    from hs show ?thesis
    proof (cases rule: show_ipv6_cases)
      case (mapped g' h')
      with c eq no_dot show ?thesis by (metis dot_in_show_ipv4 Un_iff set_append)
    next
      case (compressed xs' ys' len')
      with c eq have "xs = xs'" "ys = ys'" by (simp_all add: compressed_inject)
      with c(1) compressed(1) gs hs show ?thesis by auto
    next
      case plain
      with c eq nonempty show ?thesis by (metis compressed_not_plain)
    qed
  next
    case p: plain
    from hs show ?thesis
    proof (cases rule: show_ipv6_cases)
      case (mapped g' h')
      with p eq show ?thesis by (metis dot_in_show_ipv4 dot_not_in_groups Un_iff set_append)
    next
      case (compressed xs ys len)
      with p eq nonempty show ?thesis by (metis compressed_not_plain)
    next
      case plain
      with p eq show ?thesis by (simp add: fmt_subslice_inject)
    qed
  qed
qed simp

section \<open>Socket addresses\<close>

lemma show_v4_not_bracket: "show_ipv4 a b c d @ s \<noteq> CHR ''['' # t"
proof
  assume "show_ipv4 a b c d @ s = CHR ''['' # t"
  then have "CHR ''['' \<in> set (show_dec a)"
    by (cases "show_dec a") (auto simp: show_ipv4_def show_dec_def)
  then show False by (simp add: not_in_show_dec)
qed

lemma ipv6_no_delimiter [simp]:
  "CHR ''%'' \<notin> set (show_ipv6 gs)" "CHR '']'' \<notin> set (show_ipv6 gs)"
proof -
  have "CHR ''%'' \<notin> set (fmt_subslice xs)" "CHR '']'' \<notin> set (fmt_subslice xs)" for xs
    by (induction xs rule: fmt_subslice.induct) simp_all
  moreover have "CHR ''%'' \<notin> set (show_ipv4 a b c d)" "CHR '']'' \<notin> set (show_ipv4 a b c d)" for a b c d
    by (simp_all add: show_ipv4_def not_in_show_dec)
  ultimately show "CHR ''%'' \<notin> set (show_ipv6 gs)" "CHR '']'' \<notin> set (show_ipv6 gs)"
    by (simp_all add: show_ipv6_def Let_def case_prod_beta)
qed

text \<open>\<open>Display\<close> leaves out the flow information of an IPv6 address, and nothing else.\<close>

definition without_flow :: "socket_addr \<Rightarrow> socket_addr" where
  "without_flow addr =
     (case addr of
        SocketV4 a b c d port \<Rightarrow> addr
      | SocketV6 a b c d e f g h port flow scope \<Rightarrow> SocketV6 a b c d e f g h port 0 scope)"

lemma without_flow_v4 [simp]: "without_flow addr = SocketV4 a b c d port \<longleftrightarrow> addr = SocketV4 a b c d port"
  by (cases addr) (simp_all add: without_flow_def)

lemma show_v6_inject:
  fixes scope scope' :: u32 and port port' :: u16
  assumes gs: "length gs = 8" "length hs = 8"
    and eq: "show_ipv6 gs @ (if scope = 0 then [] else ''%'' @ show_dec scope) @ '']:'' @ show_dec port
      = show_ipv6 hs @ (if scope' = 0 then [] else ''%'' @ show_dec scope') @ '']:'' @ show_dec port'"
  shows "gs = hs \<and> scope = scope' \<and> port = port'"
proof -
  let ?inner = "\<lambda>gs scope. show_ipv6 gs @ (if scope = 0 then [] else ''%'' @ show_dec scope)"
  have closed: "CHR '']'' \<notin> set (?inner gs scope)" for gs and scope :: u32
    by (simp add: not_in_show_dec)
  from eq have "?inner gs scope @ CHR '']'' # CHR '':'' # show_dec port
      = ?inner hs scope' @ CHR '']'' # CHR '':'' # show_dec port'" by simp
  from split_pair_inject [OF closed [of gs scope] closed [of hs scope'] this]
  have inner: "?inner gs scope = ?inner hs scope'" and port: "port = port'" by simp_all
  have percent: "CHR ''%'' \<in> set (?inner gs scope) \<longleftrightarrow> scope \<noteq> 0" for gs and scope :: u32
    by simp
  have "scope = 0 \<longleftrightarrow> scope' = 0"
    using percent [of gs scope] percent [of hs scope'] unfolding inner by blast
  have "show_ipv6 gs = show_ipv6 hs \<and> scope = scope'"
  proof (cases "scope = 0")
    case True
    with \<open>scope = 0 \<longleftrightarrow> scope' = 0\<close> inner show ?thesis by simp
  next
    case False
    with \<open>scope = 0 \<longleftrightarrow> scope' = 0\<close> inner
    have "show_ipv6 gs @ CHR ''%'' # show_dec scope = show_ipv6 hs @ CHR ''%'' # show_dec scope'"
      by simp
    from split_pair_inject [OF ipv6_no_delimiter(1) ipv6_no_delimiter(1) this] show ?thesis by simp
  qed
  with port gs show ?thesis by (simp add: show_ipv6_inject)
qed

lemma show_socket_addr_inject:
  "show_socket_addr addr = show_socket_addr addr' \<longleftrightarrow> without_flow addr = without_flow addr'"
proof -
  have v4: "show_ipv4 a b c d @ CHR '':'' # show_dec port = show_ipv4 a' b' c' d' @ CHR '':'' # show_dec port'
      \<longleftrightarrow> a = a' \<and> b = b' \<and> c = c' \<and> d = d' \<and> port = port'" for a b c d a' b' c' d' and port port' :: u16
    by (auto simp: show_ipv4_inject dest!: split_pair_inject [rotated 2])
  have v6: "show_socket_addr (SocketV6 a b c d e f g h port flow scope) = CHR ''['' #
      (show_ipv6 [a, b, c, d, e, f, g, h] @ (if scope = 0 then [] else ''%'' @ show_dec scope) @ '']:'' @ show_dec port)"
    for a b c d e f g h port flow scope by (simp add: show_socket_addr_def)
  show ?thesis
  proof (cases addr; cases addr')
    fix a b c d e f g h a' b' c' d' e' f' g' h' port port' flow flow' scope scope'
    assume "addr = SocketV6 a b c d e f g h port flow scope" "addr' = SocketV6 a' b' c' d' e' f' g' h' port' flow' scope'"
    moreover note show_v6_inject [of "[a, b, c, d, e, f, g, h]" "[a', b', c', d', e', f', g', h']" scope port scope' port']
    ultimately show ?thesis by (auto simp: v6 without_flow_def)
  qed (auto simp: v4 v6 show_v4_not_bracket show_v4_not_bracket [symmetric] without_flow_def
      show_socket_addr_def [of "SocketV4 _ _ _ _ _"])
qed

end
