(* ===== verification/Sessions.thy ===== *)
theory Sessions
  imports Prelude
begin

text \<open>
  What the session tables of the client and the server have in common: the sweep that removes
  idle sessions, and the way a proxy runs, one event after another. The locale
  \<open>expiring_table\<close> states what a sweep does to a table; the locale \<open>event_system\<close> carries an
  invariant along a run. Client and server interpret both.
\<close>

section \<open>Sockets\<close>

text \<open>
  A socket, and a TCP connection with both halves of its stream, are numbered; the number stands
  for the identity of the \<open>Arc\<close> the program shares.
\<close>

type_synonym socket = nat
type_synonym conn = nat

section \<open>Sweeping idle sessions\<close>

definition expired :: "instant \<Rightarrow> duration \<Rightarrow> instant \<Rightarrow> bool" where
  "expired now timeout last_activity \<longleftrightarrow> duration_since now last_activity > timeout"

text \<open>The loop that collects the entries to remove.\<close>

definition expired_entries ::
    "('v \<Rightarrow> instant) \<Rightarrow> instant \<Rightarrow> duration \<Rightarrow> ('k, 'v) hash_map \<Rightarrow> ('k \<times> 'v) list" where
  "expired_entries last_activity now timeout m =
     filter (\<lambda>(k, v). expired now timeout (last_activity v)) (hm_iter m)"

lemma in_expired_entries [simp]:
  "(k, v) \<in> set (expired_entries la now timeout m) \<longleftrightarrow>
     hm_get m k = Some v \<and> expired now timeout (la v)"
  by (simp add: expired_entries_def)

lemma expired_keys:
  "k \<in> fst ` set (expired_entries la now timeout m) \<longleftrightarrow>
     (\<exists>v. hm_get m k = Some v \<and> expired now timeout (la v))"
proof
  assume "k \<in> fst ` set (expired_entries la now timeout m)"
  then show "\<exists>v. hm_get m k = Some v \<and> expired now timeout (la v)"
    by auto
next
  assume "\<exists>v. hm_get m k = Some v \<and> expired now timeout (la v)"
  then obtain v where "(k, v) \<in> set (expired_entries la now timeout m)"
    by auto
  then show "k \<in> fst ` set (expired_entries la now timeout m)"
    by (rule image_eqI [rotated]) simp
qed

lemma expired_values:
  "x \<in> (\<lambda>e. f (snd e)) ` set (expired_entries la now timeout m) \<longleftrightarrow>
     (\<exists>k v. hm_get m k = Some v \<and> f v = x \<and> expired now timeout (la v))"
proof
  assume "x \<in> (\<lambda>e. f (snd e)) ` set (expired_entries la now timeout m)"
  then obtain k v where "(k, v) \<in> set (expired_entries la now timeout m)" "x = f v"
    by auto
  then show "\<exists>k v. hm_get m k = Some v \<and> f v = x \<and> expired now timeout (la v)"
    by auto
next
  assume "\<exists>k v. hm_get m k = Some v \<and> f v = x \<and> expired now timeout (la v)"
  then obtain k v where "(k, v) \<in> set (expired_entries la now timeout m)" "f v = x"
    by auto
  then show "x \<in> (\<lambda>e. f (snd e)) ` set (expired_entries la now timeout m)"
    by (intro image_eqI [where x = "(k, v)"]) simp_all
qed

definition unless_expired ::
    "('v \<Rightarrow> instant) \<Rightarrow> instant \<Rightarrow> duration \<Rightarrow> 'v option \<Rightarrow> 'v option" where
  "unless_expired la now timeout r =
     (case r of None \<Rightarrow> None | Some v \<Rightarrow> if expired now timeout (la v) then None else Some v)"

lemma unless_expired_Some [simp]:
  "unless_expired la now timeout r = Some v \<longleftrightarrow> r = Some v \<and> \<not> expired now timeout (la v)"
  by (auto simp: unless_expired_def split: option.splits)

lemma unless_expired_None [simp]: "unless_expired la now timeout None = None"
  by (simp add: unless_expired_def)

lemma hm_get_sweep:
  "hm_get (hm_remove_all (map fst (expired_entries la now timeout m)) m) k
     = unless_expired la now timeout (hm_get m k)"
  by (cases "hm_get m k") (auto simp: unless_expired_def expired_keys)

lemma expired_mono: "now \<le> now' \<Longrightarrow> expired now timeout t \<Longrightarrow> expired now' timeout t"
  by (simp add: expired_def duration_since_def)

lemma recent_not_expired: "now \<le> t + timeout \<Longrightarrow> \<not> expired now timeout t"
  by (simp add: expired_def duration_since_def)

locale expiring_table =
  fixes sweep :: "instant \<Rightarrow> 's \<Rightarrow> 's"
    and find :: "'s \<Rightarrow> 'k \<Rightarrow> 'v option"
    and last_activity :: "'v \<Rightarrow> instant"
    and timeout :: "'s \<Rightarrow> duration"
  assumes find_sweep:
      "find (sweep now s) k = unless_expired last_activity now (timeout s) (find s k)"
    and timeout_sweep: "timeout (sweep now s) = timeout s"
begin

lemma active_survives:
  "find s k = Some v \<Longrightarrow> now \<le> last_activity v + timeout s \<Longrightarrow> find (sweep now s) k = Some v"
  by (simp add: find_sweep recent_not_expired)

lemma idle_removed:
  "find s k = Some v \<Longrightarrow> last_activity v + timeout s < now \<Longrightarrow> find (sweep now s) k = None"
  by (simp add: find_sweep unless_expired_def expired_def duration_since_def)

lemma sweep_only_removes: "find (sweep now s) k = Some v \<Longrightarrow> find s k = Some v"
  by (simp add: find_sweep)

lemma sweep_again:
  assumes "now \<le> now'"
  shows "find (sweep now' (sweep now s)) = find (sweep now' s)"
  using expired_mono [OF assms]
  by (auto simp: fun_eq_iff find_sweep timeout_sweep unless_expired_def split: option.splits)

lemma sweep_idem: "find (sweep now (sweep now s)) = find (sweep now s)"
  by (rule sweep_again) simp

lemma sweep_keeps_dom: "dom (find (sweep now s)) \<subseteq> dom (find s)"
  by (auto dest: sweep_only_removes)

end

section \<open>Runs of events\<close>

text \<open>
  \<open>handle e s\<close> is the output and the state of handling one event, \<open>enabled s e\<close> tells that the
  task that handles it is there. A run is a sequence of enabled events; its output is theirs
  in order.
\<close>

inductive run :: "('s \<Rightarrow> 'e \<Rightarrow> bool) \<Rightarrow> ('e \<Rightarrow> 's \<Rightarrow> 'o list \<times> 's) \<Rightarrow> 's \<Rightarrow> 'e list \<Rightarrow> 'o list \<Rightarrow> 's \<Rightarrow> bool"
  for enabled handle where
  run_Nil: "run enabled handle s [] [] s"
| run_snoc: "run enabled handle s es os s1 \<Longrightarrow> enabled s1 e \<Longrightarrow> handle e s1 = (os', s2) \<Longrightarrow>
    run enabled handle s (es @ [e]) (os @ os') s2"

lemma run_Nil_iff [simp]: "run enabled handle s [] os s' \<longleftrightarrow> os = [] \<and> s' = s"
proof
  assume "run enabled handle s [] os s'"
  then show "os = [] \<and> s' = s" by (cases rule: run.cases) simp_all
next
  assume "os = [] \<and> s' = s"
  then show "run enabled handle s [] os s'" by (simp add: run_Nil)
qed

lemma run_single:
  assumes "enabled s e" and "handle e s = (os, s')"
  shows "run enabled handle s [e] os s'"
proof -
  have "run enabled handle s [] [] s" by (rule run_Nil)
  from run_snoc [OF this assms] show ?thesis by simp
qed

lemma run_append:
  assumes "run enabled handle s1 es2 os2 s2" and "run enabled handle s0 es1 os1 s1"
  shows "run enabled handle s0 (es1 @ es2) (os1 @ os2) s2"
  using assms
proof (induction rule: run.induct)
  case (run_Nil s)
  then show ?case by simp
next
  case (run_snoc s es os s1 e os' s2)
  then show ?case
    using run.run_snoc [of enabled handle s0 "es1 @ es" "os1 @ os" s1 e os' s2] by simp
qed

text \<open>Runs from the front, by computing each step.\<close>

lemma run_handle: "enabled s e \<Longrightarrow> run enabled handle s [e] (fst (handle e s)) (snd (handle e s))"
  by (rule run_single) simp_all

lemma run_step:
  assumes "enabled s e" and "run enabled handle (snd (handle e s)) es os s'"
  shows "run enabled handle s (e # es) (fst (handle e s) @ os) s'"
proof -
  have "run enabled handle s [e] (fst (handle e s)) (snd (handle e s))"
    by (rule run_handle) (rule assms(1))
  from run_append [OF assms(2) this] show ?thesis by simp
qed

text \<open>A run, computed: \<open>None\<close> when an event is not enabled.\<close>

fun exec :: "('s \<Rightarrow> 'e \<Rightarrow> bool) \<Rightarrow> ('e \<Rightarrow> 's \<Rightarrow> 'o list \<times> 's) \<Rightarrow> 'e list \<Rightarrow> 's \<Rightarrow> ('o list \<times> 's) option" where
  "exec enabled handle [] s = Some ([], s)"
| "exec enabled handle (e # es) s =
     (if enabled s e
      then (let (os, s1) = handle e s in
            case exec enabled handle es s1 of None \<Rightarrow> None | Some (os', s2) \<Rightarrow> Some (os @ os', s2))
      else None)"

lemma exec_run: "exec enabled handle es s = Some (os, s') \<Longrightarrow> run enabled handle s es os s'"
proof (induction es arbitrary: s os)
  case Nil
  then show ?case by simp
next
  case (Cons e es)
  then obtain os1 s1 os2 where "enabled s e" "handle e s = (os1, s1)"
      "exec enabled handle es s1 = Some (os2, s')" "os = os1 @ os2"
    by (auto split: if_splits prod.splits option.splits)
  then have "run enabled handle s ([e] @ es) (os1 @ os2) s'"
    by (intro run_append [OF Cons.IH run_single])
  with \<open>os = os1 @ os2\<close> show ?case by simp
qed

text \<open>
  An invariant may depend on the number of events so far, as long as that stays below a limit.
\<close>

locale event_system =
  fixes enabled :: "'s \<Rightarrow> 'e \<Rightarrow> bool"
    and handle :: "'e \<Rightarrow> 's \<Rightarrow> 'o list \<times> 's"
    and inv :: "nat \<Rightarrow> 's \<Rightarrow> bool"
    and limit :: nat
  assumes inv_step: "inv n s \<Longrightarrow> n < limit \<Longrightarrow> enabled s e \<Longrightarrow> inv (Suc n) (snd (handle e s))"
begin

lemma inv_along:
  assumes "run enabled handle s es os s'" and "inv n s" and "n + length es \<le> limit"
  shows "inv (n + length es) s'"
  using assms
proof (induction rule: run.induct)
  case (run_Nil s)
  then show ?case by simp
next
  case (run_snoc s es os s1 e os' s2)
  have "inv (n + length es) s1"
    using run_snoc.prems by (intro run_snoc.IH) simp_all
  with run_snoc.hyps(2,3) run_snoc.prems(2) show ?case
    using inv_step [of "n + length es" s1 e] by simp
qed

text \<open>A property of the events so far and the state that every step preserves holds along a run.\<close>

lemma preserved_along:
  assumes "run enabled handle s es os s'" and "inv n s" and "n + length es \<le> limit" and "P [] s"
    and step: "\<And>m es s1 e. inv m s1 \<Longrightarrow> m < limit \<Longrightarrow> enabled s1 e \<Longrightarrow> P es s1 \<Longrightarrow>
      P (es @ [e]) (snd (handle e s1))"
  shows "P es s'"
  using assms(1-4)
proof (induction rule: run.induct)
  case (run_Nil s)
  then show ?case by simp
next
  case (run_snoc s es os s1 e os' s2)
  then have before: "inv (n + length es) s1" and "P es s1"
    using inv_along [OF run_snoc.hyps(1), of n] by simp_all
  then have "P (es @ [e]) (snd (handle e s1))"
    using run_snoc.hyps(2) run_snoc.prems(2) by (intro step [OF before]) simp_all
  with run_snoc.hyps(3) show ?case by simp
qed

end

end
