(* ===== verification/Client.thy ===== *)
theory Client
  imports Client_Dedup Framing Config Socket_Addr Sessions
begin

text \<open>
  The client (\<open>src/fproxy-rs/src/client.rs\<close>): its sessions, what it does with a packet from a
  source, with a response from a server and on a tick of the cleanup timer, as functions from
  the state to the bytes sent and the next state. A handler runs at one instant \<open>now\<close>; the random
  number a new session draws, the outcomes of \<open>bind\<close> and \<open>connect\<close> and the bytes received are
  arguments. The result of a send changes nothing but the log, so sends are outputs. Sockets
  and TCP connections are numbered; a connection stands for both halves of its split stream.
\<close>

section \<open>State\<close>

record udp_session =
  us_session_id :: u64
  us_seq :: u32
  us_last_activity :: instant
  us_response_dedup :: response_dedup_window

text \<open>The cancel token of a session is known by its connection, see \<open>c_cancelled_conns\<close>.\<close>

record tcp_session =
  ts_writer :: conn
  ts_last_activity :: instant

datatype client_task = UdpServerResponse socket | Listener socket | SessionCleanup

text \<open>A running \<open>handle_tcp_server_response\<close>: its source and session key.\<close>

record tcp_reader =
  tr_source :: socket_addr
  tr_key :: string

record client =
  c_cfg :: client_config
  c_cancelled :: bool
  c_listener :: "socket option"
  c_listen_addr :: "socket_addr option"
  c_session_id_counter :: u64
  c_udp_sessions :: "(socket_addr, udp_session) hash_map"
  c_udp_session_addrs :: "(u64, socket_addr) hash_map"
  c_tcp_sessions :: "(string, tcp_session) hash_map"
  c_udp_senders :: "socket list"
  c_tasks :: "client_task list"
  c_readers :: "(conn, tcp_reader) hash_map"
  c_cancelled_conns :: "conn set"
  c_next_conn :: conn

datatype client_output =
    UdpSend socket bytes
  | TcpWrite conn bytes
  | SendTo socket bytes socket_addr

definition client_new :: "u64 \<Rightarrow> client_config \<Rightarrow> client" where
  "client_new random cfg =
     \<lparr>c_cfg = cfg, c_cancelled = False, c_listener = None, c_listen_addr = None,
      c_session_id_counter = random, c_udp_sessions = hm_new, c_udp_session_addrs = hm_new,
      c_tcp_sessions = hm_new, c_udp_senders = [], c_tasks = [], c_readers = hm_new,
      c_cancelled_conns = {}, c_next_conn = 0\<rparr>"

section \<open>Starting and stopping\<close>

text \<open>What the operating system answers, for the sender of each endpoint and for the listener.\<close>

record client_sockets =
  bind_sender :: "nat \<Rightarrow> io_error + socket"
  connect_sender :: "nat \<Rightarrow> io_error + unit"
  bind_listener :: "io_error + socket"
  local_addr :: "io_error + socket_addr"

text \<open>The loop over the configured servers; on an error the senders made so far stay.\<close>

fun open_senders ::
    "client_sockets \<Rightarrow> nat \<Rightarrow> endpoint list \<Rightarrow> client \<Rightarrow> (io_error + unit) \<times> client" where
  "open_senders os i [] c = (Inr (), c)"
| "open_senders os i (ep # eps) c =
     (if ep_protocol ep = Udp then
        (case bind_sender os i of
           Inl e \<Rightarrow> (Inl e, c)
         | Inr sock \<Rightarrow>
             (case connect_sender os i of
                Inl e \<Rightarrow> (Inl e, c)
              | Inr _ \<Rightarrow>
                  open_senders os (Suc i) eps
                    (c\<lparr>c_tasks := c_tasks c @ [UdpServerResponse sock],
                       c_udp_senders := c_udp_senders c @ [sock]\<rparr>)))
      else open_senders os (Suc i) eps c)"

definition client_start :: "client_sockets \<Rightarrow> client \<Rightarrow> (io_error + socket_addr) \<times> client" where
  "client_start os c =
     (case open_senders os 0 (cc_servers (c_cfg c)) c of
        (Inl e, c1) \<Rightarrow> (Inl e, c1)
      | (Inr _, c1) \<Rightarrow>
          (case bind_listener os of
             Inl e \<Rightarrow> (Inl e, c1)
           | Inr sock \<Rightarrow>
               (case local_addr os of
                  Inl e \<Rightarrow> (Inl e, c1)
                | Inr addr \<Rightarrow>
                    (Inr addr, c1\<lparr>c_listener := Some sock, c_listen_addr := Some addr,
                                  c_tasks := c_tasks c1 @ [Listener sock, SessionCleanup]\<rparr>))))"

definition client_stop :: "client \<Rightarrow> client" where
  "client_stop c = c\<lparr>c_cancelled := True\<rparr>"

definition client_listen_addr :: "client \<Rightarrow> socket_addr option" where
  "client_listen_addr c = c_listen_addr c"

section \<open>Packets from sources\<close>

definition get_or_create_udp_session ::
    "instant \<Rightarrow> u32 \<Rightarrow> client \<Rightarrow> socket_addr \<Rightarrow> udp_session \<times> client" where
  "get_or_create_udp_session now random c source_addr =
     (case hm_get (c_udp_sessions c) source_addr of
        Some session \<Rightarrow> (session, c)
      | None \<Rightarrow>
          let counter1 = c_session_id_counter c + 1;
              (session_id, counter2) =
                (if counter1 = 0 then (counter1 + 1, counter1 + 1) else (counter1, counter1));
              initial_seq = random mod ((2 ^ 32 - 1) div 2);
              session = \<lparr>us_session_id = session_id, us_seq = initial_seq, us_last_activity = now,
                         us_response_dedup = response_window_new DEFAULT_RESPONSE_DEDUP_SIZE\<rparr>
          in (session,
              c\<lparr>c_session_id_counter := counter2,
                c_udp_sessions := hm_insert source_addr session (c_udp_sessions c),
                c_udp_session_addrs := hm_insert session_id source_addr (c_udp_session_addrs c)\<rparr>))"

definition handle_udp_transport :: "client \<Rightarrow> u64 \<Rightarrow> u32 \<Rightarrow> bytes \<Rightarrow> client_output list" where
  "handle_udp_transport c session_id seq payload =
     (let packet = encode_udp session_id seq payload
      in map (\<lambda>sender. UdpSend sender packet) (c_udp_senders c))"

definition session_key :: "socket_addr \<Rightarrow> string \<Rightarrow> string" where
  "session_key source_addr server_addr = show_socket_addr source_addr @ ''->'' @ server_addr"

text \<open>\<open>connected\<close> is the outcome of \<open>TcpStream::connect\<close>, when it is called.\<close>

definition get_or_create_tcp_session ::
    "instant \<Rightarrow> bool \<Rightarrow> client \<Rightarrow> socket_addr \<Rightarrow> string \<Rightarrow> (tcp_session option \<times> bool) \<times> client" where
  "get_or_create_tcp_session now connected c source_addr key =
     (case hm_get (c_tcp_sessions c) key of
        Some session \<Rightarrow> ((Some session, False), c)
      | None \<Rightarrow>
          if \<not> connected then ((None, False), c)
          else
            let n = c_next_conn c;
                session = \<lparr>ts_writer = n, ts_last_activity = now\<rparr>
            in ((Some session, True),
                c\<lparr>c_next_conn := Suc n,
                  c_tcp_sessions := hm_insert key session (c_tcp_sessions c),
                  c_readers := hm_insert n \<lparr>tr_source = source_addr, tr_key = key\<rparr> (c_readers c)\<rparr>))"

definition send_tcp_frame :: "tcp_session \<Rightarrow> bytes \<Rightarrow> io_error + client_output" where
  "send_tcp_frame session data =
     (if length data > MAX_TCP_FRAME_SIZE then Inl InvalidInput
      else Inr (TcpWrite (ts_writer session) (tcp_frame data)))"

text \<open>The loop over the configured servers; \<open>connects i\<close> is the outcome for endpoint \<open>i\<close>.\<close>

fun tcp_transport_loop ::
    "instant \<Rightarrow> (nat \<Rightarrow> bool) \<Rightarrow> socket_addr \<Rightarrow> u64 \<Rightarrow> u32 \<Rightarrow> bytes \<Rightarrow> nat \<Rightarrow> endpoint list \<Rightarrow> client
       \<Rightarrow> client_output list \<times> client" where
  "tcp_transport_loop now connects source_addr session_id seq payload i [] c = ([], c)"
| "tcp_transport_loop now connects source_addr session_id seq payload i (ep # eps) c =
     (if ep_protocol ep \<noteq> Tcp then
        tcp_transport_loop now connects source_addr session_id seq payload (Suc i) eps c
      else
        let key = session_key source_addr (ep_address ep);
            ((session, created), c1) =
              get_or_create_tcp_session now (connects i) c source_addr key
        in (case session of
              None \<Rightarrow>
                tcp_transport_loop now connects source_addr session_id seq payload (Suc i) eps c1
            | Some s \<Rightarrow>
                let s' = s\<lparr>ts_last_activity := now\<rparr>;
                    c2 = c1\<lparr>c_tcp_sessions := hm_insert key s' (c_tcp_sessions c1)\<rparr>;
                    packet = encode_tcp session_id seq payload;
                    (outs, c3) =
                      tcp_transport_loop now connects source_addr session_id seq payload (Suc i) eps c2
                in (case send_tcp_frame s' packet of
                      Inl e \<Rightarrow> (outs, c3)
                    | Inr out \<Rightarrow> (out # outs, c3))))"

definition handle_tcp_transport ::
    "instant \<Rightarrow> (nat \<Rightarrow> bool) \<Rightarrow> client \<Rightarrow> socket_addr \<Rightarrow> u64 \<Rightarrow> u32 \<Rightarrow> bytes
       \<Rightarrow> client_output list \<times> client" where
  "handle_tcp_transport now connects c source_addr session_id seq payload =
     tcp_transport_loop now connects source_addr session_id seq payload 0 (cc_servers (c_cfg c)) c"

definition handle_packet ::
    "instant \<Rightarrow> u32 \<Rightarrow> (nat \<Rightarrow> bool) \<Rightarrow> client \<Rightarrow> socket_addr \<Rightarrow> bytes \<Rightarrow> client_output list \<times> client" where
  "handle_packet now random connects c source_addr payload =
     (let (session, c1) = get_or_create_udp_session now random c source_addr;
          seq = us_seq session;
          session' = session\<lparr>us_seq := seq + 1, us_last_activity := now\<rparr>;
          c2 = c1\<lparr>c_udp_sessions := hm_insert source_addr session' (c_udp_sessions c1)\<rparr>;
          udp_outs = handle_udp_transport c2 (us_session_id session') seq payload;
          (tcp_outs, c3) =
            handle_tcp_transport now connects c2 source_addr (us_session_id session') seq payload
      in (udp_outs @ tcp_outs, c3))"

section \<open>Responses from servers\<close>

text \<open>
  A session is shared between the map and its users (\<open>Arc\<close>), so an update of its window or of its
  time of activity is an update of the map's entry.
\<close>

definition process_udp_response :: "instant \<Rightarrow> client \<Rightarrow> bytes \<Rightarrow> client_output list \<times> client" where
  "process_udp_response now c data =
     (case decode_udp data of
        Inl e \<Rightarrow> ([], c)
      | Inr (session_id, seq, payload) \<Rightarrow>
          (case hm_get (c_udp_session_addrs c) session_id of
             None \<Rightarrow> ([], c)
           | Some source_addr \<Rightarrow>
               (case hm_get (c_udp_sessions c) source_addr of
                  None \<Rightarrow> ([], c)
                | Some session \<Rightarrow>
                    let (dup, window) = response_is_duplicate (us_response_dedup session) seq;
                        s1 = session\<lparr>us_response_dedup := window\<rparr>
                    in if dup then
                         ([], c\<lparr>c_udp_sessions := hm_insert source_addr s1 (c_udp_sessions c)\<rparr>)
                       else
                         (case c_listener c of
                            None \<Rightarrow> []
                          | Some listener \<Rightarrow> [SendTo listener payload source_addr],
                          c\<lparr>c_udp_sessions := hm_insert source_addr
                              (s1\<lparr>us_last_activity := now\<rparr>) (c_udp_sessions c)\<rparr>))))"

definition process_tcp_response ::
    "instant \<Rightarrow> client \<Rightarrow> socket_addr \<Rightarrow> bytes \<Rightarrow> client_output list \<times> client" where
  "process_tcp_response now c source_addr data =
     (case decode_tcp data of
        Inl e \<Rightarrow> ([], c)
      | Inr (session_id, seq, payload) \<Rightarrow>
          (case hm_get (c_udp_sessions c) source_addr of
             None \<Rightarrow> ([], c)
           | Some session \<Rightarrow>
               let (dup, window) = response_is_duplicate (us_response_dedup session) seq;
                   s1 = session\<lparr>us_response_dedup := window\<rparr>
               in if dup then
                    ([], c\<lparr>c_udp_sessions := hm_insert source_addr s1 (c_udp_sessions c)\<rparr>)
                  else
                    (case c_listener c of
                       None \<Rightarrow> []
                     | Some listener \<Rightarrow> [SendTo listener payload source_addr],
                     c\<lparr>c_udp_sessions := hm_insert source_addr
                         (s1\<lparr>us_last_activity := now\<rparr>) (c_udp_sessions c)\<rparr>)))"

definition cleanup_tcp_session :: "string \<Rightarrow> client \<Rightarrow> client" where
  "cleanup_tcp_session key c =
     (case hm_get (c_tcp_sessions c) key of
        None \<Rightarrow> c
      | Some session \<Rightarrow>
          c\<lparr>c_tcp_sessions := hm_remove key (c_tcp_sessions c),
            c_cancelled_conns := insert (ts_writer session) (c_cancelled_conns c)\<rparr>)"

text \<open>
  \<open>handle_tcp_server_response\<close> on a stream that is read to its end with nothing in between: frame
  after frame, then \<open>cleanup_tcp_session\<close>, whatever ends the loop. The same loop as single
  events, interleaved with the other tasks, is \<open>TcpResponse\<close> and \<open>TcpReaderEnds\<close> below.
\<close>

function handle_tcp_server_response ::
    "instant \<Rightarrow> client \<Rightarrow> socket_addr \<Rightarrow> string \<Rightarrow> tcp_stream \<Rightarrow> client_output list \<times> client" where
  "handle_tcp_server_response now c source_addr key reader =
     (case read_frame reader of
        Inl x \<Rightarrow> ([], cleanup_tcp_session key c)
      | Inr (data, reader') \<Rightarrow>
          (let (outs, c1) = process_tcp_response now c source_addr data;
               (outs', c2) = handle_tcp_server_response now c1 source_addr key reader'
           in (outs @ outs', c2)))"
  by pat_completeness auto
termination
  by (relation "measure (\<lambda>(now, c, a, key, st). length (arriving st))") (auto dest: read_frame_shorter)

declare handle_tcp_server_response.simps [simp del]

section \<open>Expiry\<close>

definition cleanup_interval :: "duration \<Rightarrow> duration" where
  "cleanup_interval session_timeout = max (min session_timeout (from_secs 10)) (from_millis 100)"

definition cleanup_expired_sessions :: "instant \<Rightarrow> client \<Rightarrow> client" where
  "cleanup_expired_sessions now c =
     (let timeout = cc_session_timeout (c_cfg c);
          expired_udp = expired_entries us_last_activity now timeout (c_udp_sessions c);
          c1 = c\<lparr>c_udp_sessions := hm_remove_all (map fst expired_udp) (c_udp_sessions c),
                 c_udp_session_addrs :=
                   hm_remove_all (map (us_session_id \<circ> snd) expired_udp) (c_udp_session_addrs c)\<rparr>;
          expired_tcp = expired_entries ts_last_activity now timeout (c_tcp_sessions c1)
      in c1\<lparr>c_tcp_sessions := hm_remove_all (map fst expired_tcp) (c_tcp_sessions c1),
            c_cancelled_conns :=
              set (map (ts_writer \<circ> snd) expired_tcp) \<union> c_cancelled_conns c1\<rparr>)"

section \<open>Tasks and events\<close>

text \<open>
  One thing a task of the client does. A packet event carries the random number and the connect
  outcomes, a response the socket or connection it came from. \<open>TcpReaderEnds\<close> is a return of
  \<open>handle_tcp_server_response\<close> after a failed read or a zero length, \<open>TcpReaderCancelled\<close> one
  through a cancelled token. A cancelled task may still handle what it is waiting for before it
  sees the token, since \<open>select!\<close> takes any branch that is ready.
\<close>

datatype client_event =
    Packet instant u32 "nat \<Rightarrow> bool" socket_addr bytes
  | UdpResponse instant socket bytes
  | TcpResponse instant conn bytes
  | TcpReaderEnds conn
  | TcpReaderCancelled conn
  | CleanupTick instant
  | Stop
  | TaskReturns client_task

definition client_enabled :: "client \<Rightarrow> client_event \<Rightarrow> bool" where
  "client_enabled c e =
     (case e of
        Packet _ _ _ _ _ \<Rightarrow>
          list_ex (\<lambda>t. case t of Listener _ \<Rightarrow> True | _ \<Rightarrow> False) (c_tasks c)
      | UdpResponse _ sock _ \<Rightarrow> UdpServerResponse sock \<in> set (c_tasks c)
      | TcpResponse _ n data \<Rightarrow> hm_get (c_readers c) n \<noteq> None \<and> frameable data
      | TcpReaderEnds n \<Rightarrow> hm_get (c_readers c) n \<noteq> None
      | TcpReaderCancelled n \<Rightarrow>
          hm_get (c_readers c) n \<noteq> None \<and> (c_cancelled c \<or> n \<in> c_cancelled_conns c)
      | CleanupTick _ \<Rightarrow> SessionCleanup \<in> set (c_tasks c)
      | Stop \<Rightarrow> True
      | TaskReturns t \<Rightarrow> c_cancelled c \<and> t \<in> set (c_tasks c))"

definition end_reader :: "conn \<Rightarrow> client \<Rightarrow> client" where
  "end_reader n c = c\<lparr>c_readers := hm_remove n (c_readers c)\<rparr>"

definition client_handle :: "client_event \<Rightarrow> client \<Rightarrow> client_output list \<times> client" where
  "client_handle e c =
     (case e of
        Packet now random connects source_addr payload \<Rightarrow>
          handle_packet now random connects c source_addr payload
      | UdpResponse now sock data \<Rightarrow> process_udp_response now c data
      | TcpResponse now n data \<Rightarrow>
          (case hm_get (c_readers c) n of
             None \<Rightarrow> ([], c)
           | Some r \<Rightarrow> process_tcp_response now c (tr_source r) data)
      | TcpReaderEnds n \<Rightarrow>
          (case hm_get (c_readers c) n of
             None \<Rightarrow> ([], c)
           | Some r \<Rightarrow> ([], end_reader n (cleanup_tcp_session (tr_key r) c)))
      | TcpReaderCancelled n \<Rightarrow> ([], end_reader n c)
      | CleanupTick now \<Rightarrow> ([], cleanup_expired_sessions now c)
      | Stop \<Rightarrow> ([], client_stop c)
      | TaskReturns t \<Rightarrow> ([], c\<lparr>c_tasks := remove1 t (c_tasks c)\<rparr>))"

abbreviation client_run ::
    "client \<Rightarrow> client_event list \<Rightarrow> client_output list \<Rightarrow> client \<Rightarrow> bool" where
  "client_run \<equiv> run client_enabled client_handle"

end
