(* ===== verification/Client_Correct.thy ===== *)
theory Client_Correct
  imports Client
begin

text \<open>
  What the client guarantees: its two session maps are each other's inverse along every run, all
  copies of a packet agree, responses reach the source they belong to and no source gets one
  twice, and only idle sessions expire. The model is in theory \<open>Client\<close>.
\<close>

section \<open>Both kinds of response end the same way\<close>

definition deliver :: "instant \<Rightarrow> client \<Rightarrow> socket_addr \<Rightarrow> u32 \<Rightarrow> bytes \<Rightarrow> client_output list \<times> client" where
  "deliver now c source_addr seq payload =
     (case hm_get (c_udp_sessions c) source_addr of
        None \<Rightarrow> ([], c)
      | Some session \<Rightarrow>
          (let w = snd (response_is_duplicate (us_response_dedup session) seq) in
           if fst (response_is_duplicate (us_response_dedup session) seq) then
             ([], c\<lparr>c_udp_sessions := hm_insert source_addr
                     (session\<lparr>us_response_dedup := w\<rparr>) (c_udp_sessions c)\<rparr>)
           else
             (case c_listener c of None \<Rightarrow> [] | Some l \<Rightarrow> [SendTo l payload source_addr],
              c\<lparr>c_udp_sessions := hm_insert source_addr
                 (session\<lparr>us_response_dedup := w, us_last_activity := now\<rparr>)
                 (c_udp_sessions c)\<rparr>)))"

lemma process_udp_response_eq:
  "process_udp_response now c data =
     (case decode_udp data of
        Inl e \<Rightarrow> ([], c)
      | Inr (session_id, seq, payload) \<Rightarrow>
          (case hm_get (c_udp_session_addrs c) session_id of
             None \<Rightarrow> ([], c)
           | Some a \<Rightarrow> deliver now c a seq payload))"
  by (auto simp: process_udp_response_def deliver_def Let_def case_prod_beta
      split: sum.splits option.splits)

lemma process_tcp_response_eq:
  "process_tcp_response now c a data =
     (case decode_tcp data of
        Inl e \<Rightarrow> ([], c)
      | Inr (session_id, seq, payload) \<Rightarrow> deliver now c a seq payload)"
  by (auto simp: process_tcp_response_def deliver_def Let_def case_prod_beta
      split: sum.splits option.splits)

lemma deliver_frame [simp]:
  fixes now c a seq payload
  defines "c' \<equiv> snd (deliver now c a seq payload)"
  shows "c_cfg c' = c_cfg c" "c_cancelled c' = c_cancelled c" "c_listener c' = c_listener c"
    "c_session_id_counter c' = c_session_id_counter c"
    "c_udp_session_addrs c' = c_udp_session_addrs c" "c_tcp_sessions c' = c_tcp_sessions c"
    "c_udp_senders c' = c_udp_senders c" "c_tasks c' = c_tasks c" "c_readers c' = c_readers c"
    "c_cancelled_conns c' = c_cancelled_conns c" "c_next_conn c' = c_next_conn c"
  unfolding c'_def deliver_def by (simp_all add: Let_def split: option.split)

lemma deliver_sessions:
  "hm_get (c_udp_sessions (snd (deliver now c a seq payload))) =
     (case hm_get (c_udp_sessions c) a of
        None \<Rightarrow> hm_get (c_udp_sessions c)
      | Some s \<Rightarrow>
          (let (dup, w) = response_is_duplicate (us_response_dedup s) seq
           in (hm_get (c_udp_sessions c))(a \<mapsto>
                if dup then s\<lparr>us_response_dedup := w\<rparr>
                else s\<lparr>us_response_dedup := w, us_last_activity := now\<rparr>)))"
  by (auto simp: deliver_def Let_def case_prod_beta split: option.split)

section \<open>What the handlers leave alone\<close>

lemma get_or_create_tcp_session_frame:
  fixes now ok c a key
  defines "c' \<equiv> snd (get_or_create_tcp_session now ok c a key)"
  shows "c_cfg c' = c_cfg c" "c_cancelled c' = c_cancelled c" "c_listener c' = c_listener c"
    "c_session_id_counter c' = c_session_id_counter c" "c_udp_sessions c' = c_udp_sessions c"
    "c_udp_session_addrs c' = c_udp_session_addrs c" "c_udp_senders c' = c_udp_senders c"
    "c_tasks c' = c_tasks c"
  unfolding c'_def get_or_create_tcp_session_def by (simp_all add: Let_def split: option.split)

text \<open>What the loop does for one endpoint.\<close>

definition tcp_endpoint ::
    "instant \<Rightarrow> bool \<Rightarrow> socket_addr \<Rightarrow> u64 \<Rightarrow> u32 \<Rightarrow> bytes \<Rightarrow> endpoint \<Rightarrow> client
       \<Rightarrow> client_output list \<times> client" where
  "tcp_endpoint now connected a sid sq pl ep c =
     (if ep_protocol ep \<noteq> Tcp then ([], c)
      else
        let key = session_key a (ep_address ep);
            c1 = snd (get_or_create_tcp_session now connected c a key)
        in (case fst (fst (get_or_create_tcp_session now connected c a key)) of
              None \<Rightarrow> ([], c1)
            | Some s \<Rightarrow>
                (case send_tcp_frame s (encode_tcp sid sq pl) of Inl _ \<Rightarrow> [] | Inr out \<Rightarrow> [out],
                 c1\<lparr>c_tcp_sessions :=
                      hm_insert key (s\<lparr>ts_last_activity := now\<rparr>) (c_tcp_sessions c1)\<rparr>)))"

lemma send_tcp_frame_touch [simp]:
  "send_tcp_frame (s\<lparr>ts_last_activity := now\<rparr>) data = send_tcp_frame s data"
  by (simp add: send_tcp_frame_def)

lemma tcp_transport_loop_Cons:
  "tcp_transport_loop now connects a sid sq pl i (ep # eps) c =
     (let (outs1, c1) = tcp_endpoint now (connects i) a sid sq pl ep c;
          (outs2, c2) = tcp_transport_loop now connects a sid sq pl (Suc i) eps c1
      in (outs1 @ outs2, c2))"
  by (auto simp: tcp_endpoint_def Let_def case_prod_beta split: sum.split option.split)

declare tcp_transport_loop.simps(2) [simp del]

lemma tcp_transport_loop_preserves:
  assumes "P c"
    and "\<And>connected ep c. ep \<in> set eps \<Longrightarrow> P c \<Longrightarrow> P (snd (tcp_endpoint now connected a sid sq pl ep c))"
  shows "P (snd (tcp_transport_loop now connects a sid sq pl i eps c))"
  using assms
proof (induction eps arbitrary: i c)
  case Nil
  then show ?case by simp
next
  case (Cons ep eps)
  then show ?case by (simp add: tcp_transport_loop_Cons Let_def case_prod_beta)
qed

lemma tcp_endpoint_frame:
  fixes now connected a sid sq pl ep c
  defines "c' \<equiv> snd (tcp_endpoint now connected a sid sq pl ep c)"
  shows "c_cfg c' = c_cfg c" "c_cancelled c' = c_cancelled c" "c_listener c' = c_listener c"
    "c_session_id_counter c' = c_session_id_counter c" "c_udp_sessions c' = c_udp_sessions c"
    "c_udp_session_addrs c' = c_udp_session_addrs c" "c_udp_senders c' = c_udp_senders c"
    "c_tasks c' = c_tasks c"
  unfolding c'_def tcp_endpoint_def
  by (simp_all add: Let_def get_or_create_tcp_session_frame split: option.split)

lemma tcp_transport_loop_frame:
  fixes now connects a sid sq pl i eps c
  defines "c' \<equiv> snd (tcp_transport_loop now connects a sid sq pl i eps c)"
  shows "c_cfg c' = c_cfg c \<and> c_cancelled c' = c_cancelled c \<and> c_listener c' = c_listener c \<and>
    c_session_id_counter c' = c_session_id_counter c \<and> c_udp_sessions c' = c_udp_sessions c \<and>
    c_udp_session_addrs c' = c_udp_session_addrs c \<and> c_udp_senders c' = c_udp_senders c \<and>
    c_tasks c' = c_tasks c"
  unfolding c'_def
  by (rule tcp_transport_loop_preserves) (simp_all add: tcp_endpoint_frame)

lemma handle_tcp_transport_frame:
  fixes now connects c a sid sq pl
  defines "c' \<equiv> snd (handle_tcp_transport now connects c a sid sq pl)"
  shows "c_cfg c' = c_cfg c" "c_cancelled c' = c_cancelled c" "c_listener c' = c_listener c"
    "c_session_id_counter c' = c_session_id_counter c" "c_udp_sessions c' = c_udp_sessions c"
    "c_udp_session_addrs c' = c_udp_session_addrs c" "c_udp_senders c' = c_udp_senders c"
    "c_tasks c' = c_tasks c"
  unfolding c'_def handle_tcp_transport_def
  using tcp_transport_loop_frame [of now connects a sid sq pl 0 "cc_servers (c_cfg c)" c]
  by simp_all

section \<open>Session identifiers\<close>

text \<open>The number of identifiers drawn from the counter since it stood at \<open>base\<close>.\<close>

definition issued :: "u64 \<Rightarrow> u64 \<Rightarrow> nat" where
  "issued base w = unat (w - base)"

lemma issued_inject: "issued base v = issued base w \<longleftrightarrow> v = w"
  unfolding issued_def by (metis diff_add_cancel word_unat_eq_iff)

lemma issued_Suc: "issued base w + 1 < 2 ^ 64 \<Longrightarrow> issued base (w + 1) = issued base w + 1"
proof -
  assume "issued base w + 1 < 2 ^ 64"
  then have "unat (w - base + 1) = unat (w - base) + 1"
    unfolding issued_def by (intro unat_plus_1) simp
  moreover have "w + 1 - base = w - base + 1" by simp
  ultimately show "issued base (w + 1) = issued base w + 1"
    by (simp only: issued_def)
qed

definition session_ok :: "udp_session \<Rightarrow> bool" where
  "session_ok s \<longleftrightarrow> us_session_id s \<noteq> 0 \<and> rw_inv (us_response_dedup s)"

text \<open>
  The two maps are each other's inverse, no identifier is zero, every identifier has been drawn
  from the counter, and \<open>n\<close> events have drawn at most \<open>2 * n\<close> of them.
\<close>

definition ids_inv :: "u64 \<Rightarrow> nat \<Rightarrow> client \<Rightarrow> bool" where
  "ids_inv base n c \<longleftrightarrow>
     (\<forall>a s. hm_get (c_udp_sessions c) a = Some s \<longrightarrow>
        session_ok s \<and> hm_get (c_udp_session_addrs c) (us_session_id s) = Some a \<and>
        issued base (us_session_id s) \<le> issued base (c_session_id_counter c)) \<and>
     (\<forall>sid a. hm_get (c_udp_session_addrs c) sid = Some a \<longrightarrow>
        (\<exists>s. hm_get (c_udp_sessions c) a = Some s \<and> us_session_id s = sid)) \<and>
     issued base (c_session_id_counter c) \<le> 2 * n"

lemma ids_invI:
  assumes "\<And>a s. hm_get (c_udp_sessions c) a = Some s \<Longrightarrow>
        session_ok s \<and> hm_get (c_udp_session_addrs c) (us_session_id s) = Some a \<and>
        issued base (us_session_id s) \<le> issued base (c_session_id_counter c)"
    and "\<And>sid a. hm_get (c_udp_session_addrs c) sid = Some a \<Longrightarrow>
        \<exists>s. hm_get (c_udp_sessions c) a = Some s \<and> us_session_id s = sid"
    and "issued base (c_session_id_counter c) \<le> 2 * n"
  shows "ids_inv base n c"
  using assms by (auto simp: ids_inv_def)

lemma ids_invD:
  assumes "ids_inv base n c"
  shows "hm_get (c_udp_sessions c) a = Some s \<Longrightarrow>
        session_ok s \<and> hm_get (c_udp_session_addrs c) (us_session_id s) = Some a \<and>
        issued base (us_session_id s) \<le> issued base (c_session_id_counter c)"
    and "hm_get (c_udp_session_addrs c) sid = Some a \<Longrightarrow>
        \<exists>s. hm_get (c_udp_sessions c) a = Some s \<and> us_session_id s = sid"
    and "issued base (c_session_id_counter c) \<le> 2 * n"
  using assms by (simp_all add: ids_inv_def)

lemma ids_inv_cong:
  assumes "c_udp_sessions c' = c_udp_sessions c"
    and "c_udp_session_addrs c' = c_udp_session_addrs c"
    and "c_session_id_counter c' = c_session_id_counter c"
  shows "ids_inv base n c' \<longleftrightarrow> ids_inv base n c"
  by (simp add: ids_inv_def assms)

lemma ids_inv_Suc: "ids_inv base n c \<Longrightarrow> ids_inv base (Suc n) c"
  by (auto simp: ids_inv_def)

text \<open>An entry may be replaced by one with the same identifier.\<close>

lemma ids_inv_update:
  assumes "ids_inv base n c" and "hm_get (c_udp_sessions c) a = Some s"
    and "us_session_id s' = us_session_id s" and "session_ok s'"
    and "hm_get (c_udp_sessions c') = (hm_get (c_udp_sessions c))(a \<mapsto> s')"
    and "c_udp_session_addrs c' = c_udp_session_addrs c"
    and "c_session_id_counter c' = c_session_id_counter c"
  shows "ids_inv base n c'"
  using assms(2-) ids_invD(1,3) [OF assms(1)]
  by (intro ids_invI) (auto split: if_splits dest: ids_invD(2) [OF assms(1)])

lemma session_ok_touch [simp]:
  "session_ok (s\<lparr>us_seq := sq, us_last_activity := t\<rparr>) = session_ok s"
  "session_ok (s\<lparr>us_response_dedup := w, us_last_activity := t\<rparr>)
     = session_ok (s\<lparr>us_response_dedup := w\<rparr>)"
  by (simp_all add: session_ok_def)

lemma session_ok_check:
  "session_ok s \<Longrightarrow>
     session_ok (s\<lparr>us_response_dedup := snd (response_is_duplicate (us_response_dedup s) q)\<rparr>)"
  by (simp add: session_ok_def rw.inv_check)

lemma ids_inv_deliver:
  assumes "ids_inv base n c"
  shows "ids_inv base n (snd (deliver now c a seq pl))"
proof (cases "hm_get (c_udp_sessions c) a")
  case None
  with assms show ?thesis by (simp add: deliver_def)
next
  case (Some s)
  let ?w = "snd (response_is_duplicate (us_response_dedup s) seq)"
  have ok: "session_ok (s\<lparr>us_response_dedup := ?w\<rparr>)"
    using ids_invD(1) [OF assms Some] by (simp add: session_ok_check)
  show ?thesis
  proof (cases "fst (response_is_duplicate (us_response_dedup s) seq)")
    case True
    then show ?thesis
      using Some ok
      by (intro ids_inv_update [OF assms Some, of "s\<lparr>us_response_dedup := ?w\<rparr>"])
        (simp_all add: deliver_sessions case_prod_beta)
  next
    case False
    then show ?thesis
      using Some ok
      by (intro ids_inv_update [OF assms Some,
            of "s\<lparr>us_response_dedup := ?w, us_last_activity := now\<rparr>"])
        (simp_all add: deliver_sessions case_prod_beta)
  qed
qed

lemma ids_inv_new:
  assumes inv: "ids_inv base n c" and none: "hm_get (c_udp_sessions c) a = None"
    and s: "us_session_id s = sid" "session_ok s"
    and old: "issued base (c_session_id_counter c) < issued base sid"
    and new: "issued base sid \<le> 2 * Suc n"
    and c': "hm_get (c_udp_sessions c') = (hm_get (c_udp_sessions c))(a \<mapsto> s)"
      "hm_get (c_udp_session_addrs c') = (hm_get (c_udp_session_addrs c))(sid \<mapsto> a)"
      "c_session_id_counter c' = sid"
  shows "ids_inv base (Suc n) c'"
proof (rule ids_invI)
  fix b t assume t: "hm_get (c_udp_sessions c') b = Some t"
  show "session_ok t \<and> hm_get (c_udp_session_addrs c') (us_session_id t) = Some b \<and>
      issued base (us_session_id t) \<le> issued base (c_session_id_counter c')"
  proof (cases "b = a")
    case True
    with t s c' show ?thesis by simp
  next
    case False
    with t c' have "hm_get (c_udp_sessions c) b = Some t" by simp
    from ids_invD(1) [OF inv this] False old c' show ?thesis by auto
  qed
next
  fix i b assume "hm_get (c_udp_session_addrs c') i = Some b"
  then show "\<exists>t. hm_get (c_udp_sessions c') b = Some t \<and> us_session_id t = i"
    using s c' none ids_invD(2) [OF inv, of i b] by (auto split: if_splits)
next
  show "issued base (c_session_id_counter c') \<le> 2 * Suc n"
    using new c' by simp
qed

definition event_limit :: nat where
  "event_limit = 2 ^ 62"

lemma session_ok_new [simp]:
  "session_ok \<lparr>us_session_id = i, us_seq = q, us_last_activity = t,
     us_response_dedup = response_window_new DEFAULT_RESPONSE_DEDUP_SIZE\<rparr> \<longleftrightarrow> i \<noteq> 0"
  by (simp add: session_ok_def rw_inv_new DEFAULT_RESPONSE_DEDUP_SIZE_def)

lemma get_or_create_udp_session_known:
  "hm_get (c_udp_sessions c) a = Some s \<Longrightarrow> get_or_create_udp_session now r c a = (s, c)"
  by (simp add: get_or_create_udp_session_def)

lemma get_or_create_udp_session_frame:
  fixes now r c a
  defines "c' \<equiv> snd (get_or_create_udp_session now r c a)"
  shows "c_cfg c' = c_cfg c" "c_cancelled c' = c_cancelled c" "c_listener c' = c_listener c"
    "c_tcp_sessions c' = c_tcp_sessions c" "c_udp_senders c' = c_udp_senders c"
    "c_tasks c' = c_tasks c" "c_readers c' = c_readers c"
    "c_cancelled_conns c' = c_cancelled_conns c" "c_next_conn c' = c_next_conn c"
  unfolding c'_def get_or_create_udp_session_def
  by (simp_all add: Let_def case_prod_beta split: option.split)

lemma get_or_create_udp_session_stored:
  "hm_get (c_udp_sessions (snd (get_or_create_udp_session now r c a))) a
     = Some (fst (get_or_create_udp_session now r c a))"
  by (simp add: get_or_create_udp_session_def Let_def case_prod_beta split: option.split)

lemma ids_inv_get_or_create:
  assumes inv: "ids_inv base n c" and n: "n < event_limit"
  shows "ids_inv base (Suc n) (snd (get_or_create_udp_session now r c a))"
proof (cases "hm_get (c_udp_sessions c) a")
  case (Some s)
  with inv show ?thesis
    by (simp add: get_or_create_udp_session_known ids_inv_Suc)
next
  case None
  let ?k = "c_session_id_counter c"
  have "issued base ?k \<le> 2 * n" by (rule ids_invD(3) [OF inv])
  then have k: "issued base ?k + 2 < 2 ^ 64" "issued base ?k + 2 \<le> 2 * Suc n"
    using n by (simp_all add: event_limit_def)
  then have one: "issued base (?k + 1) = issued base ?k + 1"
    by (intro issued_Suc) simp
  then have two: "issued base (?k + 1 + 1) = issued base ?k + 2"
    using issued_Suc [of base "?k + 1"] k by simp
  show ?thesis
  proof (cases "?k + 1 = 0")
    case True
    with None k one two show ?thesis
      by (intro ids_inv_new [where sid = "?k + 1 + 1", OF inv None])
        (simp_all add: get_or_create_udp_session_def Let_def)
  next
    case False
    with None k one show ?thesis
      by (intro ids_inv_new [where sid = "?k + 1", OF inv None])
        (simp_all add: get_or_create_udp_session_def Let_def)
  qed
qed

section \<open>Sweeping\<close>

lemma sweep_udp_sessions:
  "hm_get (c_udp_sessions (cleanup_expired_sessions now c)) a =
     unless_expired us_last_activity now (cc_session_timeout (c_cfg c))
       (hm_get (c_udp_sessions c) a)"
  by (simp add: cleanup_expired_sessions_def Let_def hm_get_sweep del: hm_get_remove_all)

lemma sweep_tcp_sessions:
  "hm_get (c_tcp_sessions (cleanup_expired_sessions now c)) key =
     unless_expired ts_last_activity now (cc_session_timeout (c_cfg c))
       (hm_get (c_tcp_sessions c) key)"
  by (simp add: cleanup_expired_sessions_def Let_def hm_get_sweep del: hm_get_remove_all)

lemma sweep_addrs:
  "hm_get (c_udp_session_addrs (cleanup_expired_sessions now c)) sid =
     (if \<exists>a s. hm_get (c_udp_sessions c) a = Some s \<and> us_session_id s = sid
             \<and> expired now (cc_session_timeout (c_cfg c)) (us_last_activity s)
      then None else hm_get (c_udp_session_addrs c) sid)"
  by (simp add: cleanup_expired_sessions_def Let_def expired_values)

lemma sweep_cancelled_conns:
  "n \<in> c_cancelled_conns (cleanup_expired_sessions now c) \<longleftrightarrow>
     n \<in> c_cancelled_conns c \<or>
     (\<exists>key t. hm_get (c_tcp_sessions c) key = Some t \<and> ts_writer t = n
            \<and> expired now (cc_session_timeout (c_cfg c)) (ts_last_activity t))"
  by (auto simp: cleanup_expired_sessions_def Let_def expired_values)

lemma sweep_frame:
  fixes now c
  defines "c' \<equiv> cleanup_expired_sessions now c"
  shows "c_cfg c' = c_cfg c" "c_cancelled c' = c_cancelled c" "c_listener c' = c_listener c"
    "c_session_id_counter c' = c_session_id_counter c" "c_udp_senders c' = c_udp_senders c"
    "c_tasks c' = c_tasks c" "c_readers c' = c_readers c" "c_next_conn c' = c_next_conn c"
  unfolding c'_def by (simp_all add: cleanup_expired_sessions_def Let_def)

interpretation udp_table: expiring_table cleanup_expired_sessions
  "\<lambda>c. hm_get (c_udp_sessions c)" us_last_activity "\<lambda>c. cc_session_timeout (c_cfg c)"
  by unfold_locales (simp_all add: sweep_udp_sessions sweep_frame)

interpretation tcp_table: expiring_table cleanup_expired_sessions
  "\<lambda>c. hm_get (c_tcp_sessions c)" ts_last_activity "\<lambda>c. cc_session_timeout (c_cfg c)"
  by unfold_locales (simp_all add: sweep_tcp_sessions sweep_frame)

lemma ids_inv_sweep:
  assumes inv: "ids_inv base n c"
  shows "ids_inv base n (cleanup_expired_sessions now c)"
proof (rule ids_invI)
  fix a s assume "hm_get (c_udp_sessions (cleanup_expired_sessions now c)) a = Some s"
  then have s: "hm_get (c_udp_sessions c) a = Some s"
    and fresh: "\<not> expired now (cc_session_timeout (c_cfg c)) (us_last_activity s)"
    by (simp_all add: sweep_udp_sessions)
  have "b = a" if "hm_get (c_udp_sessions c) b = Some t" "us_session_id t = us_session_id s" for b t
    using ids_invD(1) [OF inv s] ids_invD(1) [OF inv that(1)] that(2) by auto
  then have "\<nexists>b t. hm_get (c_udp_sessions c) b = Some t \<and> us_session_id t = us_session_id s
      \<and> expired now (cc_session_timeout (c_cfg c)) (us_last_activity t)"
    using s fresh by auto
  with ids_invD(1) [OF inv s]
  show "session_ok s \<and>
      hm_get (c_udp_session_addrs (cleanup_expired_sessions now c)) (us_session_id s) = Some a \<and>
      issued base (us_session_id s)
        \<le> issued base (c_session_id_counter (cleanup_expired_sessions now c))"
    by (simp add: sweep_addrs sweep_frame)
next
  fix sid a assume "hm_get (c_udp_session_addrs (cleanup_expired_sessions now c)) sid = Some a"
  then have a: "hm_get (c_udp_session_addrs c) sid = Some a"
    and alive: "\<nexists>b t. hm_get (c_udp_sessions c) b = Some t \<and> us_session_id t = sid
      \<and> expired now (cc_session_timeout (c_cfg c)) (us_last_activity t)"
    by (auto simp: sweep_addrs split: if_splits)
  from ids_invD(2) [OF inv a] alive
  show "\<exists>s. hm_get (c_udp_sessions (cleanup_expired_sessions now c)) a = Some s
      \<and> us_session_id s = sid"
    by (auto simp: sweep_udp_sessions)
next
  show "issued base (c_session_id_counter (cleanup_expired_sessions now c)) \<le> 2 * n"
    using ids_invD(3) [OF inv] by (simp add: sweep_frame)
qed

section \<open>The identifiers along a run\<close>

lemma ids_inv_handle_packet:
  assumes inv: "ids_inv base n c" and n: "n < event_limit"
  shows "ids_inv base (Suc n) (snd (handle_packet now r connects c a pl))"
proof -
  obtain s c1 where g: "get_or_create_udp_session now r c a = (s, c1)"
    by (cases "get_or_create_udp_session now r c a")
  have inv1: "ids_inv base (Suc n) c1"
    using ids_inv_get_or_create [OF assms, of now r a] by (simp add: g)
  have s: "hm_get (c_udp_sessions c1) a = Some s"
    using get_or_create_udp_session_stored [of now r c a] by (simp add: g)
  let ?s = "s\<lparr>us_seq := us_seq s + 1, us_last_activity := now\<rparr>"
  let ?c2 = "c1\<lparr>c_udp_sessions := hm_insert a ?s (c_udp_sessions c1)\<rparr>"
  have "ids_inv base (Suc n) ?c2"
    using ids_invD(1) [OF inv1 s] by (intro ids_inv_update [OF inv1 s, of ?s]) simp_all
  then show ?thesis
    by (subst ids_inv_cong [where c = ?c2])
      (simp_all add: handle_packet_def g Let_def case_prod_beta handle_tcp_transport_frame)
qed

lemma cleanup_tcp_session_frame:
  fixes key c
  defines "c' \<equiv> cleanup_tcp_session key c"
  shows "c_cfg c' = c_cfg c" "c_cancelled c' = c_cancelled c" "c_listener c' = c_listener c"
    "c_session_id_counter c' = c_session_id_counter c" "c_udp_sessions c' = c_udp_sessions c"
    "c_udp_session_addrs c' = c_udp_session_addrs c" "c_udp_senders c' = c_udp_senders c"
    "c_tasks c' = c_tasks c" "c_readers c' = c_readers c" "c_next_conn c' = c_next_conn c"
  unfolding c'_def by (simp_all add: cleanup_tcp_session_def split: option.split)

lemma ids_inv_handle:
  assumes "ids_inv base n c" and "n < event_limit"
  shows "ids_inv base (Suc n) (snd (client_handle e c))"
proof (cases e)
  case (Packet now r connects a pl)
  with assms show ?thesis by (simp add: client_handle_def ids_inv_handle_packet)
next
  case (UdpResponse now sock data)
  with assms show ?thesis
    by (auto simp: client_handle_def process_udp_response_eq split: sum.split option.split
        intro!: ids_inv_Suc ids_inv_deliver)
next
  case (TcpResponse now n data)
  with assms show ?thesis
    by (auto simp: client_handle_def process_tcp_response_eq split: sum.split option.split
        intro!: ids_inv_Suc ids_inv_deliver)
next
  case (TcpReaderEnds n)
  with assms show ?thesis
    by (auto simp: client_handle_def end_reader_def cleanup_tcp_session_frame
        split: option.split cong: ids_inv_cong intro!: ids_inv_Suc)
next
  case (CleanupTick now)
  with assms show ?thesis by (simp add: client_handle_def ids_inv_Suc ids_inv_sweep)
qed (use assms in \<open>simp_all add: client_handle_def end_reader_def client_stop_def ids_inv_Suc
       cong: ids_inv_cong\<close>)

interpretation client_ids: event_system client_enabled client_handle "ids_inv base" event_limit
  for base
  by unfold_locales (simp add: ids_inv_handle)

section \<open>TCP sessions and their readers\<close>

definition reader_ok :: "client \<Rightarrow> tcp_reader \<Rightarrow> bool" where
  "reader_ok c r \<longleftrightarrow>
     (\<exists>ep \<in> set (cc_servers (c_cfg c)).
        ep_protocol ep = Tcp \<and> tr_key r = session_key (tr_source r) (ep_address ep))"

text \<open>
  Every connection number has been handed out; a session's connection belongs to no other
  session, is not cancelled, and as long as the client runs it has a reader under the same key.
\<close>

definition tcp_inv :: "client \<Rightarrow> bool" where
  "tcp_inv c \<longleftrightarrow>
     (\<forall>n r. hm_get (c_readers c) n = Some r \<longrightarrow> n < c_next_conn c \<and> reader_ok c r) \<and>
     (\<forall>key t. hm_get (c_tcp_sessions c) key = Some t \<longrightarrow>
        ts_writer t < c_next_conn c \<and> ts_writer t \<notin> c_cancelled_conns c \<and>
        (\<not> c_cancelled c \<longrightarrow>
          (\<exists>r. hm_get (c_readers c) (ts_writer t) = Some r \<and> tr_key r = key))) \<and>
     (\<forall>key key' t t'. hm_get (c_tcp_sessions c) key = Some t \<and>
        hm_get (c_tcp_sessions c) key' = Some t' \<and> ts_writer t = ts_writer t' \<longrightarrow> key = key') \<and>
     (\<forall>n \<in> c_cancelled_conns c. n < c_next_conn c)"

lemma tcp_invD:
  assumes "tcp_inv c"
  shows "hm_get (c_readers c) n = Some r \<Longrightarrow> n < c_next_conn c \<and> reader_ok c r"
    and "hm_get (c_tcp_sessions c) key = Some t \<Longrightarrow>
        ts_writer t < c_next_conn c \<and> ts_writer t \<notin> c_cancelled_conns c"
    and "hm_get (c_tcp_sessions c) key = Some t \<Longrightarrow> \<not> c_cancelled c \<Longrightarrow>
        \<exists>r. hm_get (c_readers c) (ts_writer t) = Some r \<and> tr_key r = key"
    and "hm_get (c_tcp_sessions c) key = Some t \<Longrightarrow> hm_get (c_tcp_sessions c) key' = Some t' \<Longrightarrow>
        ts_writer t = ts_writer t' \<Longrightarrow> key = key'"
    and "n \<in> c_cancelled_conns c \<Longrightarrow> n < c_next_conn c"
  using assms unfolding tcp_inv_def by blast+

lemma tcp_invI:
  assumes "\<And>n r. hm_get (c_readers c) n = Some r \<Longrightarrow> n < c_next_conn c \<and> reader_ok c r"
    and "\<And>key t. hm_get (c_tcp_sessions c) key = Some t \<Longrightarrow>
        ts_writer t < c_next_conn c \<and> ts_writer t \<notin> c_cancelled_conns c"
    and "\<And>key t. hm_get (c_tcp_sessions c) key = Some t \<Longrightarrow> \<not> c_cancelled c \<Longrightarrow>
        \<exists>r. hm_get (c_readers c) (ts_writer t) = Some r \<and> tr_key r = key"
    and "\<And>key key' t t'. hm_get (c_tcp_sessions c) key = Some t \<Longrightarrow>
        hm_get (c_tcp_sessions c) key' = Some t' \<Longrightarrow> ts_writer t = ts_writer t' \<Longrightarrow> key = key'"
    and "\<And>n. n \<in> c_cancelled_conns c \<Longrightarrow> n < c_next_conn c"
  shows "tcp_inv c"
  using assms unfolding tcp_inv_def by blast

lemma tcp_inv_cong:
  assumes "c_cfg c' = c_cfg c" and "c_cancelled c' = c_cancelled c"
    and "c_tcp_sessions c' = c_tcp_sessions c" and "c_readers c' = c_readers c"
    and "c_cancelled_conns c' = c_cancelled_conns c" and "c_next_conn c' = c_next_conn c"
  shows "tcp_inv c' \<longleftrightarrow> tcp_inv c"
  by (simp add: tcp_inv_def reader_ok_def assms)

lemma tcp_inv_same:
  assumes "tcp_inv c" and "c_cfg c' = c_cfg c" and "c_cancelled c' = c_cancelled c"
    and "c_tcp_sessions c' = c_tcp_sessions c" and "c_readers c' = c_readers c"
    and "c_cancelled_conns c' = c_cancelled_conns c" and "c_next_conn c' = c_next_conn c"
  shows "tcp_inv c'"
  using assms(1) tcp_inv_cong [OF assms(2-7)] by simp

text \<open>A session is opened: the connection number is fresh.\<close>

lemma tcp_inv_open:
  assumes inv: "tcp_inv c" and ep: "ep \<in> set (cc_servers (c_cfg c))" "ep_protocol ep = Tcp"
    and key: "key = session_key a (ep_address ep)"
    and none: "hm_get (c_tcp_sessions c) key = None"
  shows "tcp_inv (c\<lparr>c_next_conn := Suc (c_next_conn c),
      c_readers := hm_insert (c_next_conn c) \<lparr>tr_source = a, tr_key = key\<rparr> (c_readers c),
      c_tcp_sessions := hm_insert key \<lparr>ts_writer = c_next_conn c, ts_last_activity = now\<rparr>
        (c_tcp_sessions c)\<rparr>)"
proof -
  note D = tcp_invD [OF inv]
  have new: "reader_ok c \<lparr>tr_source = a, tr_key = key\<rparr>"
    using ep key by (auto simp: reader_ok_def)
  have fresh: "c_next_conn c \<notin> c_cancelled_conns c"
    using D(5) by blast
  have other: "ts_writer t \<noteq> c_next_conn c" if "hm_get (c_tcp_sessions c) k = Some t" for k t
    using D(2) [OF that] by simp
  show ?thesis
  proof (rule tcp_invI, goal_cases)
    case (1 n r)
    with new D(1) show ?case
      by (auto simp: reader_ok_def less_Suc_eq split: if_splits)
  next
    case (2 k t)
    with fresh D(2) show ?case by (auto simp: less_Suc_eq split: if_splits)
  next
    case (3 k t)
    with D(3) other show ?case by (auto split: if_splits)
  next
    case (4 k k' t t')
    then show ?case by (auto split: if_splits dest: D(4) other other [OF _, symmetric])
  next
    case (5 n)
    with D(5) show ?case by (simp add: less_Suc_eq)
  qed
qed

lemma tcp_inv_touch:
  assumes inv: "tcp_inv c" and t: "hm_get (c_tcp_sessions c) key = Some t"
  shows "tcp_inv (c\<lparr>c_tcp_sessions :=
      hm_insert key (t\<lparr>ts_last_activity := now\<rparr>) (c_tcp_sessions c)\<rparr>)"
proof -
  note D = tcp_invD [OF inv]
  show ?thesis
  proof (rule tcp_invI, goal_cases)
    case (1 n r)
    with D(1) show ?case by (simp add: reader_ok_def)
  next
    case (2 k s)
    with D(2) t show ?case by (auto split: if_splits)
  next
    case (3 k s)
    with D(3) t show ?case by (auto split: if_splits)
  next
    case (4 k k' s s')
    with D(4) t show ?case by (auto split: if_splits)
  next
    case (5 n)
    with D(5) show ?case by simp
  qed
qed

lemma get_or_create_tcp_session_cases:
  obtains (found) t where "hm_get (c_tcp_sessions c) key = Some t"
      "get_or_create_tcp_session now ok c a key = ((Some t, False), c)"
  | (failed) "hm_get (c_tcp_sessions c) key = None" "\<not> ok"
      "get_or_create_tcp_session now ok c a key = ((None, False), c)"
  | (opened) "hm_get (c_tcp_sessions c) key = None" "ok"
      "get_or_create_tcp_session now ok c a key =
        ((Some \<lparr>ts_writer = c_next_conn c, ts_last_activity = now\<rparr>, True),
         c\<lparr>c_next_conn := Suc (c_next_conn c),
           c_tcp_sessions := hm_insert key \<lparr>ts_writer = c_next_conn c, ts_last_activity = now\<rparr>
             (c_tcp_sessions c),
           c_readers := hm_insert (c_next_conn c) \<lparr>tr_source = a, tr_key = key\<rparr> (c_readers c)\<rparr>)"
proof (cases "hm_get (c_tcp_sessions c) key")
  case (Some t)
  then show ?thesis by (intro found) (simp_all add: get_or_create_tcp_session_def)
next
  case None
  show ?thesis
  proof (cases ok)
    case True
    with None show ?thesis
      by (intro opened) (simp_all add: get_or_create_tcp_session_def Let_def)
  next
    case False
    with None show ?thesis
      by (intro failed) (simp_all add: get_or_create_tcp_session_def)
  qed
qed

lemma tcp_inv_endpoint:
  assumes inv: "tcp_inv c" and ep: "ep \<in> set (cc_servers (c_cfg c))"
  shows "tcp_inv (snd (tcp_endpoint now ok a sid sq pl ep c))"
proof (cases "ep_protocol ep = Tcp")
  case False
  with inv show ?thesis by (simp add: tcp_endpoint_def)
next
  case True
  let ?key = "session_key a (ep_address ep)"
  show ?thesis
  proof (cases rule: get_or_create_tcp_session_cases [of c ?key now ok a])
    case (found t)
    with True tcp_inv_touch [OF inv found(1)] show ?thesis
      by (simp add: tcp_endpoint_def Let_def)
  next
    case failed
    with True inv show ?thesis by (simp add: tcp_endpoint_def Let_def)
  next
    case opened
    with True tcp_inv_open [OF inv ep True refl opened(1), of now]
    show ?thesis by (simp add: tcp_endpoint_def Let_def)
  qed
qed

lemma tcp_inv_handle_tcp_transport:
  assumes "tcp_inv c"
  shows "tcp_inv (snd (handle_tcp_transport now connects c a sid sq pl))"
proof -
  have "tcp_inv (snd (tcp_transport_loop now connects a sid sq pl 0 (cc_servers (c_cfg c)) c))
      \<and> c_cfg (snd (tcp_transport_loop now connects a sid sq pl 0 (cc_servers (c_cfg c)) c)) = c_cfg c"
    by (rule tcp_transport_loop_preserves)
      (use assms in \<open>auto simp: tcp_endpoint_frame intro!: tcp_inv_endpoint\<close>)
  then show ?thesis by (simp add: handle_tcp_transport_def)
qed

lemma tcp_inv_cleanup:
  assumes inv: "tcp_inv c"
  shows "tcp_inv (cleanup_tcp_session key c)"
proof (cases "hm_get (c_tcp_sessions c) key")
  case None
  with inv show ?thesis by (simp add: cleanup_tcp_session_def)
next
  case (Some t)
  note D = tcp_invD [OF inv]
  show ?thesis
    unfolding cleanup_tcp_session_def Some option.case
  proof (rule tcp_invI, goal_cases)
    case (1 n r)
    with D(1) show ?case by (simp add: reader_ok_def)
  next
    case (2 k s)
    with D(2) D(4) [OF _ Some] show ?case by (auto split: if_splits)
  next
    case (3 k s)
    with D(3) show ?case by (auto split: if_splits)
  next
    case (4 k k' s s')
    with D(4) show ?case by (auto split: if_splits)
  next
    case (5 n)
    with D(5) D(2) [OF Some] show ?case by auto
  qed
qed

text \<open>A reader may go when no session in the map has its connection, or when the client stops.\<close>

lemma tcp_inv_end_reader:
  assumes inv: "tcp_inv c"
    and free: "c_cancelled c \<or> (\<forall>key t. hm_get (c_tcp_sessions c) key = Some t \<longrightarrow> ts_writer t \<noteq> n)"
  shows "tcp_inv (end_reader n c)"
proof -
  note D = tcp_invD [OF inv]
  show ?thesis
    unfolding end_reader_def
  proof (rule tcp_invI, goal_cases)
    case (1 m r)
    with D(1) show ?case by (auto simp: reader_ok_def split: if_splits)
  next
    case (2 k t)
    with D(2) show ?case by simp
  next
    case (3 k t)
    with D(3) [of k t] free show ?case by auto
  next
    case (4 k k' t t')
    with D(4) show ?case by simp
  next
    case (5 m)
    with D(5) show ?case by simp
  qed
qed

lemma tcp_inv_sweep:
  assumes inv: "tcp_inv c"
  shows "tcp_inv (cleanup_expired_sessions now c)"
proof -
  note D = tcp_invD [OF inv]
  show ?thesis
  proof (rule tcp_invI, goal_cases)
    case (1 n r)
    with D(1) show ?case by (simp add: sweep_frame reader_ok_def)
  next
    case (2 k t)
    then have t: "hm_get (c_tcp_sessions c) k = Some t"
      and "\<not> expired now (cc_session_timeout (c_cfg c)) (ts_last_activity t)"
      by (simp_all add: sweep_tcp_sessions)
    with D(2) [OF t] D(4) [OF t] show ?case
      by (auto simp: sweep_cancelled_conns sweep_frame)
  next
    case (3 k t)
    with D(3) show ?case by (simp add: sweep_tcp_sessions sweep_frame)
  next
    case (4 k k' t t')
    with D(4) show ?case by (simp add: sweep_tcp_sessions)
  next
    case (5 n)
    with D(2,5) show ?case by (auto simp: sweep_cancelled_conns sweep_frame)
  qed
qed

lemma tcp_inv_handle_packet:
  assumes "tcp_inv c"
  shows "tcp_inv (snd (handle_packet now r connects c a pl))"
proof -
  obtain s c1 where g: "get_or_create_udp_session now r c a = (s, c1)"
    by (cases "get_or_create_udp_session now r c a")
  let ?s = "s\<lparr>us_seq := us_seq s + 1, us_last_activity := now\<rparr>"
  let ?c2 = "c1\<lparr>c_udp_sessions := hm_insert a ?s (c_udp_sessions c1)\<rparr>"
  have "tcp_inv ?c2"
    using get_or_create_udp_session_frame [of now r c a]
    by (intro tcp_inv_same [OF assms]) (simp_all add: g)
  then show ?thesis
    by (simp add: handle_packet_def g Let_def case_prod_beta tcp_inv_handle_tcp_transport)
qed

lemma tcp_inv_deliver: "tcp_inv c \<Longrightarrow> tcp_inv (snd (deliver now c a seq pl))"
  by (erule tcp_inv_same) simp_all

lemma tcp_inv_handle:
  assumes inv: "tcp_inv c" and enabled: "client_enabled c e"
  shows "tcp_inv (snd (client_handle e c))"
proof (cases e)
  case (Packet now r connects a pl)
  with inv show ?thesis by (simp add: client_handle_def tcp_inv_handle_packet)
next
  case (UdpResponse now sock data)
  with inv show ?thesis
    by (auto simp: client_handle_def process_udp_response_eq tcp_inv_deliver
        split: sum.split option.split)
next
  case (TcpResponse now n data)
  with inv show ?thesis
    by (auto simp: client_handle_def process_tcp_response_eq tcp_inv_deliver
        split: sum.split option.split)
next
  case (TcpReaderEnds n)
  show ?thesis
  proof (cases "hm_get (c_readers c) n")
    case None
    with inv TcpReaderEnds show ?thesis by (simp add: client_handle_def)
  next
    case (Some r)
    have "ts_writer t \<noteq> n"
      if "\<not> c_cancelled c" "hm_get (c_tcp_sessions (cleanup_tcp_session (tr_key r) c)) k = Some t" for k t
    proof -
      have t: "hm_get (c_tcp_sessions c) k = Some t" "k \<noteq> tr_key r"
        using that(2) by (auto simp: cleanup_tcp_session_def split: option.splits if_splits)
      with tcp_invD(3) [OF inv t(1) that(1)] Some show ?thesis by auto
    qed
    then have "tcp_inv (end_reader n (cleanup_tcp_session (tr_key r) c))"
      by (intro tcp_inv_end_reader tcp_inv_cleanup inv) (auto simp: cleanup_tcp_session_frame)
    with Some TcpReaderEnds show ?thesis by (simp add: client_handle_def)
  qed
next
  case (TcpReaderCancelled n)
  with inv enabled show ?thesis
    by (auto simp: client_handle_def client_enabled_def dest: tcp_invD(2)
        intro!: tcp_inv_end_reader)
next
  case (CleanupTick now)
  with inv show ?thesis by (simp add: client_handle_def tcp_inv_sweep)
next
  case Stop
  with inv show ?thesis
    by (simp add: client_handle_def client_stop_def tcp_inv_def reader_ok_def)
next
  case (TaskReturns t)
  show ?thesis
    unfolding client_handle_def TaskReturns
    by (rule tcp_inv_same [OF inv]) simp_all
qed

interpretation client_tcp: event_system client_enabled client_handle "\<lambda>n. tcp_inv" event_limit
  by unfold_locales (rule tcp_inv_handle)

section \<open>Starting\<close>

lemma open_senders_frame:
  fixes os i eps c
  defines "c' \<equiv> snd (open_senders os i eps c)"
  shows "c_cfg c' = c_cfg c \<and> c_cancelled c' = c_cancelled c \<and> c_listener c' = c_listener c \<and>
    c_session_id_counter c' = c_session_id_counter c \<and> c_udp_sessions c' = c_udp_sessions c \<and>
    c_udp_session_addrs c' = c_udp_session_addrs c \<and> c_tcp_sessions c' = c_tcp_sessions c \<and>
    c_readers c' = c_readers c \<and> c_cancelled_conns c' = c_cancelled_conns c \<and>
    c_next_conn c' = c_next_conn c"
  unfolding c'_def
  by (induction os i eps c rule: open_senders.induct) (simp_all split: sum.split)

lemma client_start_frame:
  fixes os c
  defines "c' \<equiv> snd (client_start os c)"
  shows "c_cfg c' = c_cfg c" "c_cancelled c' = c_cancelled c"
    "c_session_id_counter c' = c_session_id_counter c" "c_udp_sessions c' = c_udp_sessions c"
    "c_udp_session_addrs c' = c_udp_session_addrs c" "c_tcp_sessions c' = c_tcp_sessions c"
    "c_readers c' = c_readers c" "c_cancelled_conns c' = c_cancelled_conns c"
    "c_next_conn c' = c_next_conn c"
proof -
  obtain res c1 where o: "open_senders os 0 (cc_servers (c_cfg c)) c = (res, c1)"
    by (cases "open_senders os 0 (cc_servers (c_cfg c)) c")
  note f = open_senders_frame [of os 0 "cc_servers (c_cfg c)" c, unfolded o snd_conv]
  show "c_cfg c' = c_cfg c" "c_cancelled c' = c_cancelled c"
    "c_session_id_counter c' = c_session_id_counter c" "c_udp_sessions c' = c_udp_sessions c"
    "c_udp_session_addrs c' = c_udp_session_addrs c" "c_tcp_sessions c' = c_tcp_sessions c"
    "c_readers c' = c_readers c" "c_cancelled_conns c' = c_cancelled_conns c"
    "c_next_conn c' = c_next_conn c"
    unfolding c'_def client_start_def o by (simp_all add: f split: sum.split)
qed

text \<open>
  The client as \<open>main\<close> makes it: created, then started. When \<open>start\<close> fails this is the state it
  leaves, with the tasks spawned so far; what is proved of all started clients holds of it too, and
  theory \<open>Program\<close> tells the two cases apart (\<open>sockets_ok\<close>).
\<close>

definition client_started :: "u64 \<Rightarrow> client_config \<Rightarrow> client_sockets \<Rightarrow> client" where
  "client_started random cfg os = snd (client_start os (client_new random cfg))"

lemma client_started_frame [simp]:
  "c_cfg (client_started r cfg os) = cfg"
  "c_cancelled (client_started r cfg os) = False"
  "c_udp_sessions (client_started r cfg os) = hm_new"
  "c_tcp_sessions (client_started r cfg os) = hm_new"
  by (simp_all add: client_started_def client_start_frame client_new_def)

lemma ids_inv_started: "ids_inv r 0 (client_started r cfg os)"
  by (simp add: ids_inv_def client_started_def client_start_frame client_new_def issued_def)

lemma tcp_inv_started: "tcp_inv (client_started r cfg os)"
  by (simp add: tcp_inv_def client_started_def client_start_frame client_new_def)

lemma reachable_ids_inv:
  assumes "client_run (client_started r cfg os) es outs c" and "length es \<le> event_limit"
  shows "ids_inv r (length es) c"
  using client_ids.inv_along [OF assms(1) ids_inv_started] assms(2) by simp

lemma reachable_tcp_inv:
  assumes "client_run (client_started r cfg os) es outs c" and "length es \<le> event_limit"
  shows "tcp_inv c"
  using client_tcp.inv_along [where n = 0, OF assms(1) tcp_inv_started] assms(2) by simp

section \<open>The reading loop as a run\<close>

lemma process_tcp_response_readers [simp]:
  "c_readers (snd (process_tcp_response now c a data)) = c_readers c"
  by (simp add: process_tcp_response_eq split: sum.split)

text \<open>
  Reading a stream to its end is a run of one event per frame and one for the end: the loop has
  no step that the events do not have.
\<close>

lemma reader_loop_is_run:
  assumes "hm_get (c_readers c) n = Some \<lparr>tr_source = a, tr_key = key\<rparr>"
  shows "client_run c (map (TcpResponse now n) (fst (read_frames st)) @ [TcpReaderEnds n])
    (fst (handle_tcp_server_response now c a key st))
    (end_reader n (snd (handle_tcp_server_response now c a key st)))"
  using assms
proof (induction now c a key st rule: handle_tcp_server_response.induct)
  case (1 now c a key st)
  show ?case
  proof (cases "read_frame st")
    case (Inl x)
    have "client_run c [TcpReaderEnds n] [] (end_reader n (cleanup_tcp_session key c))"
      by (rule run_single) (simp_all add: client_enabled_def client_handle_def "1.prems")
    then show ?thesis
      by (simp add: handle_tcp_server_response.simps [of now c a key st] read_frames.simps [of st] Inl)
  next
    case (Inr r)
    obtain data st' where r: "r = (data, st')" by (cases r)
    let ?p = "process_tcp_response now c a data"
    let ?rest = "map (TcpResponse now n) (fst (read_frames st')) @ [TcpReaderEnds n]"
    have "client_run (snd ?p) ?rest
        (fst (handle_tcp_server_response now (snd ?p) a key st'))
        (end_reader n (snd (handle_tcp_server_response now (snd ?p) a key st')))"
      using "1.prems" by (intro "1.IH" [OF Inr r [symmetric] refl prod.collapse]) simp
    moreover have step: "client_handle (TcpResponse now n data) c = ?p"
      by (simp add: client_handle_def "1.prems")
    moreover have "client_enabled c (TcpResponse now n data)"
      using read_frame_frameable [of st data st'] Inr r "1.prems" by (simp add: client_enabled_def)
    ultimately have "client_run c (TcpResponse now n data # ?rest)
        (fst (client_handle (TcpResponse now n data) c)
          @ fst (handle_tcp_server_response now (snd ?p) a key st'))
        (end_reader n (snd (handle_tcp_server_response now (snd ?p) a key st')))"
      by (intro run_step) simp_all
    then show ?thesis
      by (simp add: handle_tcp_server_response.simps [of now c a key st] read_frames.simps [of st]
          Inr r step case_prod_beta)
  qed
qed

end
