(* ===== verification/Tasks.thy ===== *)
theory Tasks
  imports Sessions
begin

text \<open>
  Tasks that interleave: each has at most one handler in progress, a step takes one task a
  little further, and a task that needs a lock waits while another holds it. The locale
  \<open>task_system\<close> states what client and server share: every step gets the tasks closer to their
  end, a holder of a lock never waits, and a lock is only taken when it is free. From this
  it follows once that handlers end, that they never all wait, and that locks exclude.
\<close>

section \<open>Totals over busy workers\<close>

definition total :: "('h \<Rightarrow> nat) \<Rightarrow> ('w \<Rightarrow> 'h option) \<Rightarrow> nat" where
  "total f p = (\<Sum>w \<in> dom p. f (the (p w)))"

lemma total_update:
  assumes "finite (dom p)" and "p w = Some h"
  shows "total f (p(w := h')) + f h = total f p + (case h' of None \<Rightarrow> 0 | Some k \<Rightarrow> f k)"
proof -
  have "total f p = f h + (\<Sum>v \<in> dom p - {w}. f (the (p v)))"
    unfolding total_def using assms by (subst sum.remove [of _ w]) auto
  moreover have "total f (p(w := h')) = (case h' of None \<Rightarrow> 0 | Some k \<Rightarrow> f k)
      + (\<Sum>v \<in> dom p - {w}. f (the (p v)))"
  proof (cases h')
    case None
    have "dom (p(w := None)) = dom p - {w}" by auto
    with None show ?thesis unfolding total_def by (auto intro: sum.cong)
  next
    case (Some k)
    have "dom (p(w \<mapsto> k)) = insert w (dom p - {w})" using assms(2) by auto
    moreover have "(\<Sum>v \<in> dom p - {w}. f (the ((p(w \<mapsto> k)) v))) = (\<Sum>v \<in> dom p - {w}. f (the (p v)))"
      by (rule sum.cong) auto
    ultimately show ?thesis using Some assms(1) unfolding total_def by (simp add: sum.insert_remove)
  qed
  ultimately show ?thesis by simp
qed

lemma total_mono: "(\<And>h. f h \<le> g h) \<Longrightarrow> total f p \<le> total g p"
  unfolding total_def by (rule sum_mono) simp

section \<open>Tasks at a place\<close>

definition tasks_at :: "('w \<Rightarrow> 'h option) \<Rightarrow> ('h \<Rightarrow> bool) \<Rightarrow> 'w set" where
  "tasks_at p P = {w. \<exists>h. p w = Some h \<and> P h}"

lemma finite_tasks_at [simp]: "finite (dom p) \<Longrightarrow> finite (tasks_at p P)"
  by (rule finite_subset [of _ "dom p"]) (auto simp: tasks_at_def)

lemma tasks_at_update:
  "tasks_at (p(w := h')) P =
     (if \<exists>k. h' = Some k \<and> P k then insert w (tasks_at p P) else tasks_at p P - {w})"
  by (auto simp: tasks_at_def)

lemma in_tasks_at: "p w = Some h \<Longrightarrow> w \<in> tasks_at p P \<longleftrightarrow> P h"
  by (simp add: tasks_at_def)

text \<open>When one task moves from \<open>h\<close> to \<open>h'\<close> the number of tasks at a place changes by theirs.\<close>

lemma card_tasks_at:
  assumes "finite (dom p)" and "p w = Some h"
  shows "card (tasks_at (p(w := h')) P) + (if P h then 1 else 0) =
    card (tasks_at p P) + (case h' of None \<Rightarrow> 0 | Some k \<Rightarrow> if P k then 1 else 0)"
proof -
  have fin: "finite (tasks_at p P)" using assms(1) by simp
  have w: "w \<in> tasks_at p P \<longleftrightarrow> P h" by (rule in_tasks_at [of p w h P, OF assms(2)])
  have "Suc (card (tasks_at p P) - Suc 0) = card (tasks_at p P)" if "w \<in> tasks_at p P"
    using card_Suc_Diff1 [OF fin that] fin that by (simp add: card_Diff_singleton)
  with fin w show ?thesis
    by (cases h') (auto simp: tasks_at_update card_insert_if card_Diff_singleton_if split: if_splits)
qed

lemma card_tasks_at_start:
  assumes "finite (dom p)" and "p w = None"
  shows "card (tasks_at (p(w \<mapsto> h)) P) = card (tasks_at p P) + (if P h then 1 else 0)"
proof -
  have "w \<notin> tasks_at p P" using assms(2) by (simp add: tasks_at_def)
  with assms(1) show ?thesis by (simp add: tasks_at_update)
qed

section \<open>Locks\<close>

text \<open>\<open>pending s w\<close> is what task \<open>w\<close> is at, \<open>holds h l\<close> that a task at \<open>h\<close> holds the lock \<open>l\<close>.\<close>

definition locked :: "('s \<Rightarrow> 'w \<Rightarrow> 'h option) \<Rightarrow> ('h \<Rightarrow> 'l \<Rightarrow> bool) \<Rightarrow> 's \<Rightarrow> 'l \<Rightarrow> bool" where
  "locked pending holds s l \<longleftrightarrow> (\<exists>w h. pending s w = Some h \<and> holds h l)"

definition exclusive :: "('s \<Rightarrow> 'w \<Rightarrow> 'h option) \<Rightarrow> ('h \<Rightarrow> 'l \<Rightarrow> bool) \<Rightarrow> 's \<Rightarrow> bool" where
  "exclusive pending holds s \<longleftrightarrow>
     (\<forall>v w h k l. pending s v = Some h \<and> pending s w = Some k \<and> holds h l \<and> holds k l \<longrightarrow> v = w)"

text \<open>At most one task moves, and a lock it did not hold before was free.\<close>

definition moves ::
    "('s \<Rightarrow> 'w \<Rightarrow> 'h option) \<Rightarrow> ('h \<Rightarrow> 'l \<Rightarrow> bool) \<Rightarrow> 's \<Rightarrow> 'w \<Rightarrow> 's \<Rightarrow> bool" where
  "moves pending holds s w s' \<longleftrightarrow>
     (\<forall>v. v \<noteq> w \<longrightarrow> pending s' v = pending s v) \<and>
     (\<forall>k l. pending s' w = Some k \<and> holds k l \<longrightarrow>
        (\<exists>h. pending s w = Some h \<and> holds h l) \<or> \<not> locked pending holds s l)"

lemma moves_exclusive:
  assumes "exclusive pending holds s" and "moves pending holds s w s'"
  shows "exclusive pending holds s'"
  unfolding exclusive_def
proof (intro allI impI)
  fix v u h k l
  assume A: "pending s' v = Some h \<and> pending s' u = Some k \<and> holds h l \<and> holds k l"
  have other: "x = w \<or> (\<exists>h. pending s x = Some h \<and> holds h l)"
    if "pending s' x = Some h" "holds h l" for x h
    using assms(2) that by (auto simp: moves_def)
  have self: "(\<exists>h. pending s w = Some h \<and> holds h l) \<or> \<not> locked pending holds s l"
    if "pending s' w = Some h" "holds h l" for h
    using assms(2) that by (auto simp: moves_def)
  show "v = u"
    using assms(1) A other [of v h] other [of u k] self [of h] self [of k]
    unfolding exclusive_def locked_def by metis
qed

section \<open>Handlers that run alone\<close>

text \<open>No other task is busy; and from a state some events, with these outputs, lead to an idle one.\<close>

definition solo_in :: "('s \<Rightarrow> 'w \<Rightarrow> 'h option) \<Rightarrow> 'w \<Rightarrow> 's \<Rightarrow> bool" where
  "solo_in pending w s \<longleftrightarrow> (\<forall>v. v \<noteq> w \<longrightarrow> pending s v = None)"

definition finishes_in ::
    "('s \<Rightarrow> 'e \<Rightarrow> bool) \<Rightarrow> ('e \<Rightarrow> 's \<Rightarrow> 'o list \<times> 's) \<Rightarrow> ('s \<Rightarrow> 'w \<Rightarrow> 'h option)
       \<Rightarrow> 's \<Rightarrow> 'o list \<Rightarrow> ('s \<Rightarrow> bool) \<Rightarrow> bool" where
  "finishes_in enabled handle pending s outs P \<longleftrightarrow>
     (\<exists>es s'. run enabled handle s es outs s' \<and> pending s' = (\<lambda>_. None) \<and> P s')"

lemma solo_idle: "pending s = (\<lambda>_. None) \<Longrightarrow> solo_in pending w s"
  by (simp add: solo_in_def)

lemma solo_at: "solo_in pending w s \<Longrightarrow> pending s w = Some h \<Longrightarrow> pending s = [w \<mapsto> h]"
  by (auto simp: solo_in_def fun_eq_iff)

lemma finishes_in_idle:
  "pending s = (\<lambda>_. None) \<Longrightarrow> P s \<Longrightarrow> finishes_in enabled handle pending s [] P"
  unfolding finishes_in_def by (intro exI [of _ "[]"] exI [of _ s]) simp

lemma finishes_in_event:
  assumes "enabled s e" and "handle e s = (os, s1)" and "finishes_in enabled handle pending s1 outs P"
  shows "finishes_in enabled handle pending s (os @ outs) P"
proof -
  from assms(3) obtain es s' where "run enabled handle s1 es outs s'" "pending s' = (\<lambda>_. None)" "P s'"
    by (auto simp: finishes_in_def)
  with run_step [of enabled s e handle es outs s'] assms(1,2)
  have "run enabled handle s (e # es) (os @ outs) s'" by simp
  with \<open>pending s' = (\<lambda>_. None)\<close> \<open>P s'\<close> show ?thesis unfolding finishes_in_def by blast
qed

section \<open>The contract\<close>

locale task_system =
  fixes enabled :: "'s \<Rightarrow> 'e \<Rightarrow> bool"
    and handle :: "'e \<Rightarrow> 's \<Rightarrow> 'o list \<times> 's"
    and pending :: "'s \<Rightarrow> 'w \<Rightarrow> 'h option"
    and step :: "'w \<Rightarrow> 'i \<Rightarrow> 'e"
    and holds :: "'h \<Rightarrow> 'l \<Rightarrow> bool"
    and needs :: "'h \<Rightarrow> 'l \<Rightarrow> bool"
    and work :: "'s \<Rightarrow> nat \<times> nat"
  assumes step_enabled: "enabled s (step w i) \<longleftrightarrow>
      (\<exists>h. pending s w = Some h \<and> (\<forall>l. needs h l \<longrightarrow> \<not> locked pending holds s l))"
    and step_works: "enabled s (step w i) \<Longrightarrow>
      (work (snd (handle (step w i) s)), work s) \<in> less_than <*lex*> less_than"
    and holder_goes_on: "holds h l \<Longrightarrow> \<not> needs h m"
    and one_moves: "enabled s e \<Longrightarrow> \<exists>w. moves pending holds s w (snd (handle e s))"
begin

lemma steps_wf: "wf {(s', s). \<exists>w i. enabled s (step w i) \<and> s' = snd (handle (step w i) s)}"
  by (rule wf_subset [OF wf_inv_image [OF wf_lex_prod [OF wf_less_than wf_less_than], of work]])
    (auto simp: step_works)

text \<open>Somebody can go on as long as anyone is busy.\<close>

lemma busy_can_step:
  assumes "pending s w = Some h"
  shows "\<exists>v. enabled s (step v i)"
proof (cases "\<exists>v k l. pending s v = Some k \<and> holds k l")
  case True
  then obtain v k l where "pending s v = Some k" "holds k l" by blast
  then show ?thesis by (intro exI [of _ v]) (simp add: step_enabled holder_goes_on)
next
  case False
  then have "\<not> locked pending holds s l" for l by (simp add: locked_def)
  with assms show ?thesis by (intro exI [of _ w]) (simp add: step_enabled)
qed

lemma steps_drain:
  "\<exists>es os s'. run enabled handle s es os s' \<and> list_all (\<lambda>e. \<exists>w i. e = step w i) es \<and>
     pending s' = (\<lambda>_. None)"
proof (induction s rule: wf_induct_rule [OF steps_wf])
  case (1 s)
  show ?case
  proof (cases "pending s = (\<lambda>_. None)")
    case True
    then show ?thesis by (intro exI [of _ "[]"]) auto
  next
    case False
    then obtain w h where "pending s w = Some h" by (auto simp: fun_eq_iff)
    from busy_can_step [OF this] obtain v i where v: "enabled s (step v i)" by blast
    with 1 obtain es os s' where "run enabled handle (snd (handle (step v i) s)) es os s'"
        "list_all (\<lambda>e. \<exists>w i. e = step w i) es" "pending s' = (\<lambda>_. None)" by blast
    from run_step [OF v this(1)] this(2,3) show ?thesis
      by (intro exI [of _ "step v i # es"] exI [of _ s'] exI conjI) auto
  qed
qed

lemma exclusive_along:
  "run enabled handle s es os s' \<Longrightarrow> exclusive pending holds s \<Longrightarrow> exclusive pending holds s'"
proof (induction rule: run.induct)
  case (run_Nil s)
  then show ?case by simp
next
  case (run_snoc s es os s1 e os' s2)
  then have "exclusive pending holds s1" by simp
  moreover obtain w where "moves pending holds s1 w s2"
    using one_moves [OF run_snoc.hyps(2)] run_snoc.hyps(3) by auto
  ultimately show ?case by (rule moves_exclusive)
qed

text \<open>A task that is alone need not wait.\<close>

lemma alone_step:
  assumes solo: "solo_in pending w s" and h: "pending s w = Some h"
    and step: "handle (step w i) s = (os, s1)" and rest: "finishes_in enabled handle pending s1 outs P"
  shows "finishes_in enabled handle pending s (os @ outs) P"
proof (rule finishes_in_event [OF _ step rest])
  have "\<not> locked pending holds s l" if "needs h l" for l
    using that holder_goes_on [of h l l] h solo_at [OF solo h] unfolding locked_def
    by (auto dest: holder_goes_on split: if_splits)
  with h show "enabled s (step w i)" unfolding step_enabled by blast
qed

text \<open>A task that needs a lock waits for its holder.\<close>

lemma waits:
  assumes "pending s v = Some h" and "holds h l" and "pending s w = Some k" and "needs k l"
  shows "\<not> enabled s (step w i)"
  using assms by (auto simp: step_enabled locked_def)

end

end
