(* ===== verification/Client_Async.thy ===== *)
theory Client_Async
  imports Client_Correct Tasks
begin

text \<open>
  The client's tasks as they interleave, as theory \<open>Server_Async\<close> does it for the server: every
  \<open>await\<close> at which another task can see or change shared state is a step of its own. The listener
  handles one packet after another; meanwhile responses come in over each UDP socket and each TCP
  connection, and the cleanup timer runs. Sessions are objects that handlers share and go on
  using after the maps have dropped them.

  Two locks are held over awaits that others wait for: that of \<open>udp_sessions\<close> while a new session
  is entered in the reverse map and during the first half of the sweep, that of \<open>tcp_sessions\<close>
  while a connection is made and during the second half. Three more are held over a send: the
  read locks of \<open>udp_senders\<close> and \<open>listener\<close>, which nothing takes for writing after the start, and
  the mutex of a TCP writer. A send is one step here, so that frames on one connection exclude
  each other; how long a task waits for that mutex is not modelled.
\<close>

section \<open>State\<close>

text \<open>A session object is named by its source and a serial number, a TCP session by its connection.\<close>

type_synonym session_name = "socket_addr \<times> nat"

datatype client_worker = AtListener | AtUdpServer socket | AtReader conn | AtCleanup

text \<open>
  Where a busy task is: the handling of a packet, of a response, the end of a reader, and the two
  halves of the sweep, each with the values it holds.
\<close>

datatype client_handler =
    FindSession socket_addr bytes
  | NewSession socket_addr bytes
  | AddSource session_name bytes
  | TakeNumber session_name bytes
  | TouchSession session_name u32 bytes
  | SendUdp session_name u32 bytes "socket list"
  | FindTcp session_name u32 bytes "endpoint list"
  | NewTcp session_name u32 bytes endpoint "endpoint list"
  | OpenTcp session_name u32 bytes endpoint "endpoint list"
  | TouchTcp session_name u32 bytes conn "endpoint list"
  | WriteTcp session_name u32 bytes conn "endpoint list"
  | FindSource u64 u32 bytes
  | FindReceiver socket_addr u32 bytes
  | CheckResponse socket_addr session_name u32 bytes
  | TouchReceiver socket_addr session_name bytes
  | Deliver socket_addr bytes
  | CloseTcp string
  | ScanUdp instant "(socket_addr \<times> session_name) list" "(socket_addr \<times> u64) list"
  | SweepUdp instant "(socket_addr \<times> u64) list"
  | SweepSource instant u64 "(socket_addr \<times> u64) list"
  | LockTcp instant
  | ScanTcp instant "(string \<times> conn) list" "string list"

text \<open>
  \<open>ca_udp_sessions\<close> and \<open>ca_tcp_sessions\<close> are the maps behind the locks, the two stores hold the
  objects. \<open>ca_base\<close> has the rest of the client's state; its own tables of sessions are not used.
\<close>

record async_client =
  ca_base :: client
  ca_udp_sessions :: "(socket_addr, session_name) hash_map"
  ca_udp_store :: "(session_name, udp_session) hash_map"
  ca_next_session :: nat
  ca_tcp_sessions :: "(string, conn) hash_map"
  ca_tcp_store :: "(conn, tcp_session) hash_map"
  ca_pending :: "(client_worker, client_handler) hash_map"

definition client_async_new :: "client \<Rightarrow> async_client" where
  "client_async_new c =
     \<lparr>ca_base = c, ca_udp_sessions = hm_new, ca_udp_store = hm_new, ca_next_session = 0,
      ca_tcp_sessions = hm_new, ca_tcp_store = hm_new, ca_pending = hm_new\<rparr>"

definition proceed :: "client_worker \<Rightarrow> client_handler \<Rightarrow> async_client \<Rightarrow> async_client" where
  "proceed w h s = s\<lparr>ca_pending := hm_insert w h (ca_pending s)\<rparr>"

definition finish :: "client_worker \<Rightarrow> async_client \<Rightarrow> async_client" where
  "finish w s = s\<lparr>ca_pending := hm_remove w (ca_pending s)\<rparr>"

text \<open>Updates of shared objects.\<close>

definition modify_udp ::
    "session_name \<Rightarrow> (udp_session \<Rightarrow> udp_session) \<Rightarrow> async_client \<Rightarrow> async_client" where
  "modify_udp k f s =
     (case hm_get (ca_udp_store s) k of
        None \<Rightarrow> s
      | Some us \<Rightarrow> s\<lparr>ca_udp_store := hm_insert k (f us) (ca_udp_store s)\<rparr>)"

definition modify_tcp ::
    "conn \<Rightarrow> (tcp_session \<Rightarrow> tcp_session) \<Rightarrow> async_client \<Rightarrow> async_client" where
  "modify_tcp n f s =
     (case hm_get (ca_tcp_store s) n of
        None \<Rightarrow> s
      | Some ts \<Rightarrow> s\<lparr>ca_tcp_store := hm_insert n (f ts) (ca_tcp_store s)\<rparr>)"

section \<open>The steps of a packet\<close>

text \<open>\<open>get_or_create_udp_session\<close>: under the read lock, then under the write lock.\<close>

definition find_session_step ::
    "client_worker \<Rightarrow> socket_addr \<Rightarrow> bytes \<Rightarrow> async_client \<Rightarrow> async_client" where
  "find_session_step w a pl s =
     (case hm_get (ca_udp_sessions s) a of
        Some k \<Rightarrow> proceed w (TakeNumber k pl) s
      | None \<Rightarrow> proceed w (NewSession a pl) s)"

definition new_session_step ::
    "client_worker \<Rightarrow> instant \<Rightarrow> u32 \<Rightarrow> socket_addr \<Rightarrow> bytes \<Rightarrow> async_client \<Rightarrow> async_client" where
  "new_session_step w now random a pl s =
     (case hm_get (ca_udp_sessions s) a of
        Some k \<Rightarrow> proceed w (TakeNumber k pl) s
      | None \<Rightarrow>
          let counter1 = c_session_id_counter (ca_base s) + 1;
              (session_id, counter2) =
                (if counter1 = 0 then (counter1 + 1, counter1 + 1) else (counter1, counter1));
              initial_seq = random mod ((2 ^ 32 - 1) div 2);
              session = \<lparr>us_session_id = session_id, us_seq = initial_seq, us_last_activity = now,
                         us_response_dedup = response_window_new DEFAULT_RESPONSE_DEDUP_SIZE\<rparr>;
              k = (a, ca_next_session s)
          in proceed w (AddSource k pl)
               (s\<lparr>ca_base := (ca_base s)\<lparr>c_session_id_counter := counter2\<rparr>,
                  ca_next_session := Suc (ca_next_session s),
                  ca_udp_sessions := hm_insert a k (ca_udp_sessions s),
                  ca_udp_store := hm_insert k session (ca_udp_store s)\<rparr>))"

definition add_source_step ::
    "client_worker \<Rightarrow> session_name \<Rightarrow> bytes \<Rightarrow> async_client \<Rightarrow> async_client" where
  "add_source_step w k pl s =
     (case hm_get (ca_udp_store s) k of
        None \<Rightarrow> finish w s
      | Some us \<Rightarrow>
          proceed w (TakeNumber k pl)
            (s\<lparr>ca_base := (ca_base s)\<lparr>c_udp_session_addrs :=
                 hm_insert (us_session_id us) (fst k) (c_udp_session_addrs (ca_base s))\<rparr>\<rparr>))"

text \<open>\<open>handle_packet\<close>: the number, the time, then each sender, then each TCP endpoint.\<close>

definition take_number_step ::
    "client_worker \<Rightarrow> session_name \<Rightarrow> bytes \<Rightarrow> async_client \<Rightarrow> async_client" where
  "take_number_step w k pl s =
     (case hm_get (ca_udp_store s) k of
        None \<Rightarrow> finish w s
      | Some us \<Rightarrow>
          proceed w (TouchSession k (us_seq us) pl) (modify_udp k (\<lambda>us. us\<lparr>us_seq := us_seq us + 1\<rparr>) s))"

definition touch_session_step ::
    "client_worker \<Rightarrow> instant \<Rightarrow> session_name \<Rightarrow> u32 \<Rightarrow> bytes \<Rightarrow> async_client \<Rightarrow> async_client" where
  "touch_session_step w now k q pl s =
     proceed w (SendUdp k q pl (c_udp_senders (ca_base s)))
       (modify_udp k (\<lambda>us. us\<lparr>us_last_activity := now\<rparr>) s)"

fun send_udp_step ::
    "client_worker \<Rightarrow> session_name \<Rightarrow> u32 \<Rightarrow> bytes \<Rightarrow> socket list \<Rightarrow> async_client
       \<Rightarrow> client_output list \<times> async_client" where
  "send_udp_step w k q pl [] s = ([], proceed w (FindTcp k q pl (cc_servers (c_cfg (ca_base s)))) s)"
| "send_udp_step w k q pl (sender # senders) s =
     (case hm_get (ca_udp_store s) k of
        None \<Rightarrow> ([], finish w s)
      | Some us \<Rightarrow>
          ([UdpSend sender (encode_udp (us_session_id us) q pl)], proceed w (SendUdp k q pl senders) s))"

fun find_tcp_step ::
    "client_worker \<Rightarrow> session_name \<Rightarrow> u32 \<Rightarrow> bytes \<Rightarrow> endpoint list \<Rightarrow> async_client \<Rightarrow> async_client" where
  "find_tcp_step w k q pl [] s = finish w s"
| "find_tcp_step w k q pl (ep # eps) s =
     (if ep_protocol ep \<noteq> Tcp then proceed w (FindTcp k q pl eps) s
      else
        case hm_get (ca_tcp_sessions s) (session_key (fst k) (ep_address ep)) of
          Some n \<Rightarrow> proceed w (TouchTcp k q pl n eps) s
        | None \<Rightarrow> proceed w (NewTcp k q pl ep eps) s)"

definition new_tcp_step ::
    "client_worker \<Rightarrow> session_name \<Rightarrow> u32 \<Rightarrow> bytes \<Rightarrow> endpoint \<Rightarrow> endpoint list
       \<Rightarrow> async_client \<Rightarrow> async_client" where
  "new_tcp_step w k q pl ep eps s =
     (case hm_get (ca_tcp_sessions s) (session_key (fst k) (ep_address ep)) of
        Some n \<Rightarrow> proceed w (TouchTcp k q pl n eps) s
      | None \<Rightarrow> proceed w (OpenTcp k q pl ep eps) s)"

text \<open>\<open>TcpStream::connect\<close> with the write lock held, then the new session and its reader.\<close>

definition open_tcp_step ::
    "client_worker \<Rightarrow> instant \<Rightarrow> bool \<Rightarrow> session_name \<Rightarrow> u32 \<Rightarrow> bytes \<Rightarrow> endpoint \<Rightarrow> endpoint list
       \<Rightarrow> async_client \<Rightarrow> async_client" where
  "open_tcp_step w now connected k q pl ep eps s =
     (if \<not> connected then proceed w (FindTcp k q pl eps) s
      else
        let c = ca_base s;
            n = c_next_conn c;
            key = session_key (fst k) (ep_address ep);
            session = \<lparr>ts_writer = n, ts_last_activity = now\<rparr>
        in proceed w (TouchTcp k q pl n eps)
             (s\<lparr>ca_base := c\<lparr>c_next_conn := Suc n,
                             c_readers := hm_insert n \<lparr>tr_source = fst k, tr_key = key\<rparr> (c_readers c)\<rparr>,
                ca_tcp_sessions := hm_insert key n (ca_tcp_sessions s),
                ca_tcp_store := hm_insert n session (ca_tcp_store s)\<rparr>))"

definition touch_tcp_step ::
    "client_worker \<Rightarrow> instant \<Rightarrow> session_name \<Rightarrow> u32 \<Rightarrow> bytes \<Rightarrow> conn \<Rightarrow> endpoint list
       \<Rightarrow> async_client \<Rightarrow> async_client" where
  "touch_tcp_step w now k q pl n eps s =
     proceed w (WriteTcp k q pl n eps) (modify_tcp n (\<lambda>ts. ts\<lparr>ts_last_activity := now\<rparr>) s)"

definition write_tcp_step ::
    "client_worker \<Rightarrow> session_name \<Rightarrow> u32 \<Rightarrow> bytes \<Rightarrow> conn \<Rightarrow> endpoint list \<Rightarrow> async_client
       \<Rightarrow> client_output list \<times> async_client" where
  "write_tcp_step w k q pl n eps s =
     (case (hm_get (ca_udp_store s) k, hm_get (ca_tcp_store s) n) of
        (Some us, Some ts) \<Rightarrow>
          (case send_tcp_frame ts (encode_tcp (us_session_id us) q pl) of Inl e \<Rightarrow> [] | Inr out \<Rightarrow> [out],
           proceed w (FindTcp k q pl eps) s)
      | _ \<Rightarrow> ([], finish w s))"

section \<open>The steps of a response\<close>

definition find_source_step ::
    "client_worker \<Rightarrow> u64 \<Rightarrow> u32 \<Rightarrow> bytes \<Rightarrow> async_client \<Rightarrow> async_client" where
  "find_source_step w sid q pl s =
     (case hm_get (c_udp_session_addrs (ca_base s)) sid of
        None \<Rightarrow> finish w s
      | Some a \<Rightarrow> proceed w (FindReceiver a q pl) s)"

definition find_receiver_step ::
    "client_worker \<Rightarrow> socket_addr \<Rightarrow> u32 \<Rightarrow> bytes \<Rightarrow> async_client \<Rightarrow> async_client" where
  "find_receiver_step w a q pl s =
     (case hm_get (ca_udp_sessions s) a of
        None \<Rightarrow> finish w s
      | Some k \<Rightarrow> proceed w (CheckResponse a k q pl) s)"

definition check_response_step ::
    "client_worker \<Rightarrow> socket_addr \<Rightarrow> session_name \<Rightarrow> u32 \<Rightarrow> bytes \<Rightarrow> async_client \<Rightarrow> async_client" where
  "check_response_step w a k q pl s =
     (case hm_get (ca_udp_store s) k of
        None \<Rightarrow> finish w s
      | Some us \<Rightarrow>
          let (dup, window) = response_is_duplicate (us_response_dedup us) q;
              s1 = modify_udp k (\<lambda>us. us\<lparr>us_response_dedup := window\<rparr>) s
          in if dup then finish w s1 else proceed w (TouchReceiver a k pl) s1)"

definition touch_receiver_step ::
    "client_worker \<Rightarrow> instant \<Rightarrow> socket_addr \<Rightarrow> session_name \<Rightarrow> bytes \<Rightarrow> async_client
       \<Rightarrow> async_client" where
  "touch_receiver_step w now a k pl s =
     proceed w (Deliver a pl) (modify_udp k (\<lambda>us. us\<lparr>us_last_activity := now\<rparr>) s)"

definition deliver_step ::
    "client_worker \<Rightarrow> socket_addr \<Rightarrow> bytes \<Rightarrow> async_client \<Rightarrow> client_output list \<times> async_client" where
  "deliver_step w a pl s =
     (case c_listener (ca_base s) of None \<Rightarrow> [] | Some listener \<Rightarrow> [SendTo listener pl a], finish w s)"

section \<open>The end of a reader\<close>

definition close_tcp :: "string \<Rightarrow> async_client \<Rightarrow> async_client" where
  "close_tcp key s =
     (case hm_get (ca_tcp_sessions s) key of
        None \<Rightarrow> s
      | Some n \<Rightarrow>
          s\<lparr>ca_tcp_sessions := hm_remove key (ca_tcp_sessions s),
            ca_base := (ca_base s)\<lparr>c_cancelled_conns := insert n (c_cancelled_conns (ca_base s))\<rparr>\<rparr>)"

definition close_tcp_step :: "client_worker \<Rightarrow> string \<Rightarrow> async_client \<Rightarrow> async_client" where
  "close_tcp_step w key s =
     (let s1 = close_tcp key s in
      finish w (case w of AtReader n \<Rightarrow> s1\<lparr>ca_base := end_reader n (ca_base s1)\<rparr> | _ \<Rightarrow> s1))"

section \<open>The sweep\<close>

fun scan_udp_step ::
    "client_worker \<Rightarrow> instant \<Rightarrow> (socket_addr \<times> session_name) list \<Rightarrow> (socket_addr \<times> u64) list
       \<Rightarrow> async_client \<Rightarrow> async_client" where
  "scan_udp_step w now [] dead s = proceed w (SweepUdp now dead) s"
| "scan_udp_step w now ((a, k) # todo) dead s =
     (let timeout = cc_session_timeout (c_cfg (ca_base s));
          idle = (case hm_get (ca_udp_store s) k of
                    None \<Rightarrow> []
                  | Some us \<Rightarrow> if expired now timeout (us_last_activity us) then [(a, us_session_id us)] else [])
      in proceed w (ScanUdp now todo (dead @ idle)) s)"

fun sweep_udp_step ::
    "client_worker \<Rightarrow> instant \<Rightarrow> (socket_addr \<times> u64) list \<Rightarrow> async_client \<Rightarrow> async_client" where
  "sweep_udp_step w now [] s = proceed w (LockTcp now) s"
| "sweep_udp_step w now ((a, sid) # dead) s =
     proceed w (SweepSource now sid dead) (s\<lparr>ca_udp_sessions := hm_remove a (ca_udp_sessions s)\<rparr>)"

definition sweep_source_step ::
    "client_worker \<Rightarrow> instant \<Rightarrow> u64 \<Rightarrow> (socket_addr \<times> u64) list \<Rightarrow> async_client \<Rightarrow> async_client" where
  "sweep_source_step w now sid dead s =
     proceed w (SweepUdp now dead)
       (s\<lparr>ca_base := (ca_base s)\<lparr>c_udp_session_addrs := hm_remove sid (c_udp_session_addrs (ca_base s))\<rparr>\<rparr>)"

definition lock_tcp_step :: "client_worker \<Rightarrow> instant \<Rightarrow> async_client \<Rightarrow> async_client" where
  "lock_tcp_step w now s = proceed w (ScanTcp now (hm_iter (ca_tcp_sessions s)) []) s"

fun scan_tcp_step ::
    "client_worker \<Rightarrow> instant \<Rightarrow> (string \<times> conn) list \<Rightarrow> string list \<Rightarrow> async_client \<Rightarrow> async_client" where
  "scan_tcp_step w now [] dead s = finish w (fold close_tcp dead s)"
| "scan_tcp_step w now ((key, n) # todo) dead s =
     (let timeout = cc_session_timeout (c_cfg (ca_base s));
          idle = (case hm_get (ca_tcp_store s) n of
                    None \<Rightarrow> False | Some ts \<Rightarrow> expired now timeout (ts_last_activity ts))
      in proceed w (ScanTcp now todo (if idle then dead @ [key] else dead)) s)"

section \<open>Any step\<close>

text \<open>
  A step may use the time, the random number of a new session and the outcome of connecting.
\<close>

definition client_step ::
    "client_worker \<Rightarrow> instant \<Rightarrow> u32 \<Rightarrow> bool \<Rightarrow> client_handler \<Rightarrow> async_client
       \<Rightarrow> client_output list \<times> async_client" where
  "client_step w now random connected h s =
     (case h of
        FindSession a pl \<Rightarrow> ([], find_session_step w a pl s)
      | NewSession a pl \<Rightarrow> ([], new_session_step w now random a pl s)
      | AddSource k pl \<Rightarrow> ([], add_source_step w k pl s)
      | TakeNumber k pl \<Rightarrow> ([], take_number_step w k pl s)
      | TouchSession k q pl \<Rightarrow> ([], touch_session_step w now k q pl s)
      | SendUdp k q pl senders \<Rightarrow> send_udp_step w k q pl senders s
      | FindTcp k q pl eps \<Rightarrow> ([], find_tcp_step w k q pl eps s)
      | NewTcp k q pl ep eps \<Rightarrow> ([], new_tcp_step w k q pl ep eps s)
      | OpenTcp k q pl ep eps \<Rightarrow> ([], open_tcp_step w now connected k q pl ep eps s)
      | TouchTcp k q pl n eps \<Rightarrow> ([], touch_tcp_step w now k q pl n eps s)
      | WriteTcp k q pl n eps \<Rightarrow> write_tcp_step w k q pl n eps s
      | FindSource sid q pl \<Rightarrow> ([], find_source_step w sid q pl s)
      | FindReceiver a q pl \<Rightarrow> ([], find_receiver_step w a q pl s)
      | CheckResponse a k q pl \<Rightarrow> ([], check_response_step w a k q pl s)
      | TouchReceiver a k pl \<Rightarrow> ([], touch_receiver_step w now a k pl s)
      | Deliver a pl \<Rightarrow> deliver_step w a pl s
      | CloseTcp key \<Rightarrow> ([], close_tcp_step w key s)
      | ScanUdp t todo dead \<Rightarrow> ([], scan_udp_step w t todo dead s)
      | SweepUdp t dead \<Rightarrow> ([], sweep_udp_step w t dead s)
      | SweepSource t sid dead \<Rightarrow> ([], sweep_source_step w t sid dead s)
      | LockTcp t \<Rightarrow> ([], lock_tcp_step w t s)
      | ScanTcp t todo dead \<Rightarrow> ([], scan_tcp_step w t todo dead s))"

datatype client_lock = UdpSessions | TcpSessions

text \<open>Which lock a task holds between steps, and which it needs free for its next step.\<close>

definition client_holds :: "client_handler \<Rightarrow> client_lock \<Rightarrow> bool" where
  "client_holds h l =
     (case h of
        AddSource _ _ \<Rightarrow> l = UdpSessions
      | ScanUdp _ _ _ \<Rightarrow> l = UdpSessions
      | SweepUdp _ _ \<Rightarrow> l = UdpSessions
      | SweepSource _ _ _ \<Rightarrow> l = UdpSessions
      | OpenTcp _ _ _ _ _ \<Rightarrow> l = TcpSessions
      | ScanTcp _ _ _ \<Rightarrow> l = TcpSessions
      | _ \<Rightarrow> False)"

definition client_needs :: "client_handler \<Rightarrow> client_lock \<Rightarrow> bool" where
  "client_needs h l =
     (case h of
        FindSession _ _ \<Rightarrow> l = UdpSessions
      | NewSession _ _ \<Rightarrow> l = UdpSessions
      | FindReceiver _ _ _ \<Rightarrow> l = UdpSessions
      | FindTcp _ _ _ eps \<Rightarrow>
          (case eps of [] \<Rightarrow> False | ep # _ \<Rightarrow> ep_protocol ep = Tcp \<and> l = TcpSessions)
      | NewTcp _ _ _ _ _ \<Rightarrow> l = TcpSessions
      | CloseTcp _ \<Rightarrow> l = TcpSessions
      | LockTcp _ \<Rightarrow> l = TcpSessions
      | _ \<Rightarrow> False)"

definition client_locked :: "async_client \<Rightarrow> client_lock \<Rightarrow> bool" where
  "client_locked s l \<longleftrightarrow> list_ex (\<lambda>(w, h). client_holds h l) (hm_iter (ca_pending s))"

section \<open>Events\<close>

text \<open>
  A task takes something up, given as the event of theory \<open>Client\<close> (whose time, random number and
  connect outcomes are not used here: the steps have their own), or a busy task does its next
  step.
\<close>

datatype client_async_event = Begin client_event | Advance client_worker instant u32 bool

definition client_worker_of :: "client_event \<Rightarrow> client_worker option" where
  "client_worker_of e =
     (case e of
        Packet _ _ _ _ _ \<Rightarrow> Some AtListener
      | UdpResponse _ sock _ \<Rightarrow> Some (AtUdpServer sock)
      | TcpResponse _ n _ \<Rightarrow> Some (AtReader n)
      | TcpReaderEnds n \<Rightarrow> Some (AtReader n)
      | TcpReaderCancelled n \<Rightarrow> Some (AtReader n)
      | CleanupTick _ \<Rightarrow> Some AtCleanup
      | Stop \<Rightarrow> None
      | TaskReturns t \<Rightarrow>
          (case t of UdpServerResponse sock \<Rightarrow> Some (AtUdpServer sock) | Listener _ \<Rightarrow> Some AtListener
           | SessionCleanup \<Rightarrow> Some AtCleanup))"

definition client_async_enabled :: "async_client \<Rightarrow> client_async_event \<Rightarrow> bool" where
  "client_async_enabled s ev =
     (case ev of
        Begin e \<Rightarrow>
          client_enabled (ca_base s) e \<and>
          (case client_worker_of e of None \<Rightarrow> True | Some w \<Rightarrow> hm_get (ca_pending s) w = None) \<and>
          (case e of CleanupTick _ \<Rightarrow> \<not> client_locked s UdpSessions | _ \<Rightarrow> True)
      | Advance w _ _ _ \<Rightarrow>
          (case hm_get (ca_pending s) w of
             None \<Rightarrow> False
           | Some h \<Rightarrow>
               (client_needs h UdpSessions \<longrightarrow> \<not> client_locked s UdpSessions) \<and>
               (client_needs h TcpSessions \<longrightarrow> \<not> client_locked s TcpSessions)))"

definition begin_handler :: "client_event \<Rightarrow> async_client \<Rightarrow> async_client" where
  "begin_handler e s =
     (let c = ca_base s in
      case e of
        Packet _ _ _ a pl \<Rightarrow> proceed AtListener (FindSession a pl) s
      | UdpResponse _ sock data \<Rightarrow>
          (case decode_udp data of
             Inl err \<Rightarrow> s
           | Inr (sid, q, pl) \<Rightarrow> proceed (AtUdpServer sock) (FindSource sid q pl) s)
      | TcpResponse _ n data \<Rightarrow>
          (case hm_get (c_readers c) n of
             None \<Rightarrow> s
           | Some r \<Rightarrow>
               (case decode_tcp data of
                  Inl err \<Rightarrow> s
                | Inr (sid, q, pl) \<Rightarrow> proceed (AtReader n) (FindReceiver (tr_source r) q pl) s))
      | TcpReaderEnds n \<Rightarrow>
          (case hm_get (c_readers c) n of
             None \<Rightarrow> s | Some r \<Rightarrow> proceed (AtReader n) (CloseTcp (tr_key r)) s)
      | CleanupTick now \<Rightarrow> proceed AtCleanup (ScanUdp now (hm_iter (ca_udp_sessions s)) []) s
      | TcpReaderCancelled _ \<Rightarrow> s\<lparr>ca_base := snd (client_handle e c)\<rparr>
      | Stop \<Rightarrow> s\<lparr>ca_base := snd (client_handle e c)\<rparr>
      | TaskReturns _ \<Rightarrow> s\<lparr>ca_base := snd (client_handle e c)\<rparr>)"

definition client_async_handle ::
    "client_async_event \<Rightarrow> async_client \<Rightarrow> client_output list \<times> async_client" where
  "client_async_handle ev s =
     (case ev of
        Begin e \<Rightarrow> ([], begin_handler e s)
      | Advance w now random connected \<Rightarrow>
          (case hm_get (ca_pending s) w of
             None \<Rightarrow> ([], s)
           | Some h \<Rightarrow> client_step w now random connected h s))"

abbreviation client_async_run ::
    "async_client \<Rightarrow> client_async_event list \<Rightarrow> client_output list \<Rightarrow> async_client \<Rightarrow> bool" where
  "client_async_run \<equiv> run client_async_enabled client_async_handle"

end
