(* ===== verification/Client_Async_Correct.thy ===== *)
theory Client_Async_Correct
  imports Client_Async
begin

text \<open>
  Invariants of the interleaved client: the names and the values that handlers carry, the
  numbers that packets get, what is delivered to a source, and how the two maps of sessions
  belong together whenever their lock is free.
\<close>

section \<open>What steps do to each part of the state\<close>

lemma proceed_simps [simp]:
  "ca_base (proceed w h s) = ca_base s" "ca_udp_sessions (proceed w h s) = ca_udp_sessions s"
  "ca_udp_store (proceed w h s) = ca_udp_store s" "ca_next_session (proceed w h s) = ca_next_session s"
  "ca_tcp_sessions (proceed w h s) = ca_tcp_sessions s" "ca_tcp_store (proceed w h s) = ca_tcp_store s"
  "hm_get (ca_pending (proceed w h s)) = (hm_get (ca_pending s))(w \<mapsto> h)"
  by (simp_all add: proceed_def)

lemma finish_simps [simp]:
  "ca_base (finish w s) = ca_base s" "ca_udp_sessions (finish w s) = ca_udp_sessions s"
  "ca_udp_store (finish w s) = ca_udp_store s" "ca_next_session (finish w s) = ca_next_session s"
  "ca_tcp_sessions (finish w s) = ca_tcp_sessions s" "ca_tcp_store (finish w s) = ca_tcp_store s"
  "hm_get (ca_pending (finish w s)) = (hm_get (ca_pending s))(w := None)"
  by (simp_all add: finish_def lookup_delete fun_eq_iff)

lemma modify_udp_simps [simp]:
  "ca_base (modify_udp k f s) = ca_base s" "ca_udp_sessions (modify_udp k f s) = ca_udp_sessions s"
  "ca_next_session (modify_udp k f s) = ca_next_session s"
  "ca_tcp_sessions (modify_udp k f s) = ca_tcp_sessions s"
  "ca_tcp_store (modify_udp k f s) = ca_tcp_store s" "ca_pending (modify_udp k f s) = ca_pending s"
  "hm_get (ca_udp_store (modify_udp k f s)) j =
     (if j = k then map_option f (hm_get (ca_udp_store s) k) else hm_get (ca_udp_store s) j)"
  by (auto simp: modify_udp_def split: option.split)

lemma modify_tcp_simps [simp]:
  "ca_base (modify_tcp n f s) = ca_base s" "ca_udp_sessions (modify_tcp n f s) = ca_udp_sessions s"
  "ca_udp_store (modify_tcp n f s) = ca_udp_store s"
  "ca_next_session (modify_tcp n f s) = ca_next_session s"
  "ca_tcp_sessions (modify_tcp n f s) = ca_tcp_sessions s" "ca_pending (modify_tcp n f s) = ca_pending s"
  "hm_get (ca_tcp_store (modify_tcp n f s)) j =
     (if j = n then map_option f (hm_get (ca_tcp_store s) n) else hm_get (ca_tcp_store s) j)"
  by (auto simp: modify_tcp_def split: option.split)

lemma close_tcp_simps [simp]:
  "ca_udp_sessions (close_tcp key s) = ca_udp_sessions s" "ca_udp_store (close_tcp key s) = ca_udp_store s"
  "ca_next_session (close_tcp key s) = ca_next_session s" "ca_tcp_store (close_tcp key s) = ca_tcp_store s"
  "ca_pending (close_tcp key s) = ca_pending s"
  "c_cfg (ca_base (close_tcp key s)) = c_cfg (ca_base s)"
  "c_listener (ca_base (close_tcp key s)) = c_listener (ca_base s)"
  "c_udp_senders (ca_base (close_tcp key s)) = c_udp_senders (ca_base s)"
  "c_session_id_counter (ca_base (close_tcp key s)) = c_session_id_counter (ca_base s)"
  "c_udp_session_addrs (ca_base (close_tcp key s)) = c_udp_session_addrs (ca_base s)"
  by (simp_all add: close_tcp_def split: option.split)

lemma fold_close_tcp_simps [simp]:
  "ca_udp_sessions (fold close_tcp keys s) = ca_udp_sessions s"
  "ca_udp_store (fold close_tcp keys s) = ca_udp_store s"
  "ca_next_session (fold close_tcp keys s) = ca_next_session s"
  "ca_tcp_store (fold close_tcp keys s) = ca_tcp_store s"
  "ca_pending (fold close_tcp keys s) = ca_pending s"
  "c_cfg (ca_base (fold close_tcp keys s)) = c_cfg (ca_base s)"
  "c_listener (ca_base (fold close_tcp keys s)) = c_listener (ca_base s)"
  "c_udp_senders (ca_base (fold close_tcp keys s)) = c_udp_senders (ca_base s)"
  "c_session_id_counter (ca_base (fold close_tcp keys s)) = c_session_id_counter (ca_base s)"
  "c_udp_session_addrs (ca_base (fold close_tcp keys s)) = c_udp_session_addrs (ca_base s)"
  by (induction keys arbitrary: s) simp_all

lemma end_reader_simps [simp]:
  "c_cfg (end_reader n c) = c_cfg c" "c_listener (end_reader n c) = c_listener c"
  "c_udp_senders (end_reader n c) = c_udp_senders c"
  "c_session_id_counter (end_reader n c) = c_session_id_counter c"
  "c_udp_session_addrs (end_reader n c) = c_udp_session_addrs c"
  by (simp_all add: end_reader_def)

lemma client_locked_iff:
  "client_locked s l \<longleftrightarrow> (\<exists>w h. hm_get (ca_pending s) w = Some h \<and> client_holds h l)"
  by (force simp: client_locked_def list_ex_iff)

lemmas client_step_defs =
  client_step_def find_session_step_def new_session_step_def add_source_step_def take_number_step_def
  touch_session_step_def new_tcp_step_def open_tcp_step_def touch_tcp_step_def write_tcp_step_def
  find_source_step_def find_receiver_step_def check_response_step_def touch_receiver_step_def
  deliver_step_def close_tcp_step_def sweep_source_step_def lock_tcp_step_def

section \<open>What has arrived\<close>

text \<open>The packets of a source, and the numbers under which a payload has come as a response.\<close>

definition packets_of :: "client_async_event list \<Rightarrow> socket_addr \<Rightarrow> bytes list" where
  "packets_of es a =
     concat (map (\<lambda>ev. case ev of Begin (Packet _ _ _ b pl) \<Rightarrow> if b = a then [pl] else [] | _ \<Rightarrow> []) es)"

definition response_of :: "client_async_event \<Rightarrow> (u32 \<times> bytes) option" where
  "response_of ev =
     (case ev of
        Begin (UdpResponse _ _ data) \<Rightarrow>
          (case decode_udp data of Inl e \<Rightarrow> None | Inr (sid, q, pl) \<Rightarrow> Some (q, pl))
      | Begin (TcpResponse _ _ data) \<Rightarrow>
          (case decode_tcp data of Inl e \<Rightarrow> None | Inr (sid, q, pl) \<Rightarrow> Some (q, pl))
      | _ \<Rightarrow> None)"

definition response_numbers :: "client_async_event list \<Rightarrow> bytes \<Rightarrow> u32 set" where
  "response_numbers es pl = {q. \<exists>ev \<in> set es. response_of ev = Some (q, pl)}"

lemma packets_of_simps [simp]:
  "packets_of [] a = []" "packets_of (es @ fs) a = packets_of es a @ packets_of fs a"
  by (simp_all add: packets_of_def)

lemma packets_of_advance [simp]: "packets_of [Advance w now random connected] a = []"
  by (simp add: packets_of_def)

lemma response_numbers_simps [simp]:
  "response_numbers [] pl = {}"
  "response_numbers (es @ fs) pl = response_numbers es pl \<union> response_numbers fs pl"
  by (auto simp: response_numbers_def)

lemma response_numbers_advance [simp]: "response_numbers [Advance w now random connected] pl = {}"
  by (simp add: response_numbers_def response_of_def)

section \<open>Names and values\<close>

definition udp_known :: "async_client \<Rightarrow> session_name \<Rightarrow> bool" where
  "udp_known s k \<longleftrightarrow> hm_get (ca_udp_store s) k \<noteq> None"

text \<open>
  The values of a handler belong together: \<open>kn\<close> are the sessions there are, \<open>num\<close> tells which
  payload got which number of which session, \<open>got\<close> which numbers have come with a payload.
\<close>

definition client_handler_ok ::
    "(session_name \<Rightarrow> bool) \<Rightarrow> (session_name \<times> u32 \<times> bytes) set \<Rightarrow> (bytes \<Rightarrow> u32 set)
       \<Rightarrow> client_handler \<Rightarrow> bool" where
  "client_handler_ok kn num got h =
     (case h of
        AddSource k pl \<Rightarrow> kn k
      | TakeNumber k pl \<Rightarrow> kn k
      | TouchSession k q pl \<Rightarrow> kn k \<and> (k, q, pl) \<in> num
      | SendUdp k q pl senders \<Rightarrow> kn k \<and> (k, q, pl) \<in> num
      | FindTcp k q pl eps \<Rightarrow> kn k \<and> (k, q, pl) \<in> num
      | NewTcp k q pl ep eps \<Rightarrow> kn k \<and> (k, q, pl) \<in> num
      | OpenTcp k q pl ep eps \<Rightarrow> kn k \<and> (k, q, pl) \<in> num
      | TouchTcp k q pl n eps \<Rightarrow> kn k \<and> (k, q, pl) \<in> num
      | WriteTcp k q pl n eps \<Rightarrow> kn k \<and> (k, q, pl) \<in> num
      | FindSource sid q pl \<Rightarrow> q \<in> got pl
      | FindReceiver a q pl \<Rightarrow> q \<in> got pl
      | CheckResponse a k q pl \<Rightarrow> q \<in> got pl \<and> kn k \<and> fst k = a
      | TouchReceiver a k pl \<Rightarrow> kn k \<and> fst k = a
      | _ \<Rightarrow> True)"

lemma client_handler_ok_mono:
  assumes "client_handler_ok kn num got h"
    and "\<And>k. kn k \<Longrightarrow> kn' k" and "num \<subseteq> num'" and "\<And>pl. got pl \<subseteq> got' pl"
  shows "client_handler_ok kn' num' got' h"
  using assms(1-3) subsetD [OF assms(4)] by (cases h) (auto simp: client_handler_ok_def)

definition client_names ::
    "(session_name \<times> u32 \<times> bytes) set \<Rightarrow> (bytes \<Rightarrow> u32 set) \<Rightarrow> async_client \<Rightarrow> bool" where
  "client_names num got s \<longleftrightarrow>
     (\<forall>a k. hm_get (ca_udp_sessions s) a = Some k \<longrightarrow> fst k = a \<and> udp_known s k) \<and>
     (\<forall>k us. hm_get (ca_udp_store s) k = Some us \<longrightarrow>
        snd k < ca_next_session s \<and> rw_inv (us_response_dedup us)) \<and>
     (\<forall>w h. hm_get (ca_pending s) w = Some h \<longrightarrow> client_handler_ok (udp_known s) num got h)"

lemma client_namesD:
  assumes "client_names num got s"
  shows "hm_get (ca_udp_sessions s) a = Some k \<Longrightarrow> fst k = a \<and> udp_known s k"
    and "hm_get (ca_udp_store s) k = Some us \<Longrightarrow>
      snd k < ca_next_session s \<and> rw_inv (us_response_dedup us)"
    and "hm_get (ca_pending s) w = Some h \<Longrightarrow> client_handler_ok (udp_known s) num got h"
  using assms unfolding client_names_def by blast+

section \<open>Steps that leave sessions alone\<close>

text \<open>What the invariants look at in a session: identifier, next number, window.\<close>

type_synonym 'k view = "'k \<Rightarrow> (u64 \<times> u32 \<times> response_dedup_window) option"

definition id_in :: "'k view \<Rightarrow> 'k \<Rightarrow> u64 option" where
  "id_in view k = map_option fst (view k)"

definition seq_in :: "'k view \<Rightarrow> 'k \<Rightarrow> u32 option" where
  "seq_in view k = map_option (fst \<circ> snd) (view k)"

definition refused_in :: "'k view \<Rightarrow> 'k \<Rightarrow> u32 set" where
  "refused_in view k = (case view k of None \<Rightarrow> {} | Some (sid, q, win) \<Rightarrow> rw_refused win)"

lemma id_in_update [simp]: "id_in (view(k \<mapsto> (sid, r))) = (id_in view)(k \<mapsto> sid)"
  by (simp add: id_in_def fun_eq_iff)

lemma seq_in_update [simp]: "seq_in (view(k \<mapsto> (sid, q, win))) = (seq_in view)(k \<mapsto> q)"
  by (simp add: seq_in_def fun_eq_iff)

lemma refused_in_update [simp]:
  "refused_in (view(k \<mapsto> (sid, q, win))) = (refused_in view)(k := rw_refused win)"
  by (simp add: refused_in_def fun_eq_iff)

definition session_view :: "async_client \<Rightarrow> session_name view" where
  "session_view s k =
     map_option (\<lambda>us. (us_session_id us, us_seq us, us_response_dedup us)) (hm_get (ca_udp_store s) k)"

lemma session_view_Some:
  "session_view s k = Some (sid, q, win) \<longleftrightarrow> (\<exists>us. hm_get (ca_udp_store s) k = Some us \<and>
     us_session_id us = sid \<and> us_seq us = q \<and> us_response_dedup us = win)"
  by (auto simp: session_view_def)

lemma udp_known_view: "udp_known s k \<longleftrightarrow> session_view s k \<noteq> None"
  by (simp add: udp_known_def session_view_def)

lemma udp_known_same: "session_view s' = session_view s \<Longrightarrow> udp_known s' = udp_known s"
  by (simp add: udp_known_view fun_eq_iff)

lemma session_view_simps [simp]:
  "session_view (proceed w h s) = session_view s" "session_view (finish w s) = session_view s"
  "session_view (modify_tcp n f s) = session_view s" "session_view (close_tcp key s) = session_view s"
  "session_view (fold close_tcp keys s) = session_view s" "session_view (s\<lparr>ca_base := c\<rparr>) = session_view s"
  "session_view (s\<lparr>ca_udp_sessions := m\<rparr>) = session_view s"
  "session_view (s\<lparr>ca_tcp_sessions := tm\<rparr>) = session_view s"
  "session_view (s\<lparr>ca_tcp_store := ts\<rparr>) = session_view s"
  by (simp_all add: session_view_def fun_eq_iff)

lemma session_view_touch [simp]:
  "session_view (modify_udp k (\<lambda>us. us\<lparr>us_last_activity := now\<rparr>) s) = session_view s"
  by (auto simp: session_view_def fun_eq_iff option.map_comp comp_def)

text \<open>The payloads on their way to a source, and the packets of a source without a number yet.\<close>

definition receiving :: "socket_addr \<Rightarrow> bytes \<Rightarrow> client_handler \<Rightarrow> bool" where
  "receiving a pl h =
     (case h of TouchReceiver b k p \<Rightarrow> b = a \<and> p = pl | Deliver b p \<Rightarrow> b = a \<and> p = pl | _ \<Rightarrow> False)"

definition unnumbered :: "socket_addr \<Rightarrow> bytes \<Rightarrow> client_handler \<Rightarrow> bool" where
  "unnumbered a pl h =
     (case h of
        FindSession b p \<Rightarrow> b = a \<and> p = pl
      | NewSession b p \<Rightarrow> b = a \<and> p = pl
      | AddSource k p \<Rightarrow> fst k = a \<and> p = pl
      | TakeNumber k p \<Rightarrow> fst k = a \<and> p = pl
      | _ \<Rightarrow> False)"

abbreviation one_if :: "('h \<Rightarrow> bool) \<Rightarrow> 'h option \<Rightarrow> nat" where
  "one_if P h \<equiv> (case h of None \<Rightarrow> 0 | Some k \<Rightarrow> if P k then 1 else 0)"

text \<open>A copy that goes out carries the number and the payload of a packet and its session's identifier.\<close>

definition sent_ok ::
    "('k \<Rightarrow> u64 option) \<Rightarrow> ('k \<times> u32 \<times> bytes) set \<Rightarrow> client_output \<Rightarrow> bool" where
  "sent_ok ids num out \<longleftrightarrow>
     (case out of
        UdpSend sock bs \<Rightarrow>
          \<exists>k q pl sid. (k, q, pl) \<in> num \<and> ids k = Some sid \<and> bs = encode_udp sid q pl
      | TcpWrite n bs \<Rightarrow>
          \<exists>k q pl sid. (k, q, pl) \<in> num \<and> ids k = Some sid \<and>
            length (encode_tcp sid q pl) \<le> MAX_TCP_FRAME_SIZE \<and> bs = tcp_frame (encode_tcp sid q pl)
      | SendTo sock bs a \<Rightarrow> True)"

lemma sent_ok_udp:
  assumes "(k, q, pl) \<in> num" and "hm_get (ca_udp_store s) k = Some us"
  shows "sent_ok (id_in (session_view s)) num (UdpSend sock (encode_udp (us_session_id us) q pl))"
proof -
  from assms(2) have "id_in (session_view s) k = Some (us_session_id us)"
    by (simp add: session_view_def id_in_def)
  with assms(1) show ?thesis unfolding sent_ok_def client_output.case by blast
qed

lemma sent_ok_tcp:
  assumes "(k, q, pl) \<in> num" and "hm_get (ca_udp_store s) k = Some us"
    and "send_tcp_frame ts (encode_tcp (us_session_id us) q pl) = Inr out"
  shows "sent_ok (id_in (session_view s)) num out"
proof -
  let ?d = "encode_tcp (us_session_id us) q pl"
  from assms(2) have id: "id_in (session_view s) k = Some (us_session_id us)"
    by (simp add: session_view_def id_in_def)
  from assms(3) have out: "out = TcpWrite (ts_writer ts) (tcp_frame ?d)" "length ?d \<le> MAX_TCP_FRAME_SIZE"
    by (auto simp: send_tcp_frame_def split: if_splits)
  show ?thesis unfolding out(1) sent_ok_def client_output.case using assms(1) id out(2) by blast
qed

lemma sent_ok_deliver [simp]: "sent_ok ids num (SendTo l pl a)"
  by (simp add: sent_ok_def)

lemma send_tcp_frame_no_SendTo: "send_tcp_frame ts d = Inr out \<Longrightarrow> out \<noteq> SendTo l pl a"
  by (auto simp: send_tcp_frame_def split: if_splits)

definition client_quiet ::
    "client_worker \<Rightarrow> client_handler \<Rightarrow> client_handler option \<Rightarrow> async_client \<Rightarrow> async_client \<Rightarrow> bool" where
  "client_quiet w h h' s s' \<longleftrightarrow>
     hm_get (ca_pending s) w = Some h \<and>
     hm_get (ca_pending s') = (hm_get (ca_pending s))(w := h') \<and>
     session_view s' = session_view s \<and>
     (\<forall>a k. hm_get (ca_udp_sessions s') a = Some k \<longrightarrow> hm_get (ca_udp_sessions s) a = Some k) \<and>
     ca_next_session s' = ca_next_session s \<and>
     c_session_id_counter (ca_base s') = c_session_id_counter (ca_base s)"

definition client_follows ::
    "(session_name \<times> u32 \<times> bytes) set \<Rightarrow> (bytes \<Rightarrow> u32 set) \<Rightarrow> async_client
       \<Rightarrow> client_handler \<Rightarrow> client_handler option \<Rightarrow> client_output list \<Rightarrow> bool" where
  "client_follows num got s h h' os \<longleftrightarrow>
     (\<forall>k. h' = Some k \<longrightarrow> client_handler_ok (udp_known s) num got k) \<and>
     (\<forall>l a pl. count_list os (SendTo l pl a) + one_if (receiving a pl) h' \<le> one_if (receiving a pl) (Some h)) \<and>
     (\<forall>a pl. one_if (unnumbered a pl) h' \<le> one_if (unnumbered a pl) (Some h)) \<and>
     list_all (sent_ok (id_in (session_view s)) num) os"

definition client_plain :: "client_handler \<Rightarrow> bool" where
  "client_plain h =
     (case h of NewSession _ _ \<Rightarrow> False | TakeNumber _ _ \<Rightarrow> False | CheckResponse _ _ _ _ \<Rightarrow> False | _ \<Rightarrow> True)"

lemmas client_quiet_defs =
  client_step_defs client_quiet_def client_follows_def client_handler_ok_def receiving_def unnumbered_def

lemma client_plain_quiet:
  assumes inv: "client_names num got s" and h: "hm_get (ca_pending s) w = Some h"
    and plain: "client_plain h" and step: "client_step w now random connected h s = (os, s')"
  shows "client_quiet w h (hm_get (ca_pending s') w) s s' \<and>
    client_follows num got s h (hm_get (ca_pending s') w) os"
proof -
  have ok: "client_handler_ok (udp_known s) num got h" by (rule client_namesD(3) [OF inv h])
  note D = client_namesD [OF inv]
  show ?thesis
  proof (cases h)
    case (FindSession a pl)
    with step ok h D(1) [of a] show ?thesis
      by (cases "hm_get (ca_udp_sessions s) a") (auto simp: client_quiet_defs)
  next
    case (AddSource k pl)
    with step ok h show ?thesis
      by (cases "hm_get (ca_udp_store s) k") (auto simp: client_quiet_defs)
  next
    case (TouchSession k q pl)
    with step ok h show ?thesis by (auto simp: client_quiet_defs)
  next
    case (SendUdp k q pl senders)
    with step ok h show ?thesis
      by (cases senders; cases "hm_get (ca_udp_store s) k")
        (auto simp: client_quiet_defs intro: sent_ok_udp)
  next
    case (FindTcp k q pl eps)
    with step ok h show ?thesis
      by (cases eps) (auto simp: client_quiet_defs split: option.splits if_splits)
  next
    case (NewTcp k q pl ep eps)
    with step ok h show ?thesis by (auto simp: client_quiet_defs split: option.splits)
  next
    case (OpenTcp k q pl ep eps)
    with step ok h show ?thesis by (auto simp: client_quiet_defs Let_def split: if_splits)
  next
    case (TouchTcp k q pl n eps)
    with step ok h show ?thesis by (auto simp: client_quiet_defs)
  next
    case (WriteTcp k q pl n eps)
    with step ok h show ?thesis
      by (auto simp: client_quiet_defs send_tcp_frame_no_SendTo split: option.splits sum.splits
          intro: sent_ok_tcp)
  next
    case (FindSource sid q pl)
    with step ok h show ?thesis by (auto simp: client_quiet_defs split: option.splits)
  next
    case (FindReceiver a q pl)
    with step ok h D(1) [of a] show ?thesis by (auto simp: client_quiet_defs split: option.splits)
  next
    case (TouchReceiver a k pl)
    with step ok h show ?thesis by (auto simp: client_quiet_defs)
  next
    case (Deliver a pl)
    with step ok h show ?thesis by (auto simp: client_quiet_defs split: option.splits)
  next
    case (CloseTcp key)
    with step h show ?thesis by (cases w) (auto simp: client_quiet_defs Let_def)
  next
    case (ScanUdp t todo dead)
    with step h show ?thesis by (cases todo) (auto simp: client_quiet_defs Let_def)
  next
    case (SweepUdp t dead)
    with step h show ?thesis
      by (cases dead) (auto simp: client_quiet_defs lookup_delete split: if_splits)
  next
    case (SweepSource t sid dead)
    with step h show ?thesis by (auto simp: client_quiet_defs)
  next
    case (LockTcp t)
    with step h show ?thesis by (auto simp: client_quiet_defs)
  next
    case (ScanTcp t todo dead)
    with step h show ?thesis by (cases todo) (auto simp: client_quiet_defs Let_def)
  qed (use plain in \<open>simp_all add: client_plain_def\<close>)
qed

section \<open>The invariants\<close>

text \<open>Identifiers are distinct, and the counter has not come round to one in use.\<close>

definition ids_ok :: "u64 \<Rightarrow> nat \<Rightarrow> ('k \<Rightarrow> u64 option) \<Rightarrow> u64 \<Rightarrow> bool" where
  "ids_ok base n ids counter \<longleftrightarrow>
     issued base counter \<le> 2 * n \<and>
     (\<forall>k sid. ids k = Some sid \<longrightarrow> issued base sid \<le> issued base counter) \<and>
     (\<forall>k k' sid. ids k = Some sid \<and> ids k' = Some sid \<longrightarrow> k = k')"

text \<open>
  The numbers of a session are counted up from \<open>init k\<close>; \<open>cnt k\<close> of them have been given out. No
  two packets of a session have the same.
\<close>

definition numbering ::
    "('k \<times> u32 \<times> bytes) list \<Rightarrow> ('k \<Rightarrow> u32) \<Rightarrow> ('k \<Rightarrow> nat) \<Rightarrow> nat \<Rightarrow> ('k \<Rightarrow> u32 option) \<Rightarrow> bool" where
  "numbering num init cnt n seqs \<longleftrightarrow>
     (\<forall>k q. seqs k = Some q \<longrightarrow> q = init k + of_nat (cnt k)) \<and>
     (\<forall>k. cnt k \<le> n) \<and>
     (\<forall>k q pl. (k, q, pl) \<in> set num \<longrightarrow> seqs k \<noteq> None \<and> (\<exists>j < cnt k. q = init k + of_nat j)) \<and>
     distinct (map (\<lambda>(k, q, pl). (k, q)) num)"

text \<open>Only packets of a source get numbers of its sessions, each one once.\<close>

definition numbered_from :: "socket_addr \<Rightarrow> bytes \<Rightarrow> (session_name \<times> u32 \<times> bytes) list \<Rightarrow> nat" where
  "numbered_from a pl num = length (filter (\<lambda>(k, q, p). fst k = a \<and> p = pl) num)"

definition accounting ::
    "(session_name \<times> u32 \<times> bytes) list \<Rightarrow> client_async_event list
       \<Rightarrow> (client_worker \<Rightarrow> client_handler option) \<Rightarrow> bool" where
  "accounting num es pending \<longleftrightarrow>
     (\<forall>a pl. numbered_from a pl num + card (tasks_at pending (unnumbered a pl))
        \<le> count_list (packets_of es a) pl)"

text \<open>Every payload delivered, or about to be, has used up a number in one of the source's sessions.\<close>

definition delivery_debt ::
    "client_async_event list \<Rightarrow> client_output list \<Rightarrow> nat \<Rightarrow> (session_name \<Rightarrow> u32 set)
       \<Rightarrow> (client_worker \<Rightarrow> client_handler option) \<Rightarrow> bool" where
  "delivery_debt es outs next refused pending \<longleftrightarrow>
     (\<forall>l a pl. count_list outs (SendTo l pl a) + card (tasks_at pending (receiving a pl))
        \<le> (\<Sum>i<next. card (response_numbers es pl \<inter> refused (a, i))))"

definition client_async_inv ::
    "u64 \<Rightarrow> (session_name \<times> u32 \<times> bytes) list \<Rightarrow> (session_name \<Rightarrow> u32) \<Rightarrow> (session_name \<Rightarrow> nat)
       \<Rightarrow> client_async_event list \<Rightarrow> client_output list \<Rightarrow> async_client \<Rightarrow> bool" where
  "client_async_inv base num init cnt es outs s \<longleftrightarrow>
     client_names (set num) (response_numbers es) s \<and>
     ids_ok base (length es) (id_in (session_view s)) (c_session_id_counter (ca_base s)) \<and>
     numbering num init cnt (length es) (seq_in (session_view s)) \<and>
     accounting num es (hm_get (ca_pending s)) \<and>
     delivery_debt es outs (ca_next_session s) (refused_in (session_view s)) (hm_get (ca_pending s)) \<and>
     list_all (sent_ok (id_in (session_view s)) (set num)) outs"

lemma client_async_invD:
  assumes "client_async_inv base num init cnt es outs s"
  shows "client_names (set num) (response_numbers es) s"
    and "ids_ok base (length es) (id_in (session_view s)) (c_session_id_counter (ca_base s))"
    and "numbering num init cnt (length es) (seq_in (session_view s))"
    and "accounting num es (hm_get (ca_pending s))"
    and "delivery_debt es outs (ca_next_session s) (refused_in (session_view s)) (hm_get (ca_pending s))"
    and "list_all (sent_ok (id_in (session_view s)) (set num)) outs"
  using assms unfolding client_async_inv_def by blast+

lemma sent_ok_mono:
  assumes "sent_ok ids num out" and "num \<subseteq> num'" and "\<And>k sid. ids k = Some sid \<Longrightarrow> ids' k = Some sid"
  shows "sent_ok ids' num' out"
proof (cases out)
  case (UdpSend sock bs)
  with assms(1) obtain k q pl sid where "(k, q, pl) \<in> num" "ids k = Some sid" "bs = encode_udp sid q pl"
    by (auto simp: sent_ok_def)
  with assms(2,3) show ?thesis unfolding UdpSend sent_ok_def client_output.case by blast
next
  case (TcpWrite n bs)
  with assms(1) obtain k q pl sid where "(k, q, pl) \<in> num" "ids k = Some sid"
      "length (encode_tcp sid q pl) \<le> MAX_TCP_FRAME_SIZE" "bs = tcp_frame (encode_tcp sid q pl)"
    by (auto simp: sent_ok_def)
  with assms(2,3) show ?thesis unfolding TcpWrite sent_ok_def client_output.case by blast
qed simp

lemma outs_ok_mono:
  assumes "list_all (sent_ok ids num) outs" and "num \<subseteq> num'"
    and "\<And>k sid. ids k = Some sid \<Longrightarrow> ids' k = Some sid"
  shows "list_all (sent_ok ids' num') outs"
  using list.pred_mono_strong [OF assms(1), of "sent_ok ids' num'"] sent_ok_mono [of ids num _ num' ids'] assms(2,3)
  by blast

lemma ids_ok_mono: "ids_ok base n ids counter \<Longrightarrow> n \<le> n' \<Longrightarrow> ids_ok base n' ids counter"
  by (simp add: ids_ok_def)

lemma numbering_mono: "numbering num init cnt n seqs \<Longrightarrow> n \<le> n' \<Longrightarrow> numbering num init cnt n' seqs"
  unfolding numbering_def by (meson le_trans)

lemma accountingD:
  "accounting num es pending \<Longrightarrow>
     numbered_from a pl num + card (tasks_at pending (unnumbered a pl)) \<le> count_list (packets_of es a) pl"
  by (simp add: accounting_def)

lemma delivery_debtD:
  "delivery_debt es outs next refused pending \<Longrightarrow>
     count_list outs (SendTo l pl a) + card (tasks_at pending (receiving a pl))
       \<le> (\<Sum>i<next. card (response_numbers es pl \<inter> refused (a, i)))"
  by (simp add: delivery_debt_def)

section \<open>Quiet steps keep them\<close>

lemma client_quietD:
  assumes "client_quiet w h h' s s'"
  shows "hm_get (ca_pending s) w = Some h" "hm_get (ca_pending s') = (hm_get (ca_pending s))(w := h')"
    "session_view s' = session_view s" "udp_known s' = udp_known s"
    "hm_get (ca_udp_sessions s') a = Some k \<Longrightarrow> hm_get (ca_udp_sessions s) a = Some k"
    "ca_next_session s' = ca_next_session s"
    "c_session_id_counter (ca_base s') = c_session_id_counter (ca_base s)"
  using assms udp_known_same [of s' s] unfolding client_quiet_def by blast+

lemma session_view_SomeD:
  assumes "session_view s' = session_view s" and "hm_get (ca_udp_store s') k = Some us'"
  shows "\<exists>us. hm_get (ca_udp_store s) k = Some us \<and> us_response_dedup us = us_response_dedup us'"
  using assms(2) fun_cong [OF assms(1), of k]
  by (cases "hm_get (ca_udp_store s) k") (simp_all add: session_view_def)

lemma client_names_quiet:
  assumes inv: "client_names num got s" and quiet: "client_quiet w h h' s s'"
    and h': "\<And>k. h' = Some k \<Longrightarrow> client_handler_ok (udp_known s) num got k"
  shows "client_names num got s'"
proof -
  note D = client_namesD [OF inv] and S = client_quietD [OF quiet]
  have "client_handler_ok (udp_known s) num got k" if "hm_get (ca_pending s') v = Some k" for v k
    using that D(3) [of v k] h' [of k] by (simp add: S(2) split: if_splits)
  moreover have "snd k < ca_next_session s' \<and> rw_inv (us_response_dedup us')"
    if "hm_get (ca_udp_store s') k = Some us'" for k us'
    using session_view_SomeD [OF S(3) that] D(2) [of k] by (auto simp: S(6))
  moreover have "fst k = a \<and> udp_known s k" if "hm_get (ca_udp_sessions s') a = Some k" for a k
    by (rule D(1)) (rule S(5) [OF that])
  ultimately show ?thesis unfolding client_names_def by (simp add: S(4))
qed

lemma client_names_events:
  assumes "client_names num got s" and "\<And>pl. got pl \<subseteq> got' pl" and "num \<subseteq> num'"
  shows "client_names num' got' s"
  using assms client_handler_ok_mono [of "udp_known s" num got _ "udp_known s" num' got']
  unfolding client_names_def by blast

lemma client_async_inv_quiet:
  assumes inv: "client_async_inv base num init cnt es outs s"
    and quiet: "client_quiet w h h' s s'"
    and follows: "client_follows (set num) (response_numbers es) s h h' os"
    and ev: "ev = Advance v now random connected"
  shows "client_async_inv base num init cnt (es @ [ev]) (outs @ os) s'"
proof -
  note I = client_async_invD [OF inv] and S = client_quietD [OF quiet]
  have fin: "finite (dom (hm_get (ca_pending s)))" by simp
  note move = card_tasks_at [OF fin S(1), of h', folded S(2)]
  have "client_names (set num) (response_numbers (es @ [ev])) s'"
    by (rule client_names_events [OF client_names_quiet [OF I(1) quiet]])
      (use follows in \<open>auto simp: client_follows_def\<close>)
  moreover have "accounting num (es @ [ev]) (hm_get (ca_pending s'))"
    unfolding accounting_def
  proof (intro allI)
    fix a pl
    have "one_if (unnumbered a pl) h' \<le> one_if (unnumbered a pl) (Some h)"
      using follows by (simp add: client_follows_def)
    with move [of "unnumbered a pl"] accountingD [OF I(4), of a pl]
    show "numbered_from a pl num + card (tasks_at (hm_get (ca_pending s')) (unnumbered a pl))
        \<le> count_list (packets_of (es @ [ev]) a) pl"
      by (simp add: ev)
  qed
  moreover have "delivery_debt (es @ [ev]) (outs @ os) (ca_next_session s') (refused_in (session_view s'))
      (hm_get (ca_pending s'))"
    unfolding delivery_debt_def
  proof (intro allI)
    fix l a pl
    have "count_list os (SendTo l pl a) + one_if (receiving a pl) h' \<le> one_if (receiving a pl) (Some h)"
      using follows by (simp add: client_follows_def)
    with move [of "receiving a pl"] delivery_debtD [OF I(5), of l pl a]
    show "count_list (outs @ os) (SendTo l pl a) + card (tasks_at (hm_get (ca_pending s')) (receiving a pl))
        \<le> (\<Sum>i<ca_next_session s'.
             card (response_numbers (es @ [ev]) pl \<inter> refused_in (session_view s') (a, i)))"
      by (simp add: ev S(3,6))
  qed
  ultimately show ?thesis
    using I(2,3,6) follows unfolding client_async_inv_def
    by (simp add: S(3,7) client_follows_def ids_ok_mono [where n = "length es"]
        numbering_mono [where n = "length es"])
qed

section \<open>The other steps\<close>

text \<open>A new session of source \<open>a\<close>: a fresh name, a fresh identifier, a fresh window.\<close>

lemma ids_ok_new:
  assumes ids: "ids_ok base n ids counter" and n: "n < 2 ^ 32"
  defines "new \<equiv> (if counter + 1 = 0 then counter + 1 + 1 else counter + 1)"
  shows "ids_ok base (Suc n) (ids(k \<mapsto> new)) new" and "ids j \<noteq> Some new"
proof -
  have small: "issued base counter \<le> 2 * n" using ids by (simp add: ids_ok_def)
  with n have "issued base counter + 2 < 2 ^ 64" by simp
  then have "issued base (counter + 1) = issued base counter + 1"
      "issued base (counter + 1 + 1) = issued base counter + 1 + 1"
    using issued_Suc [of base counter] issued_Suc [of base "counter + 1"] by linarith+
  moreover have "new = counter + 1 \<or> new = counter + 1 + 1"
    unfolding new_def by (cases "counter + 1 = 0") simp_all
  ultimately have "issued base new = issued base counter + 1 \<or> issued base new = issued base counter + 1 + 1"
    by metis
  then have new: "issued base counter < issued base new" "issued base new \<le> issued base counter + 2"
    by auto
  have old: "issued base sid \<le> issued base counter" if "ids j = Some sid" for j sid
    using ids that unfolding ids_ok_def by blast
  then have other: "ids j \<noteq> Some new" for j using new(1) by fastforce
  then show "ids j \<noteq> Some new" .
  have "issued base new \<le> 2 * Suc n" using small new(2) by simp
  moreover have "issued base sid \<le> issued base new" if "(ids(k \<mapsto> new)) j = Some sid" for j sid
    using that old [of j sid] new(1) by (cases "j = k") simp_all
  moreover have "i = j" if "(ids(k \<mapsto> new)) i = Some sid" "(ids(k \<mapsto> new)) j = Some sid" for i j sid
    using that other [of i] other [of j] ids unfolding ids_ok_def by (auto split: if_splits)
  ultimately show "ids_ok base (Suc n) (ids(k \<mapsto> new)) new"
    unfolding ids_ok_def by blast
qed

lemma numbering_new:
  assumes num: "numbering num init cnt n seqs" and "seqs k = None"
  shows "numbering num (init(k := q)) (cnt(k := 0)) n (seqs(k \<mapsto> q))"
proof -
  have old: "seqs j \<noteq> None \<and> (\<exists>i < cnt j. p = init j + of_nat i)" if "(j, p, pl) \<in> set num" for j p pl
    using num that unfolding numbering_def by blast
  then have "j \<noteq> k" if "(j, p, pl) \<in> set num" for j p pl
    using that assms(2) by blast
  with old num show ?thesis unfolding numbering_def by (auto split: if_splits)
qed

lemma new_session_known:
  assumes "hm_get (ca_udp_sessions s) a = Some k"
  shows "new_session_step w now random a pl s = proceed w (TakeNumber k pl) s"
  using assms by (simp add: new_session_step_def)

lemma new_session_makes:
  fixes random :: u32 and pl :: bytes and w :: client_worker and now :: instant
  assumes none: "hm_get (ca_udp_sessions s) a = None"
  defines "counter \<equiv> c_session_id_counter (ca_base s)"
  defines "new \<equiv> (if counter + 1 = 0 then counter + 1 + 1 else counter + 1)"
  defines "k \<equiv> (a, ca_next_session s)" and "q \<equiv> random mod ((2 ^ 32 - 1) div 2)"
  defines "s' \<equiv> new_session_step w now random a pl s"
  shows "hm_get (ca_udp_sessions s') = (hm_get (ca_udp_sessions s))(a \<mapsto> k)"
    "session_view s' = (session_view s)(k \<mapsto> (new, q, response_window_new DEFAULT_RESPONSE_DEDUP_SIZE))"
    "ca_next_session s' = Suc (ca_next_session s)"
    "c_session_id_counter (ca_base s') = new"
    "c_udp_session_addrs (ca_base s') = c_udp_session_addrs (ca_base s)"
    "hm_get (ca_pending s') = (hm_get (ca_pending s))(w \<mapsto> AddSource k pl)"
    "\<And>j. hm_get (ca_udp_store s') j \<noteq> hm_get (ca_udp_store s) j \<Longrightarrow> j = k"
  using none unfolding s'_def new_session_step_def
  by (cases "c_session_id_counter (ca_base s) + 1 = 0";
      auto simp: Let_def counter_def new_def k_def q_def session_view_def fun_eq_iff split: if_splits)+

text \<open>An update of the window or the number of one session.\<close>

lemma session_view_modify:
  assumes "hm_get (ca_udp_store s) k = Some us"
  shows "session_view (modify_udp k f s) =
    (session_view s)(k \<mapsto> (us_session_id (f us), us_seq (f us), us_response_dedup (f us)))"
  using assms by (auto simp: session_view_def fun_eq_iff)

lemma numbering_take:
  assumes num: "numbering num init cnt n seqs" and k: "seqs k = Some q" and n: "n < 2 ^ 32"
  shows "numbering (num @ [(k, q, pl)]) init (cnt(k := Suc (cnt k))) (Suc n) (seqs(k \<mapsto> q + 1))"
proof -
  have q: "q = init k + of_nat (cnt k)" using num k unfolding numbering_def by blast
  have cnt: "cnt j \<le> n" for j using num unfolding numbering_def by blast
  have old: "seqs k' \<noteq> None \<and> (\<exists>j < cnt k'. q' = init k' + of_nat j)" if "(k', q', p) \<in> set num" for k' q' p
    using num that unfolding numbering_def by blast
  have "(k, q, p) \<notin> set num" for p
  proof
    assume "(k, q, p) \<in> set num"
    then obtain j where j: "j < cnt k" "q = init k + of_nat j" using old by blast
    with q have "(of_nat j :: u32) = of_nat (cnt k)" by simp
    then have "j = cnt k" using j(1) cnt [of k] n by (intro of_nat_word_inj) auto
    with j(1) show False by simp
  qed
  then have "(k, q) \<notin> (\<lambda>(k, q, pl). (k, q)) ` set num" by auto
  then have dist: "distinct (map (\<lambda>(k, q, pl). (k, q)) (num @ [(k, q, pl)]))"
    using num unfolding numbering_def by simp
  have "(seqs(k \<mapsto> q + 1)) k' \<noteq> None \<and> (\<exists>j < (cnt(k := Suc (cnt k))) k'. q' = init k' + of_nat j)"
    if "(k', q', p) \<in> set (num @ [(k, q, pl)])" for k' q' p
  proof (cases "k' = k")
    case True
    with that old [of k q' p] q show ?thesis by (auto intro: less_SucI)
  next
    case False
    with that old [of k' q' p] show ?thesis by simp
  qed
  moreover have "p = init j + of_nat ((cnt(k := Suc (cnt k))) j)" if "(seqs(k \<mapsto> q + 1)) j = Some p" for j p
    using that num q unfolding numbering_def by (cases "j = k") (auto simp: algebra_simps)
  ultimately show ?thesis
    using cnt dist unfolding numbering_def by (simp add: le_SucI)
qed

lemma numbered_from_snoc:
  "numbered_from a pl (num @ [(k, q, p)]) = numbered_from a pl num + (if fst k = a \<and> p = pl then 1 else 0)"
  by (simp add: numbered_from_def)

lemma fresh_session_name:
  assumes "client_names num got s"
  shows "session_view s (a, ca_next_session s) = None"
  using client_namesD(2) [OF assms, of "(a, ca_next_session s)"]
  by (cases "hm_get (ca_udp_store s) (a, ca_next_session s)") (simp_all add: session_view_def)

lemma client_inv_new_session:
  assumes inv: "client_async_inv base num init cnt es outs s"
    and h: "hm_get (ca_pending s) w = Some (NewSession a pl)"
    and none: "hm_get (ca_udp_sessions s) a = None" and n: "length es < 2 ^ 32"
    and ev: "ev = Advance v t rnd connected"
  shows "\<exists>init' cnt'. client_async_inv base num init' cnt' (es @ [ev]) outs
    (new_session_step w now random a pl s)"
proof -
  note I = client_async_invD [OF inv] and D = client_namesD [OF client_async_invD(1) [OF inv]]
  define s' where "s' = new_session_step w now random a pl s"
  define k where "k = (a, ca_next_session s)"
  define counter where "counter = c_session_id_counter (ca_base s)"
  define new where "new = (if counter + 1 = 0 then counter + 1 + 1 else counter + 1)"
  define q where "q = (random mod ((2 ^ 32 - 1) div 2) :: u32)"
  let ?win = "response_window_new DEFAULT_RESPONSE_DEDUP_SIZE"
  note M = new_session_makes [OF none, where w = w and now = now and random = random and pl = pl,
      folded s'_def counter_def, folded new_def k_def q_def]
  have fresh: "session_view s k = None" unfolding k_def by (rule fresh_session_name [OF I(1)])
  then have fresh_id: "id_in (session_view s) k = None" "seq_in (session_view s) k = None"
    by (simp_all add: id_in_def seq_in_def)
  have known: "udp_known s' j \<longleftrightarrow> j = k \<or> udp_known s j" for j
    by (simp add: udp_known_view M(2))
  have store: "hm_get (ca_udp_store s') j = hm_get (ca_udp_store s) j" if "j \<noteq> k" for j
    using M(7) [of j] that by blast
  have fin: "finite (dom (hm_get (ca_pending s)))" by simp
  note move = card_tasks_at [OF fin h, of "Some (AddSource k pl)", folded M(6)]
  have got: "response_numbers (es @ [ev]) = response_numbers es" by (simp add: ev fun_eq_iff)
  have "client_names (set num) (response_numbers es) s'"
    unfolding client_names_def
  proof (intro conjI allI impI)
    fix b j assume "hm_get (ca_udp_sessions s') b = Some j"
    then show "fst j = b" "udp_known s' j"
      using D(1) [of b j] by (auto simp: M(1) known k_def split: if_splits)
  next
    fix j us assume us: "hm_get (ca_udp_store s') j = Some us"
    have "snd j < Suc (ca_next_session s) \<and> rw_inv (us_response_dedup us)"
    proof (cases "j = k")
      case True
      have "session_view s' k = Some (new, q, ?win)" by (simp add: M(2))
      with us True have "us_response_dedup us = ?win" by (simp add: session_view_Some)
      with True show ?thesis by (simp add: k_def rw_inv_new DEFAULT_RESPONSE_DEDUP_SIZE_def)
    next
      case False
      with us D(2) [of j us] show ?thesis by (simp add: store less_SucI)
    qed
    then show "snd j < ca_next_session s'" "rw_inv (us_response_dedup us)" by (simp_all add: M(3))
  next
    fix u g assume g: "hm_get (ca_pending s') u = Some g"
    show "client_handler_ok (udp_known s') (set num) (response_numbers es) g"
    proof (cases "u = w")
      case True
      with g show ?thesis by (auto simp: M(6) client_handler_ok_def known)
    next
      case False
      with g have "hm_get (ca_pending s) u = Some g" by (simp add: M(6))
      from D(3) [OF this] show ?thesis by (rule client_handler_ok_mono) (simp_all add: known)
    qed
  qed
  then have "client_names (set num) (response_numbers (es @ [ev])) s'" by (simp add: got)
  moreover have "ids_ok base (length (es @ [ev])) (id_in (session_view s')) new"
    using ids_ok_new(1) [OF I(2) n, of k, folded counter_def, folded new_def] by (simp add: M(2))
  moreover have "numbering num (init(k := q)) (cnt(k := 0)) (length (es @ [ev])) (seq_in (session_view s'))"
    using numbering_new [OF I(3) fresh_id(2), of q] by (simp add: M(2) numbering_mono [where n = "length es"])
  moreover have "accounting num (es @ [ev]) (hm_get (ca_pending s'))"
    unfolding accounting_def
  proof (intro allI)
    fix b p
    from move [of "unnumbered b p"] accountingD [OF I(4), of b p]
    show "numbered_from b p num + card (tasks_at (hm_get (ca_pending s')) (unnumbered b p))
        \<le> count_list (packets_of (es @ [ev]) b) p"
      by (simp add: ev unnumbered_def k_def)
  qed
  moreover have "delivery_debt (es @ [ev]) outs (ca_next_session s') (refused_in (session_view s'))
      (hm_get (ca_pending s'))"
    unfolding delivery_debt_def
  proof (intro allI)
    fix l b p
    have "(\<Sum>i<ca_next_session s. card (response_numbers es p \<inter> refused_in (session_view s) (b, i)))
        = (\<Sum>i<ca_next_session s. card (response_numbers es p \<inter> refused_in (session_view s') (b, i)))"
      by (rule sum.cong) (auto simp: M(2) k_def)
    also have "\<dots> \<le> (\<Sum>i<ca_next_session s'.
        card (response_numbers (es @ [ev]) p \<inter> refused_in (session_view s') (b, i)))"
      by (simp add: M(3) got)
    finally show "count_list outs (SendTo l p b) + card (tasks_at (hm_get (ca_pending s')) (receiving b p))
        \<le> (\<Sum>i<ca_next_session s'.
             card (response_numbers (es @ [ev]) p \<inter> refused_in (session_view s') (b, i)))"
      using move [of "receiving b p"] delivery_debtD [OF I(5), of l p b] by (simp add: receiving_def)
  qed
  moreover have "list_all (sent_ok (id_in (session_view s')) (set num)) outs"
    by (rule outs_ok_mono [OF I(6)]) (use fresh_id(1) in \<open>auto simp: M(2)\<close>)
  ultimately show ?thesis
    unfolding client_async_inv_def s'_def [symmetric] M(4) by blast
qed

text \<open>A packet gets its number.\<close>

lemma client_inv_take_number:
  assumes inv: "client_async_inv base num init cnt es outs s"
    and h: "hm_get (ca_pending s) w = Some (TakeNumber k pl)" and n: "length es < 2 ^ 32"
    and ev: "ev = Advance v t rnd connected"
  shows "\<exists>num' cnt'. client_async_inv base num' init cnt' (es @ [ev]) outs (take_number_step w k pl s)"
proof -
  note I = client_async_invD [OF inv] and D = client_namesD [OF client_async_invD(1) [OF inv]]
  have "udp_known s k" using D(3) [OF h] by (simp add: client_handler_ok_def)
  then obtain us where us: "hm_get (ca_udp_store s) k = Some us" by (auto simp: udp_known_def)
  define q where "q = us_seq us"
  define b where "b = modify_udp k (\<lambda>us. us\<lparr>us_seq := us_seq us + 1\<rparr>) s"
  define s' where "s' = take_number_step w k pl s"
  have s': "s' = proceed w (TouchSession k q pl) b"
    by (simp add: s'_def take_number_step_def us b_def q_def)
  define num' where "num' = num @ [(k, q, pl)]"
  have view_k: "session_view s k = Some (us_session_id us, q, us_response_dedup us)"
    by (simp add: session_view_def us q_def)
  then have view: "session_view s' = (session_view s)(k \<mapsto> (us_session_id us, q + 1, us_response_dedup us))"
    by (simp add: s' b_def session_view_modify [OF us] q_def)
  have ids: "id_in (session_view s') = id_in (session_view s)"
    using view_k by (auto simp: view fun_eq_iff id_in_def)
  have refused: "refused_in (session_view s') = refused_in (session_view s)"
    using view_k by (auto simp: view fun_eq_iff refused_in_def)
  have known: "udp_known s' = udp_known s"
    using view_k by (auto simp: udp_known_view view fun_eq_iff)
  have pending: "hm_get (ca_pending s') = (hm_get (ca_pending s))(w \<mapsto> TouchSession k q pl)"
    by (simp add: s' b_def)
  have fin: "finite (dom (hm_get (ca_pending s)))" by simp
  note move = card_tasks_at [OF fin h, of "Some (TouchSession k q pl)", folded pending]
  have got: "response_numbers (es @ [ev]) = response_numbers es" by (simp add: ev fun_eq_iff)
  have ok: "client_handler_ok (udp_known s) (set num') (response_numbers es) g"
    if "hm_get (ca_pending s') u = Some g" for u g
  proof (cases "u = w")
    case True
    with that \<open>udp_known s k\<close> show ?thesis by (auto simp: pending client_handler_ok_def num'_def)
  next
    case False
    with that have "hm_get (ca_pending s) u = Some g" by (simp add: pending)
    from D(3) [OF this] show ?thesis by (rule client_handler_ok_mono) (auto simp: num'_def)
  qed
  have "client_names (set num') (response_numbers (es @ [ev])) s'"
    using D(1) D(2) us ok unfolding client_names_def known got
    by (auto simp: s' b_def split: if_splits)
  moreover have "ids_ok base (length (es @ [ev])) (id_in (session_view s')) (c_session_id_counter (ca_base s'))"
  proof -
    have "c_session_id_counter (ca_base s') = c_session_id_counter (ca_base s)" by (simp add: s' b_def)
    with I(2) show ?thesis unfolding ids by (simp add: ids_ok_mono [where n = "length es"])
  qed
  moreover have "numbering num' init (cnt(k := Suc (cnt k))) (length (es @ [ev])) (seq_in (session_view s'))"
    using numbering_take [OF I(3) _ n, of k q pl] view_k by (simp add: view num'_def seq_in_def [of _ k])
  moreover have "accounting num' (es @ [ev]) (hm_get (ca_pending s'))"
    unfolding accounting_def
  proof (intro allI)
    fix a p
    from move [of "unnumbered a p"] accountingD [OF I(4), of a p]
    show "numbered_from a p num' + card (tasks_at (hm_get (ca_pending s')) (unnumbered a p))
        \<le> count_list (packets_of (es @ [ev]) a) p"
      by (simp add: ev unnumbered_def num'_def numbered_from_snoc split: if_splits)
  qed
  moreover have "delivery_debt (es @ [ev]) outs (ca_next_session s') (refused_in (session_view s'))
      (hm_get (ca_pending s'))"
    unfolding delivery_debt_def
  proof (intro allI)
    fix l a p
    from move [of "receiving a p"] delivery_debtD [OF I(5), of l p a]
    show "count_list outs (SendTo l p a) + card (tasks_at (hm_get (ca_pending s')) (receiving a p))
        \<le> (\<Sum>i<ca_next_session s'.
             card (response_numbers (es @ [ev]) p \<inter> refused_in (session_view s') (a, i)))"
      by (simp add: refused got receiving_def) (simp add: s' b_def)
  qed
  moreover have "list_all (sent_ok (id_in (session_view s')) (set num')) outs"
    by (rule outs_ok_mono [OF I(6)]) (auto simp: ids num'_def)
  ultimately show ?thesis
    unfolding client_async_inv_def s'_def [symmetric] by blast
qed

text \<open>A response with a number the window has not refused.\<close>

lemma check_response_dup:
  assumes inv: "client_names num got s" and h: "hm_get (ca_pending s) w = Some (CheckResponse a k q pl)"
    and us: "hm_get (ca_udp_store s) k = Some us"
    and dup: "fst (response_is_duplicate (us_response_dedup us) q)"
    and s': "s' = check_response_step w a k q pl s"
  shows "client_quiet w (CheckResponse a k q pl) None s s'"
proof -
  have "snd (response_is_duplicate (us_response_dedup us) q) = us_response_dedup us"
    by (rule rw.duplicate_stable [OF dup])
  then have "session_view (modify_udp k (\<lambda>us'. us'\<lparr>us_response_dedup :=
      snd (response_is_duplicate (us_response_dedup us) q)\<rparr>) s) = session_view s"
    using us by (auto simp: session_view_def fun_eq_iff)
  with us dup h s' show ?thesis
    by (simp add: check_response_step_def client_quiet_def case_prod_beta)
qed

lemma client_inv_check_new:
  assumes inv: "client_async_inv base num init cnt es outs s"
    and h: "hm_get (ca_pending s) w = Some (CheckResponse a k q pl)"
    and us: "hm_get (ca_udp_store s) k = Some us"
    and new: "\<not> fst (response_is_duplicate (us_response_dedup us) q)"
    and ev: "ev = Advance v t rnd connected"
  shows "client_async_inv base num init cnt (es @ [ev]) outs (check_response_step w a k q pl s)"
proof -
  note I = client_async_invD [OF inv] and D = client_namesD [OF client_async_invD(1) [OF inv]]
  let ?win = "snd (response_is_duplicate (us_response_dedup us) q)"
  define b where "b = modify_udp k (\<lambda>us. us\<lparr>us_response_dedup := ?win\<rparr>) s"
  define s' where "s' = check_response_step w a k q pl s"
  have s': "s' = proceed w (TouchReceiver a k pl) b"
    using new by (simp add: s'_def check_response_step_def us b_def case_prod_beta)
  have arrived: "q \<in> response_numbers es pl" "udp_known s k" "fst k = a"
    using D(3) [OF h] by (simp_all add: client_handler_ok_def)
  have rw: "rw_inv (us_response_dedup us)" and k_next: "snd k < ca_next_session s"
    using D(2) [OF us] by simp_all
  have view_k: "session_view s k = Some (us_session_id us, us_seq us, us_response_dedup us)"
    by (simp add: session_view_def us)
  have view: "session_view s' = (session_view s)(k \<mapsto> (us_session_id us, us_seq us, ?win))"
    by (simp add: s' b_def session_view_modify [OF us])
  have ids: "id_in (session_view s') = id_in (session_view s)"
    using view_k by (auto simp: view fun_eq_iff id_in_def)
  have seqs: "seq_in (session_view s') = seq_in (session_view s)"
    using view_k by (auto simp: view fun_eq_iff seq_in_def)
  have refused: "refused_in (session_view s') = (refused_in (session_view s))(k := rw_refused ?win)"
    by (simp add: view)
  have refused_k: "refused_in (session_view s) k = rw_refused (us_response_dedup us)"
    by (simp add: refused_in_def view_k)
  have known: "udp_known s' = udp_known s"
    using view_k by (auto simp: udp_known_view view fun_eq_iff)
  have pending: "hm_get (ca_pending s') = (hm_get (ca_pending s))(w \<mapsto> TouchReceiver a k pl)"
    by (simp add: s' b_def)
  have base: "ca_base s' = ca_base s" "ca_next_session s' = ca_next_session s" by (simp_all add: s' b_def)
  have fin: "finite (dom (hm_get (ca_pending s)))" by simp
  note move = card_tasks_at [OF fin h, of "Some (TouchReceiver a k pl)", folded pending]
  have got: "response_numbers (es @ [ev]) = response_numbers es" by (simp add: ev fun_eq_iff)
  have ok: "client_handler_ok (udp_known s) (set num) (response_numbers es) g"
    if "hm_get (ca_pending s') u = Some g" for u g
    using that D(3) [of u g] arrived by (cases "u = w") (auto simp: pending client_handler_ok_def)
  have "client_names (set num) (response_numbers (es @ [ev])) s'"
    using D(1) D(2) us ok rw.inv_check [OF rw, of q] unfolding client_names_def known got
    by (auto simp: s' b_def split: if_splits)
  moreover have "accounting num (es @ [ev]) (hm_get (ca_pending s'))"
    unfolding accounting_def
  proof (intro allI)
    fix c p
    from move [of "unnumbered c p"] accountingD [OF I(4), of c p]
    show "numbered_from c p num + card (tasks_at (hm_get (ca_pending s')) (unnumbered c p))
        \<le> count_list (packets_of (es @ [ev]) c) p"
      by (simp add: ev unnumbered_def)
  qed
  moreover have "delivery_debt (es @ [ev]) outs (ca_next_session s') (refused_in (session_view s'))
      (hm_get (ca_pending s'))"
    unfolding delivery_debt_def
  proof (intro allI)
    fix l c p
    let ?old = "\<lambda>i. card (response_numbers es p \<inter> refused_in (session_view s) (c, i))"
    let ?new = "\<lambda>i. card (response_numbers es p \<inter> refused_in (session_view s') (c, i))"
    have grows: "refused_in (session_view s) j \<subseteq> refused_in (session_view s') j" for j
      using rw.refused_grows [OF rw, of q] by (cases "j = k") (simp_all add: refused refused_k)
    have le: "?old i \<le> ?new i" for i by (intro card_mono Int_mono subset_refl grows) simp
    have "(\<Sum>i<ca_next_session s. ?old i) + (if c = a \<and> p = pl then 1 else 0) \<le> (\<Sum>i<ca_next_session s. ?new i)"
    proof (cases "c = a \<and> p = pl")
      case True
      have k_eq: "(c, snd k) = k" using True arrived(3) by (cases k) simp
      have "q \<notin> refused_in (session_view s) k" "q \<in> refused_in (session_view s') k"
        using new rw.verdict [OF rw, of q] rw.checked_refused [OF rw, of q] by (simp_all add: refused refused_k)
      then have "insert q (response_numbers es p \<inter> refused_in (session_view s) k)
          \<subseteq> response_numbers es p \<inter> refused_in (session_view s') k"
        and "q \<notin> response_numbers es p \<inter> refused_in (session_view s) k"
        using grows [of k] arrived(1) True by auto
      then have "Suc (?old (snd k)) \<le> ?new (snd k)"
        using card_mono [of "response_numbers es p \<inter> refused_in (session_view s') k"
            "insert q (response_numbers es p \<inter> refused_in (session_view s) k)"]
        by (simp add: k_eq)
      moreover have "(\<Sum>i \<in> {..<ca_next_session s} - {snd k}. ?old i)
          \<le> (\<Sum>i \<in> {..<ca_next_session s} - {snd k}. ?new i)"
        by (rule sum_mono) (rule le)
      ultimately show ?thesis
        using True k_next sum.remove [of "{..<ca_next_session s}" "snd k" ?old]
          sum.remove [of "{..<ca_next_session s}" "snd k" ?new] by simp
    next
      case False
      then have one: "(if c = a \<and> p = pl then 1 else 0) = (0 :: nat)" by auto
      show ?thesis unfolding one using sum_mono [of "{..<ca_next_session s}" ?old ?new] le by simp
    qed
    moreover have "card (tasks_at (hm_get (ca_pending s')) (receiving c p))
        = card (tasks_at (hm_get (ca_pending s)) (receiving c p)) + (if c = a \<and> p = pl then 1 else 0)"
      using move [of "receiving c p"] by (auto simp: receiving_def split: if_splits)
    ultimately show "count_list outs (SendTo l p c) + card (tasks_at (hm_get (ca_pending s')) (receiving c p))
        \<le> (\<Sum>i<ca_next_session s'.
             card (response_numbers (es @ [ev]) p \<inter> refused_in (session_view s') (c, i)))"
      using delivery_debtD [OF I(5), of l p c] unfolding got base by linarith
  qed
  ultimately show ?thesis
    using I(2,3,6) unfolding client_async_inv_def s'_def [symmetric]
    by (simp add: ids seqs base ids_ok_mono [where n = "length es"] numbering_mono [where n = "length es"])
qed

section \<open>Taking something up\<close>

text \<open>
  A task that takes something up changes nothing the invariants look at but its own place, where
  it has only values that have just arrived.
\<close>

definition began :: "async_client \<Rightarrow> async_client \<Rightarrow> client_event \<Rightarrow> bool" where
  "began s s' e \<longleftrightarrow>
     ca_udp_sessions s' = ca_udp_sessions s \<and> ca_udp_store s' = ca_udp_store s \<and>
     ca_next_session s' = ca_next_session s \<and>
     c_session_id_counter (ca_base s') = c_session_id_counter (ca_base s) \<and>
     (hm_get (ca_pending s') = hm_get (ca_pending s) \<or>
      (\<exists>w h. hm_get (ca_pending s) w = None \<and> hm_get (ca_pending s') = (hm_get (ca_pending s))(w \<mapsto> h) \<and>
         (\<forall>kn num got. client_handler_ok kn num (\<lambda>pl. got pl \<union> response_numbers [Begin e] pl) h) \<and>
         (\<forall>a pl. \<not> receiving a pl h) \<and>
         (\<forall>a pl. unnumbered a pl h \<longrightarrow> packets_of [Begin e] a = [pl])))"

lemma began_proceed:
  assumes "hm_get (ca_pending s) w = None"
    and "\<And>kn num got. client_handler_ok kn num (\<lambda>pl. got pl \<union> response_numbers [Begin e] pl) h"
    and "\<And>a pl. \<not> receiving a pl h" and "\<And>a pl. unnumbered a pl h \<Longrightarrow> packets_of [Begin e] a = [pl]"
  shows "began s (proceed w h s) e"
proof -
  have "hm_get (ca_pending (proceed w h s)) = (hm_get (ca_pending s))(w \<mapsto> h)" by simp
  with assms have "\<exists>w' h'. hm_get (ca_pending s) w' = None \<and>
      hm_get (ca_pending (proceed w h s)) = (hm_get (ca_pending s))(w' \<mapsto> h') \<and>
      (\<forall>kn num got. client_handler_ok kn num (\<lambda>pl. got pl \<union> response_numbers [Begin e] pl) h') \<and>
      (\<forall>a pl. \<not> receiving a pl h') \<and>
      (\<forall>a pl. unnumbered a pl h' \<longrightarrow> packets_of [Begin e] a = [pl])" by blast
  then show ?thesis by (simp add: began_def)
qed

lemma began_base:
  "c_session_id_counter c' = c_session_id_counter (ca_base s) \<Longrightarrow> began s (s\<lparr>ca_base := c'\<rparr>) e"
  by (simp add: began_def)

lemma began_same [simp]: "began s s e"
  by (simp add: began_def)

lemma begin_handler_began:
  assumes enabled: "client_async_enabled s (Begin e)"
  shows "began s (begin_handler e s) e"
proof -
  have idle: "hm_get (ca_pending s) w = None" if "client_worker_of e = Some w" for w
    using enabled that by (simp add: client_async_enabled_def)
  show ?thesis
  proof (cases e)
    case (Packet now random connects a pl)
    have "hm_get (ca_pending s) AtListener = None" by (rule idle) (simp add: Packet client_worker_of_def)
    then have "began s (proceed AtListener (FindSession a pl) s) e"
      by (rule began_proceed)
        (auto simp: client_handler_ok_def receiving_def unnumbered_def packets_of_def Packet)
    then show ?thesis by (simp add: Packet begin_handler_def)
  next
    case (UdpResponse now sock data)
    have "hm_get (ca_pending s) (AtUdpServer sock) = None"
      by (rule idle) (simp add: UdpResponse client_worker_of_def)
    then have "began s (proceed (AtUdpServer sock) (FindSource sid q pl) s) e"
      if "decode_udp data = Inr (sid, q, pl)" for sid q pl
      by (rule began_proceed)
        (simp_all add: client_handler_ok_def receiving_def unnumbered_def response_numbers_def
          response_of_def UdpResponse that)
    then show ?thesis by (auto simp: UdpResponse begin_handler_def split: sum.split)
  next
    case (TcpResponse now n data)
    have "hm_get (ca_pending s) (AtReader n) = None"
      by (rule idle) (simp add: TcpResponse client_worker_of_def)
    then have "began s (proceed (AtReader n) (FindReceiver a q pl) s) e"
      if "decode_tcp data = Inr (sid, q, pl)" for a sid q pl
      by (rule began_proceed)
        (simp_all add: client_handler_ok_def receiving_def unnumbered_def response_numbers_def
          response_of_def TcpResponse that)
    then show ?thesis by (auto simp: TcpResponse begin_handler_def split: sum.split option.split)
  next
    case (TcpReaderEnds n)
    have "hm_get (ca_pending s) (AtReader n) = None"
      by (rule idle) (simp add: TcpReaderEnds client_worker_of_def)
    then have "began s (proceed (AtReader n) (CloseTcp key) s) e" for key
      by (rule began_proceed) (simp_all add: client_handler_ok_def receiving_def unnumbered_def)
    then show ?thesis by (auto simp: TcpReaderEnds begin_handler_def split: option.split)
  next
    case (CleanupTick now)
    have "hm_get (ca_pending s) AtCleanup = None"
      by (rule idle) (simp add: CleanupTick client_worker_of_def)
    then have "began s (proceed AtCleanup (ScanUdp now todo []) s) e" for todo
      by (rule began_proceed) (simp_all add: client_handler_ok_def receiving_def unnumbered_def)
    then show ?thesis by (simp add: CleanupTick begin_handler_def)
  qed (auto simp: begin_handler_def client_handle_def client_stop_def Let_def intro!: began_base)
qed

lemma client_inv_began:
  assumes inv: "client_async_inv base num init cnt es outs s" and began: "began s s' e"
    and ev: "ev = Begin e"
  shows "client_async_inv base num init cnt (es @ [ev]) outs s'"
proof -
  note I = client_async_invD [OF inv]
  have same: "ca_udp_sessions s' = ca_udp_sessions s" "ca_udp_store s' = ca_udp_store s"
      "ca_next_session s' = ca_next_session s"
      "c_session_id_counter (ca_base s') = c_session_id_counter (ca_base s)"
    using began by (simp_all add: began_def)
  then have view: "session_view s' = session_view s" and known: "udp_known s' = udp_known s"
    by (simp_all add: session_view_def udp_known_def fun_eq_iff)
  have grow: "response_numbers es pl \<subseteq> response_numbers (es @ [ev]) pl" for pl by simp
  note D = client_namesD [OF client_names_events [OF I(1) grow order_refl]]
  have fin: "finite (dom (hm_get (ca_pending s)))" by simp
  have "client_handler_ok (udp_known s) (set num) (response_numbers (es @ [ev])) g"
      if g: "hm_get (ca_pending s') u = Some g" for u g
  proof (cases "hm_get (ca_pending s') = hm_get (ca_pending s)")
    case True
    with g show ?thesis by (intro D(3) [of u]) simp
  next
    case False
    with began obtain w h where h: "hm_get (ca_pending s') = (hm_get (ca_pending s))(w \<mapsto> h)"
      "\<forall>kn num got. client_handler_ok kn num (\<lambda>pl. got pl \<union> response_numbers [Begin e] pl) h"
      unfolding began_def by blast
    from h(2) have "client_handler_ok (udp_known s) (set num) (response_numbers (es @ [ev])) h"
      unfolding ev response_numbers_simps(2) by blast
    show ?thesis
    proof (cases "u = w")
      case True
      with g h(1) have "g = h" by simp
      with \<open>client_handler_ok (udp_known s) (set num) (response_numbers (es @ [ev])) h\<close> show ?thesis by simp
    next
      case False
      with g h(1) show ?thesis by (intro D(3) [of u]) simp
    qed
  qed
  with D(1,2) have "client_names (set num) (response_numbers (es @ [ev])) s'"
    unfolding client_names_def by (simp add: same known)
  moreover have "card (tasks_at (hm_get (ca_pending s')) (unnumbered a pl))
      \<le> card (tasks_at (hm_get (ca_pending s)) (unnumbered a pl)) + count_list (packets_of [ev] a) pl \<and>
    card (tasks_at (hm_get (ca_pending s')) (receiving a pl))
      = card (tasks_at (hm_get (ca_pending s)) (receiving a pl))" for a pl
  proof (cases "hm_get (ca_pending s') = hm_get (ca_pending s)")
    case True
    then show ?thesis by simp
  next
    case False
    with began obtain w h where h: "hm_get (ca_pending s) w = None"
      "hm_get (ca_pending s') = (hm_get (ca_pending s))(w \<mapsto> h)"
      "\<forall>a pl. \<not> receiving a pl h" "\<forall>a pl. unnumbered a pl h \<longrightarrow> packets_of [Begin e] a = [pl]"
      unfolding began_def by blast
    from h(3,4) show ?thesis
      unfolding h(2) card_tasks_at_start [OF fin h(1)] by (auto simp: ev)
  qed
  then have "accounting num (es @ [ev]) (hm_get (ca_pending s'))"
      "delivery_debt (es @ [ev]) outs (ca_next_session s') (refused_in (session_view s')) (hm_get (ca_pending s'))"
  proof -
    assume P: "\<And>a pl. card (tasks_at (hm_get (ca_pending s')) (unnumbered a pl))
        \<le> card (tasks_at (hm_get (ca_pending s)) (unnumbered a pl)) + count_list (packets_of [ev] a) pl \<and>
      card (tasks_at (hm_get (ca_pending s')) (receiving a pl))
        = card (tasks_at (hm_get (ca_pending s)) (receiving a pl))"
    show "accounting num (es @ [ev]) (hm_get (ca_pending s'))"
      unfolding accounting_def
    proof (intro allI)
      fix a pl
      show "numbered_from a pl num + card (tasks_at (hm_get (ca_pending s')) (unnumbered a pl))
          \<le> count_list (packets_of (es @ [ev]) a) pl"
        using P [of a pl] accountingD [OF I(4), of a pl] by simp
    qed
    show "delivery_debt (es @ [ev]) outs (ca_next_session s') (refused_in (session_view s'))
        (hm_get (ca_pending s'))"
      unfolding delivery_debt_def view same(3)
    proof (intro allI)
      fix l a pl
      let ?ref = "\<lambda>i. refused_in (session_view s) (a, i)"
      have "(\<Sum>i<ca_next_session s. card (response_numbers es pl \<inter> ?ref i))
          \<le> (\<Sum>i<ca_next_session s. card (response_numbers (es @ [ev]) pl \<inter> ?ref i))"
        by (intro sum_mono card_mono) auto
      with P [of a pl] delivery_debtD [OF I(5), of l pl a]
      show "count_list outs (SendTo l pl a) + card (tasks_at (hm_get (ca_pending s')) (receiving a pl))
          \<le> (\<Sum>i<ca_next_session s. card (response_numbers (es @ [ev]) pl \<inter> ?ref i))"
        by simp
    qed
  qed
  ultimately show ?thesis
    using I(2,3,6) unfolding client_async_inv_def view same(4)
    by (simp add: ids_ok_mono [where n = "length es"] numbering_mono [where n = "length es"])
qed

section \<open>Along a run\<close>

lemma client_async_inv_step:
  assumes inv: "client_async_inv base num init cnt es outs s" and n: "length es < 2 ^ 32"
    and enabled: "client_async_enabled s ev" and handle: "client_async_handle ev s = (os, s')"
  shows "\<exists>num' init' cnt'. client_async_inv base num' init' cnt' (es @ [ev]) (outs @ os) s'"
proof (cases ev)
  case (Begin e)
  with handle have "os = []" "s' = begin_handler e s" by (simp_all add: client_async_handle_def)
  moreover have "began s (begin_handler e s) e"
    using enabled Begin by (intro begin_handler_began) simp
  ultimately show ?thesis using client_inv_began [OF inv _ Begin] by auto
next
  case (Advance w now random connected)
  with enabled obtain h where h: "hm_get (ca_pending s) w = Some h"
    by (auto simp: client_async_enabled_def split: option.splits)
  with handle Advance have step: "client_step w now random connected h s = (os, s')"
    by (simp add: client_async_handle_def)
  note names = client_async_invD(1) [OF inv]
  note quiet = client_async_inv_quiet [OF inv _ _ Advance]
  consider "client_plain h" | a pl where "h = NewSession a pl" | k pl where "h = TakeNumber k pl"
    | a k q pl where "h = CheckResponse a k q pl"
    by (cases h) (auto simp: client_plain_def)
  then show ?thesis
  proof cases
    case 1
    from client_plain_quiet [OF names h 1 step] quiet show ?thesis by blast
  next
    case (2 a pl)
    with step have s': "os = []" "s' = new_session_step w now random a pl s"
      by (simp_all add: client_step_def)
    show ?thesis
    proof (cases "hm_get (ca_udp_sessions s) a")
      case None
      obtain init' cnt' where "client_async_inv base num init' cnt' (es @ [ev]) outs
          (new_session_step w now random a pl s)"
        using client_inv_new_session [OF inv h [unfolded 2] None n Advance] by blast
      with s' show ?thesis by auto
    next
      case (Some k)
      then have go: "s' = proceed w (TakeNumber k pl) s" by (simp add: s' new_session_known)
      have "fst k = a" "udp_known s k" using client_namesD(1) [OF names Some] by simp_all
      then show ?thesis
        using h 2 go s'(1) quiet [of w h "Some (TakeNumber k pl)" s' "[]"]
        by (auto simp: client_quiet_def client_follows_def client_handler_ok_def receiving_def unnumbered_def)
    qed
  next
    case (3 k pl)
    with step have "os = []" "s' = take_number_step w k pl s" by (simp_all add: client_step_def)
    with client_inv_take_number [OF inv h [unfolded 3] n Advance] show ?thesis by auto
  next
    case (4 a k q pl)
    with step have s': "os = []" "s' = check_response_step w a k q pl s" by (simp_all add: client_step_def)
    have "udp_known s k" using client_namesD(3) [OF names h] 4 by (simp add: client_handler_ok_def)
    then obtain us where us: "hm_get (ca_udp_store s) k = Some us" by (auto simp: udp_known_def)
    show ?thesis
    proof (cases "fst (response_is_duplicate (us_response_dedup us) q)")
      case True
      from check_response_dup [OF names h [unfolded 4] us True s'(2)] quiet [of w h None s' "[]"] 4 s'(1)
      show ?thesis by (auto simp: client_follows_def)
    next
      case False
      from client_inv_check_new [OF inv h [unfolded 4] us False Advance] s' show ?thesis by auto
    qed
  qed
qed

definition client_async_started :: "u64 \<Rightarrow> client_config \<Rightarrow> client_sockets \<Rightarrow> async_client" where
  "client_async_started r cfg os = client_async_new (client_started r cfg os)"

lemma client_async_inv_started:
  "client_async_inv r [] (\<lambda>_. 0) (\<lambda>_. 0) [] [] (client_async_started r cfg os)"
  by (simp add: client_async_inv_def client_names_def ids_ok_def numbering_def accounting_def
      delivery_debt_def client_async_started_def client_async_new_def session_view_def id_in_def seq_in_def
      numbered_from_def tasks_at_def client_started_def client_start_frame client_new_def issued_def)

lemma client_async_inv_along:
  assumes "client_async_run s es2 outs2 s'" and "client_async_inv base num init cnt es1 outs1 s"
    and "length es1 + length es2 \<le> 2 ^ 32"
  shows "\<exists>num' init' cnt'. client_async_inv base num' init' cnt' (es1 @ es2) (outs1 @ outs2) s'"
  using assms
proof (induction rule: run.induct)
  case (run_Nil s)
  then show ?case by auto
next
  case (run_snoc s es os s1 e os' s2)
  then obtain num' init' cnt' where
    "client_async_inv base num' init' cnt' (es1 @ es) (outs1 @ os) s1" by auto
  from client_async_inv_step [OF this _ run_snoc.hyps(2,3)] run_snoc.prems(2) show ?case by simp
qed

lemma reachable_client_async_inv:
  assumes "client_async_run (client_async_started r cfg os) es outs s" and "length es \<le> 2 ^ 32"
  shows "\<exists>num init cnt. client_async_inv r num init cnt es outs s"
  using client_async_inv_along [OF assms(1) client_async_inv_started] assms(2) by simp

section \<open>How often a response is delivered\<close>

text \<open>The session objects made so far for a source.\<close>

definition sessions_of :: "async_client \<Rightarrow> socket_addr \<Rightarrow> nat" where
  "sessions_of s a = length (filter (\<lambda>(k, us). fst k = a) (hm_iter (ca_udp_store s)))"

lemma sessions_of_card: "sessions_of s a = card {i. udp_known s (a, i)}"
proof -
  let ?F = "filter (\<lambda>(k, us). fst k = a) (hm_iter (ca_udp_store s))"
  have "k \<in> fst ` set ?F \<longleftrightarrow> k \<in> Pair a ` {i. udp_known s (a, i)}" for k
    by (cases k) (auto simp: udp_known_def image_iff)
  then have "fst ` set ?F = Pair a ` {i. udp_known s (a, i)}" by blast
  then have "card (fst ` set ?F) = card {i. udp_known s (a, i)}"
    by (simp add: card_image inj_on_def)
  moreover have "card (fst ` set ?F) = length ?F"
  proof -
    have "distinct (map fst ?F)" by (simp add: distinct_map_filter)
    then show ?thesis using distinct_card [of "map fst ?F"] by simp
  qed
  ultimately show ?thesis by (simp add: sessions_of_def)
qed

lemma delivered_bounded:
  assumes "client_async_run (client_async_started r cfg os) es outs s" and "length es \<le> 2 ^ 32"
  shows "count_list outs (SendTo l pl a) \<le> sessions_of s a * card (response_numbers es pl)"
proof -
  from reachable_client_async_inv [OF assms] obtain num init cnt where
    I: "client_async_inv r num init cnt es outs s" by blast
  have "response_numbers es pl \<subseteq> (\<lambda>ev. fst (the (response_of ev))) ` set es"
    by (force simp: response_numbers_def image_iff)
  then have fin: "finite (response_numbers es pl)" by (rule finite_subset) simp
  have names: "i < ca_next_session s" if "udp_known s (a, i)" for i
  proof -
    from that obtain us where "hm_get (ca_udp_store s) (a, i) = Some us" by (auto simp: udp_known_def)
    from client_namesD(2) [OF client_async_invD(1) [OF I] this] show ?thesis by simp
  qed
  let ?K = "{i. udp_known s (a, i)}" and ?f = "\<lambda>i. card (response_numbers es pl \<inter> refused_in (session_view s) (a, i))"
  have "count_list outs (SendTo l pl a) \<le> (\<Sum>i<ca_next_session s. ?f i)"
    using delivery_debtD [OF client_async_invD(5) [OF I], of l pl a] by simp
  also have "\<dots> = (\<Sum>i\<in>?K. ?f i)"
    by (rule sum.mono_neutral_right) (use names in \<open>auto simp: udp_known_view refused_in_def split: option.splits\<close>)
  also have "\<dots> \<le> (\<Sum>i\<in>?K. card (response_numbers es pl))"
    by (intro sum_mono card_mono fin) auto
  finally show ?thesis by (simp add: sessions_of_card)
qed

end
