(* ===== verification/Server.thy ===== *)
theory Server
  imports Server_Dedup Framing Config Socket_Addr Sessions
begin

text \<open>
  The server (\<open>src/fproxy-rs/src/server.rs\<close>): its sessions, the paths back to each client, and
  what it does with a packet from a client, with a response from the target, at the end of a TCP
  connection and on a tick of the cleanup timer. As in theory \<open>Client\<close> a handler is a function
  from the state to the bytes sent and the next state, at one instant; what the operating
  system answers is an argument.
\<close>

section \<open>State\<close>

text \<open>
  \<open>conn_id\<close> is the address of the writer's \<open>Arc\<close>; \<open>conn\<close> is the writer itself.
\<close>

datatype client_path =
    UdpPath socket_addr socket
  | TcpPath usize conn

text \<open>The cancel token of a session is known by its target socket, see \<open>s_cancelled_sockets\<close>.\<close>

record target_session =
  tg_target_conn :: socket
  tg_dedup_window :: dedup_window
  tg_response_seq :: u32
  tg_last_activity :: instant

datatype server_task = UdpListener socket | TcpListener socket | ServerCleanup

text \<open>
  \<open>s_responders\<close> are the running \<open>handle_target_response\<close> tasks, by their socket, with the session
  identifier they were started for; \<open>s_conns\<close> are the running \<open>handle_tcp_conn\<close> tasks, by their
  writer, with its address.
\<close>

record server =
  s_cfg :: server_config
  s_cancelled :: bool
  s_sessions :: "(u64, target_session) hash_map"
  s_client_paths :: "(u64, client_path list) hash_map"
  s_tcp_conn_to_session :: "(usize, u64) hash_map"
  s_tasks :: "server_task list"
  s_responders :: "(socket, u64) hash_map"
  s_cancelled_sockets :: "socket set"
  s_conns :: "(conn, usize) hash_map"
  s_next_socket :: socket

datatype server_output =
    TargetSend socket bytes
  | ClientSend socket bytes socket_addr
  | ClientWrite conn bytes

definition server_new :: "server_config \<Rightarrow> server" where
  "server_new cfg =
     \<lparr>s_cfg = cfg, s_cancelled = False, s_sessions = hm_new, s_client_paths = hm_new,
      s_tcp_conn_to_session = hm_new, s_tasks = [], s_responders = hm_new,
      s_cancelled_sockets = {}, s_conns = hm_new, s_next_socket = 0\<rparr>"

section \<open>Starting and stopping\<close>

record server_sockets =
  bind_endpoint :: "nat \<Rightarrow> io_error + socket"
  endpoint_addr :: "nat \<Rightarrow> io_error + socket_addr"

text \<open>The loop over the listen addresses; on an error the listeners made so far stay.\<close>

fun open_listeners ::
    "server_sockets \<Rightarrow> nat \<Rightarrow> endpoint list \<Rightarrow> socket_addr list \<Rightarrow> server
       \<Rightarrow> (io_error + socket_addr list) \<times> server" where
  "open_listeners os i [] addrs s = (Inr addrs, s)"
| "open_listeners os i (ep # eps) addrs s =
     (case bind_endpoint os i of
        Inl e \<Rightarrow> (Inl e, s)
      | Inr sock \<Rightarrow>
          (case endpoint_addr os i of
             Inl e \<Rightarrow> (Inl e, s)
           | Inr addr \<Rightarrow>
               let task = (case ep_protocol ep of Udp \<Rightarrow> UdpListener sock | Tcp \<Rightarrow> TcpListener sock)
               in open_listeners os (Suc i) eps (addrs @ [addr]) (s\<lparr>s_tasks := s_tasks s @ [task]\<rparr>)))"

definition server_start :: "server_sockets \<Rightarrow> server \<Rightarrow> (io_error + socket_addr list) \<times> server" where
  "server_start os s =
     (case open_listeners os 0 (sc_listen_addrs (s_cfg s)) [] s of
        (Inl e, s1) \<Rightarrow> (Inl e, s1)
      | (Inr addrs, s1) \<Rightarrow> (Inr addrs, s1\<lparr>s_tasks := s_tasks s1 @ [ServerCleanup]\<rparr>))"

definition server_stop :: "server \<Rightarrow> server" where
  "server_stop s = s\<lparr>s_cancelled := True\<rparr>"

definition session_count :: "server \<Rightarrow> nat" where
  "session_count s = hm_len (s_sessions s)"

section \<open>Sessions\<close>

text \<open>What happens when the socket to the target is made.\<close>

datatype target_open = BindFails io_error | ConnectFails io_error | TargetOpens

definition get_or_create_session ::
    "instant \<Rightarrow> target_open \<Rightarrow> server \<Rightarrow> u64 \<Rightarrow> (target_session \<times> bool) option \<times> server" where
  "get_or_create_session now target s session_id =
     (case hm_get (s_sessions s) session_id of
        Some session \<Rightarrow> (Some (session, False), s)
      | None \<Rightarrow>
          (case target of
             BindFails e \<Rightarrow> (None, s)
           | ConnectFails e \<Rightarrow> (None, s)
           | TargetOpens \<Rightarrow>
               let n = s_next_socket s;
                   session = \<lparr>tg_target_conn = n,
                              tg_dedup_window = dedup_window_new (sc_dedup_window (s_cfg s)),
                              tg_response_seq = 0, tg_last_activity = now\<rparr>
               in (Some (session, True),
                   s\<lparr>s_next_socket := Suc n,
                     s_sessions := hm_insert session_id session (s_sessions s),
                     s_responders := hm_insert n session_id (s_responders s)\<rparr>)))"

section \<open>Paths\<close>

text \<open>The loop that looks for the path of a socket; \<open>None\<close> when there is none.\<close>

fun update_udp_path :: "socket_addr \<Rightarrow> socket \<Rightarrow> client_path list \<Rightarrow> client_path list option" where
  "update_udp_path client_addr sock [] = None"
| "update_udp_path client_addr sock (p # ps) =
     (case p of
        UdpPath addr s' \<Rightarrow>
          if s' = sock then
            Some ((if addr \<noteq> client_addr then UdpPath client_addr s' else p) # ps)
          else map_option ((#) p) (update_udp_path client_addr sock ps)
      | TcpPath _ _ \<Rightarrow> map_option ((#) p) (update_udp_path client_addr sock ps))"

definition add_udp_path :: "server \<Rightarrow> u64 \<Rightarrow> socket_addr \<Rightarrow> socket \<Rightarrow> server" where
  "add_udp_path s session_id client_addr sock =
     (let session_paths = unwrap_or (hm_get (s_client_paths s) session_id) [];
          session_paths' =
            (case update_udp_path client_addr sock session_paths of
               Some ps \<Rightarrow> ps
             | None \<Rightarrow> session_paths @ [UdpPath client_addr sock])
      in s\<lparr>s_client_paths := hm_insert session_id session_paths' (s_client_paths s)\<rparr>)"

definition is_tcp_path_of :: "usize \<Rightarrow> conn \<Rightarrow> client_path \<Rightarrow> bool" where
  "is_tcp_path_of conn_id writer p =
     (case p of UdpPath _ _ \<Rightarrow> False | TcpPath cid w \<Rightarrow> cid = conn_id \<or> w = writer)"

definition add_tcp_path :: "server \<Rightarrow> u64 \<Rightarrow> usize \<Rightarrow> conn \<Rightarrow> server" where
  "add_tcp_path s session_id conn_id writer =
     (let s1 = s\<lparr>s_tcp_conn_to_session := hm_insert conn_id session_id (s_tcp_conn_to_session s)\<rparr>;
          session_paths = unwrap_or (hm_get (s_client_paths s1) session_id) [];
          session_paths' =
            (if list_ex (is_tcp_path_of conn_id writer) session_paths then session_paths
             else session_paths @ [TcpPath conn_id writer])
      in s1\<lparr>s_client_paths := hm_insert session_id session_paths' (s_client_paths s1)\<rparr>)"

text \<open>The predicate that \<open>retain\<close> negates.\<close>

definition matches_conn :: "usize \<Rightarrow> client_path \<Rightarrow> bool" where
  "matches_conn conn_id p = (case p of UdpPath _ _ \<Rightarrow> False | TcpPath cid _ \<Rightarrow> cid = conn_id)"

definition cleanup_tcp_conn :: "usize \<Rightarrow> server \<Rightarrow> server" where
  "cleanup_tcp_conn conn_id s =
     (case hm_get (s_tcp_conn_to_session s) conn_id of
        None \<Rightarrow> s
      | Some session_id \<Rightarrow>
          let s1 = s\<lparr>s_tcp_conn_to_session := hm_remove conn_id (s_tcp_conn_to_session s)\<rparr> in
          (case hm_get (s_client_paths s1) session_id of
             None \<Rightarrow> s1
           | Some session_paths \<Rightarrow>
               s1\<lparr>s_client_paths := hm_insert session_id
                   (filter (\<lambda>p. \<not> matches_conn conn_id p) session_paths) (s_client_paths s1)\<rparr>))"

section \<open>Packets from clients\<close>

definition handle_udp_packet ::
    "instant \<Rightarrow> target_open \<Rightarrow> server \<Rightarrow> socket \<Rightarrow> socket_addr \<Rightarrow> bytes
       \<Rightarrow> server_output list \<times> server" where
  "handle_udp_packet now target s listener client_addr data =
     (case decode_udp data of
        Inl e \<Rightarrow> ([], s)
      | Inr (session_id, seq, payload) \<Rightarrow>
          (case get_or_create_session now target s session_id of
             (None, s1) \<Rightarrow> ([], s1)
           | (Some (session, created), s1) \<Rightarrow>
               let (dup, window) = is_duplicate (tg_dedup_window session) seq;
                   session' = session\<lparr>tg_last_activity := now, tg_dedup_window := window\<rparr>;
                   s2 = s1\<lparr>s_sessions := hm_insert session_id session' (s_sessions s1)\<rparr>
               in if dup then ([], s2)
                  else
                    ([TargetSend (tg_target_conn session') payload],
                     add_udp_path s2 session_id client_addr listener)))"

definition handle_tcp_packet ::
    "instant \<Rightarrow> target_open \<Rightarrow> server \<Rightarrow> usize \<Rightarrow> conn \<Rightarrow> bytes \<Rightarrow> server_output list \<times> server" where
  "handle_tcp_packet now target s conn_id writer data =
     (case decode_tcp data of
        Inl e \<Rightarrow> ([], s)
      | Inr (session_id, seq, payload) \<Rightarrow>
          (case get_or_create_session now target s session_id of
             (None, s1) \<Rightarrow> ([], s1)
           | (Some (session, created), s1) \<Rightarrow>
               let (dup, window) = is_duplicate (tg_dedup_window session) seq;
                   session' = session\<lparr>tg_last_activity := now, tg_dedup_window := window\<rparr>;
                   s2 = s1\<lparr>s_sessions := hm_insert session_id session' (s_sessions s1)\<rparr>
               in if dup then ([], s2)
                  else
                    ([TargetSend (tg_target_conn session') payload],
                     add_tcp_path s2 session_id conn_id writer)))"

text \<open>
  \<open>handle_tcp_conn\<close> on a stream that is read to its end with nothing in between; as single
  events the loop is \<open>TcpArrives\<close> and \<open>TcpConnEnds\<close> below.
\<close>

function handle_tcp_conn ::
    "instant \<Rightarrow> target_open \<Rightarrow> server \<Rightarrow> usize \<Rightarrow> conn \<Rightarrow> tcp_stream \<Rightarrow> server_output list \<times> server" where
  "handle_tcp_conn now target s conn_id writer reader =
     (case read_frame reader of
        Inl x \<Rightarrow> ([], cleanup_tcp_conn conn_id s)
      | Inr (data, reader') \<Rightarrow>
          (let (outs, s1) = handle_tcp_packet now target s conn_id writer data;
               (outs', s2) = handle_tcp_conn now target s1 conn_id writer reader'
           in (outs @ outs', s2)))"
  by pat_completeness auto
termination
  by (relation "measure (\<lambda>(now, target, s, cid, w, st). length (arriving st))")
    (auto dest: read_frame_shorter)

declare handle_tcp_conn.simps [simp del]

section \<open>Responses from the target\<close>

definition response_on_path :: "u64 \<Rightarrow> u32 \<Rightarrow> bytes \<Rightarrow> client_path \<Rightarrow> server_output" where
  "response_on_path session_id seq payload path =
     (case path of
        UdpPath addr sock \<Rightarrow> ClientSend sock (encode_udp session_id seq payload) addr
      | TcpPath _ writer \<Rightarrow> ClientWrite writer (tcp_frame (encode_tcp session_id seq payload)))"

definition send_response_to_all_paths ::
    "instant \<Rightarrow> server \<Rightarrow> u64 \<Rightarrow> bytes \<Rightarrow> server_output list \<times> server" where
  "send_response_to_all_paths now s session_id payload =
     (case hm_get (s_sessions s) session_id of
        None \<Rightarrow> ([], s)
      | Some session \<Rightarrow>
          let seq = tg_response_seq session;
              session' = session\<lparr>tg_last_activity := now, tg_response_seq := seq + 1\<rparr>;
              s1 = s\<lparr>s_sessions := hm_insert session_id session' (s_sessions s)\<rparr>
          in (case hm_get (s_client_paths s1) session_id of
                None \<Rightarrow> ([], s1)
              | Some paths \<Rightarrow>
                  if paths = [] then ([], s1)
                  else (map (response_on_path session_id seq payload) paths, s1)))"

section \<open>Expiry\<close>

definition server_cleanup_interval :: "duration \<Rightarrow> duration" where
  "server_cleanup_interval session_timeout =
     max (min session_timeout (from_secs 10)) (from_millis 100)"

definition server_cleanup_expired_sessions :: "instant \<Rightarrow> server \<Rightarrow> server" where
  "server_cleanup_expired_sessions now s =
     (let timeout = sc_session_timeout (s_cfg s);
          expired = expired_entries tg_last_activity now timeout (s_sessions s)
      in s\<lparr>s_sessions := hm_remove_all (map fst expired) (s_sessions s),
           s_cancelled_sockets := set (map (tg_target_conn \<circ> snd) expired) \<union> s_cancelled_sockets s,
           s_client_paths := hm_remove_all (map fst expired) (s_client_paths s)\<rparr>)"

section \<open>Tasks and events\<close>

text \<open>
  One thing a task of the server does. \<open>TcpAccept\<close> starts a \<open>handle_tcp_conn\<close>; \<open>TcpConnEnds\<close> is
  the way out of its loop, through a failed read, a zero length or the cancelled token.
  \<open>TargetError\<close> is the return of \<open>handle_target_response\<close> after a failed \<open>recv\<close>,
  \<open>ResponderCancelled\<close> the one through its token, a child of the server's.
\<close>

datatype server_event =
    UdpArrives instant target_open socket socket_addr bytes
  | TcpAccept socket conn usize
  | TcpArrives instant target_open conn bytes
  | TcpConnEnds conn
  | TargetResponse instant socket bytes
  | TargetError socket
  | ResponderCancelled socket
  | ServerTick instant
  | ServerStop
  | ServerTaskReturns server_task

text \<open>The addresses of the writers that are alive: held by a connection's task or by a path.\<close>

definition live_conn_id :: "server \<Rightarrow> usize \<Rightarrow> bool" where
  "live_conn_id s cid \<longleftrightarrow>
     list_ex (\<lambda>(n, c). c = cid) (hm_iter (s_conns s)) \<or>
     list_ex (\<lambda>(sid, ps). list_ex (matches_conn cid) ps) (hm_iter (s_client_paths s))"

definition known_conn :: "server \<Rightarrow> conn \<Rightarrow> bool" where
  "known_conn s n \<longleftrightarrow>
     hm_get (s_conns s) n \<noteq> None \<or>
     list_ex (\<lambda>(sid, ps). list_ex (\<lambda>p. case p of TcpPath _ w \<Rightarrow> w = n | UdpPath _ _ \<Rightarrow> False) ps)
       (hm_iter (s_client_paths s))"

definition server_enabled :: "server \<Rightarrow> server_event \<Rightarrow> bool" where
  "server_enabled s e =
     (case e of
        UdpArrives _ _ sock _ _ \<Rightarrow> UdpListener sock \<in> set (s_tasks s)
      | TcpAccept sock n cid \<Rightarrow>
          TcpListener sock \<in> set (s_tasks s) \<and> \<not> known_conn s n \<and> \<not> live_conn_id s cid
      | TcpArrives _ _ n data \<Rightarrow> hm_get (s_conns s) n \<noteq> None \<and> frameable data
      | TcpConnEnds n \<Rightarrow> hm_get (s_conns s) n \<noteq> None
      | TargetResponse _ n _ \<Rightarrow> hm_get (s_responders s) n \<noteq> None
      | TargetError n \<Rightarrow> hm_get (s_responders s) n \<noteq> None
      | ResponderCancelled n \<Rightarrow>
          hm_get (s_responders s) n \<noteq> None \<and> (s_cancelled s \<or> n \<in> s_cancelled_sockets s)
      | ServerTick _ \<Rightarrow> ServerCleanup \<in> set (s_tasks s)
      | ServerStop \<Rightarrow> True
      | ServerTaskReturns t \<Rightarrow> s_cancelled s \<and> t \<in> set (s_tasks s))"

definition server_handle :: "server_event \<Rightarrow> server \<Rightarrow> server_output list \<times> server" where
  "server_handle e s =
     (case e of
        UdpArrives now target sock addr data \<Rightarrow> handle_udp_packet now target s sock addr data
      | TcpAccept sock n cid \<Rightarrow> ([], s\<lparr>s_conns := hm_insert n cid (s_conns s)\<rparr>)
      | TcpArrives now target n data \<Rightarrow>
          (case hm_get (s_conns s) n of
             None \<Rightarrow> ([], s)
           | Some cid \<Rightarrow> handle_tcp_packet now target s cid n data)
      | TcpConnEnds n \<Rightarrow>
          (case hm_get (s_conns s) n of
             None \<Rightarrow> ([], s)
           | Some cid \<Rightarrow>
               let s1 = cleanup_tcp_conn cid s in ([], s1\<lparr>s_conns := hm_remove n (s_conns s1)\<rparr>))
      | TargetResponse now n payload \<Rightarrow>
          (case hm_get (s_responders s) n of
             None \<Rightarrow> ([], s)
           | Some session_id \<Rightarrow> send_response_to_all_paths now s session_id payload)
      | TargetError n \<Rightarrow> ([], s\<lparr>s_responders := hm_remove n (s_responders s)\<rparr>)
      | ResponderCancelled n \<Rightarrow> ([], s\<lparr>s_responders := hm_remove n (s_responders s)\<rparr>)
      | ServerTick now \<Rightarrow> ([], server_cleanup_expired_sessions now s)
      | ServerStop \<Rightarrow> ([], server_stop s)
      | ServerTaskReturns t \<Rightarrow> ([], s\<lparr>s_tasks := remove1 t (s_tasks s)\<rparr>))"

abbreviation server_run ::
    "server \<Rightarrow> server_event list \<Rightarrow> server_output list \<Rightarrow> server \<Rightarrow> bool" where
  "server_run \<equiv> run server_enabled server_handle"

end
