(* ===== verification/Server_Correct.thy ===== *)
theory Server_Correct
  imports Server
begin

text \<open>
  The invariants of the server along every run: each session has its own target socket and a
  window in good order, no path outlives its session, and no path is registered twice. The
  model is in theory \<open>Server\<close>.
\<close>

section \<open>Both transports admit a packet the same way\<close>

definition admit ::
    "instant \<Rightarrow> target_open \<Rightarrow> server \<Rightarrow> u64 \<Rightarrow> u32 \<Rightarrow> (socket \<times> bool) option \<times> server" where
  "admit now target s sid seq =
     (case get_or_create_session now target s sid of
        (None, s1) \<Rightarrow> (None, s1)
      | (Some (g, created), s1) \<Rightarrow>
          (Some (tg_target_conn g, fst (is_duplicate (tg_dedup_window g) seq)),
           s1\<lparr>s_sessions := hm_insert sid
                (g\<lparr>tg_last_activity := now,
                   tg_dedup_window := snd (is_duplicate (tg_dedup_window g) seq)\<rparr>)
                (s_sessions s1)\<rparr>))"

lemma handle_udp_packet_eq:
  "handle_udp_packet now target s sock addr data =
     (case decode_udp data of
        Inl e \<Rightarrow> ([], s)
      | Inr (sid, seq, pl) \<Rightarrow>
          (case admit now target s sid seq of
             (None, s1) \<Rightarrow> ([], s1)
           | (Some (n, dup), s1) \<Rightarrow>
               if dup then ([], s1) else ([TargetSend n pl], add_udp_path s1 sid addr sock)))"
  by (auto simp: handle_udp_packet_def admit_def Let_def case_prod_beta
      split: sum.split prod.split option.split)

lemma handle_tcp_packet_eq:
  "handle_tcp_packet now target s cid w data =
     (case decode_tcp data of
        Inl e \<Rightarrow> ([], s)
      | Inr (sid, seq, pl) \<Rightarrow>
          (case admit now target s sid seq of
             (None, s1) \<Rightarrow> ([], s1)
           | (Some (n, dup), s1) \<Rightarrow>
               if dup then ([], s1) else ([TargetSend n pl], add_tcp_path s1 sid cid w)))"
  by (auto simp: handle_tcp_packet_def admit_def Let_def case_prod_beta
      split: sum.split prod.split option.split)

lemma get_or_create_session_cases:
  obtains (found) g where "hm_get (s_sessions s) sid = Some g"
      "get_or_create_session now target s sid = (Some (g, False), s)"
  | (failed) "hm_get (s_sessions s) sid = None" "target \<noteq> TargetOpens"
      "get_or_create_session now target s sid = (None, s)"
  | (opened) g where "hm_get (s_sessions s) sid = None" "target = TargetOpens"
      "g = \<lparr>tg_target_conn = s_next_socket s,
            tg_dedup_window = dedup_window_new (sc_dedup_window (s_cfg s)),
            tg_response_seq = 0, tg_last_activity = now\<rparr>"
      "get_or_create_session now target s sid =
        (Some (g, True),
         s\<lparr>s_next_socket := Suc (s_next_socket s),
           s_sessions := hm_insert sid g (s_sessions s),
           s_responders := hm_insert (s_next_socket s) sid (s_responders s)\<rparr>)"
proof (cases "hm_get (s_sessions s) sid")
  case (Some g)
  then show ?thesis by (intro found) (simp_all add: get_or_create_session_def)
next
  case None
  show ?thesis
  proof (cases target)
    case (BindFails e)
    with None show ?thesis by (intro failed) (simp_all add: get_or_create_session_def)
  next
    case (ConnectFails e)
    with None show ?thesis by (intro failed) (simp_all add: get_or_create_session_def)
  next
    case TargetOpens
    with None show ?thesis
      by (intro opened [OF None TargetOpens refl]) (simp add: get_or_create_session_def Let_def)
  qed
qed

section \<open>Sessions and sockets\<close>

definition sess_inv :: "server \<Rightarrow> bool" where
  "sess_inv s \<longleftrightarrow>
     sc_dedup_window (s_cfg s) \<noteq> 0 \<and>
     (\<forall>sid g. hm_get (s_sessions s) sid = Some g \<longrightarrow>
        dw_inv (tg_dedup_window g) \<and> tg_target_conn g < s_next_socket s \<and>
        tg_target_conn g \<notin> s_cancelled_sockets s \<and>
        (\<forall>sid'. hm_get (s_responders s) (tg_target_conn g) = Some sid' \<longrightarrow> sid' = sid)) \<and>
     (\<forall>sid sid' g g'. hm_get (s_sessions s) sid = Some g \<and> hm_get (s_sessions s) sid' = Some g' \<and>
        tg_target_conn g = tg_target_conn g' \<longrightarrow> sid = sid') \<and>
     (\<forall>n sid. hm_get (s_responders s) n = Some sid \<longrightarrow> n < s_next_socket s) \<and>
     (\<forall>n \<in> s_cancelled_sockets s. n < s_next_socket s)"

lemma sess_invD:
  assumes "sess_inv s"
  shows "sc_dedup_window (s_cfg s) \<noteq> 0"
    and "hm_get (s_sessions s) sid = Some g \<Longrightarrow>
        dw_inv (tg_dedup_window g) \<and> tg_target_conn g < s_next_socket s \<and>
        tg_target_conn g \<notin> s_cancelled_sockets s"
    and "hm_get (s_sessions s) sid = Some g \<Longrightarrow>
        hm_get (s_responders s) (tg_target_conn g) = Some sid' \<Longrightarrow> sid' = sid"
    and "hm_get (s_sessions s) sid = Some g \<Longrightarrow> hm_get (s_sessions s) sid' = Some g' \<Longrightarrow>
        tg_target_conn g = tg_target_conn g' \<Longrightarrow> sid = sid'"
    and "hm_get (s_responders s) n = Some sid \<Longrightarrow> n < s_next_socket s"
    and "n \<in> s_cancelled_sockets s \<Longrightarrow> n < s_next_socket s"
  using assms unfolding sess_inv_def by blast+

lemma sess_invI:
  assumes "sc_dedup_window (s_cfg s) \<noteq> 0"
    and "\<And>sid g. hm_get (s_sessions s) sid = Some g \<Longrightarrow>
        dw_inv (tg_dedup_window g) \<and> tg_target_conn g < s_next_socket s \<and>
        tg_target_conn g \<notin> s_cancelled_sockets s"
    and "\<And>sid g sid'. hm_get (s_sessions s) sid = Some g \<Longrightarrow>
        hm_get (s_responders s) (tg_target_conn g) = Some sid' \<Longrightarrow> sid' = sid"
    and "\<And>sid sid' g g'. hm_get (s_sessions s) sid = Some g \<Longrightarrow>
        hm_get (s_sessions s) sid' = Some g' \<Longrightarrow>
        tg_target_conn g = tg_target_conn g' \<Longrightarrow> sid = sid'"
    and "\<And>n sid. hm_get (s_responders s) n = Some sid \<Longrightarrow> n < s_next_socket s"
    and "\<And>n. n \<in> s_cancelled_sockets s \<Longrightarrow> n < s_next_socket s"
  shows "sess_inv s"
  using assms unfolding sess_inv_def by blast

lemma sess_inv_same:
  assumes "sess_inv s" and "s_cfg s' = s_cfg s" and "s_sessions s' = s_sessions s"
    and "s_responders s' = s_responders s" and "s_cancelled_sockets s' = s_cancelled_sockets s"
    and "s_next_socket s' = s_next_socket s"
  shows "sess_inv s'"
  using assms(1) by (simp add: sess_inv_def assms(2-))

lemma sess_inv_open:
  assumes inv: "sess_inv s" and none: "hm_get (s_sessions s) sid = None"
    and g: "tg_target_conn g = s_next_socket s" "dw_inv (tg_dedup_window g)"
  shows "sess_inv (s\<lparr>s_next_socket := Suc (s_next_socket s),
      s_sessions := hm_insert sid g (s_sessions s),
      s_responders := hm_insert (s_next_socket s) sid (s_responders s)\<rparr>)"
proof -
  note D = sess_invD [OF inv]
  have fresh: "s_next_socket s \<notin> s_cancelled_sockets s" using D(6) by blast
  have other: "tg_target_conn h < s_next_socket s" if "hm_get (s_sessions s) k = Some h" for k h
    using D(2) [OF that] by simp
  show ?thesis
  proof (rule sess_invI, goal_cases)
    case 1
    with D(1) show ?case by simp
  next
    case (2 k h)
    with D(2) g fresh show ?case by (auto simp: less_Suc_eq split: if_splits)
  next
    case (3 k h k')
    then show ?case using g by (auto split: if_splits dest: D(3) other)
  next
    case (4 k k' h h')
    then show ?case using g by (auto split: if_splits dest: D(4) other)
  next
    case (5 n k)
    with D(5) show ?case by (auto simp: less_Suc_eq split: if_splits)
  next
    case (6 n)
    with D(6) show ?case by (simp add: less_Suc_eq)
  qed
qed

lemma sess_inv_update:
  assumes inv: "sess_inv s" and g: "hm_get (s_sessions s) sid = Some g"
    and g': "tg_target_conn g' = tg_target_conn g" "dw_inv (tg_dedup_window g')"
  shows "sess_inv (s\<lparr>s_sessions := hm_insert sid g' (s_sessions s)\<rparr>)"
proof -
  note D = sess_invD [OF inv]
  show ?thesis
  proof (rule sess_invI, goal_cases)
    case 1
    with D(1) show ?case by simp
  next
    case (2 k h)
    with D(2) g g' show ?case by (auto split: if_splits)
  next
    case (3 k h k')
    with D(3) g g' show ?case by (auto split: if_splits)
  next
    case (4 k k' h h')
    with D(4) g g' show ?case by (auto split: if_splits)
  next
    case (5 n k)
    with D(5) show ?case by simp
  next
    case (6 n)
    with D(6) show ?case by simp
  qed
qed

lemma sess_inv_end_responder:
  assumes inv: "sess_inv s"
  shows "sess_inv (s\<lparr>s_responders := hm_remove n (s_responders s)\<rparr>)"
proof -
  note D = sess_invD [OF inv]
  show ?thesis
  proof (rule sess_invI, goal_cases)
    case 1
    with D(1) show ?case by simp
  next
    case (2 k h)
    with D(2) show ?case by simp
  next
    case (3 k h k')
    with D(3) show ?case by (auto split: if_splits)
  next
    case (4 k k' h h')
    with D(4) show ?case by simp
  next
    case (5 m k)
    with D(5) show ?case by (auto split: if_splits)
  next
    case (6 m)
    with D(6) show ?case by simp
  qed
qed

section \<open>Sweeping\<close>

lemma server_sweep_sessions:
  "hm_get (s_sessions (server_cleanup_expired_sessions now s)) sid =
     unless_expired tg_last_activity now (sc_session_timeout (s_cfg s)) (hm_get (s_sessions s) sid)"
  by (simp add: server_cleanup_expired_sessions_def Let_def hm_get_sweep del: hm_get_remove_all)

lemma server_sweep_paths:
  "hm_get (s_client_paths (server_cleanup_expired_sessions now s)) sid =
     (if \<exists>g. hm_get (s_sessions s) sid = Some g
           \<and> expired now (sc_session_timeout (s_cfg s)) (tg_last_activity g)
      then None else hm_get (s_client_paths s) sid)"
  by (simp add: server_cleanup_expired_sessions_def Let_def expired_keys)

lemma server_sweep_cancelled:
  "n \<in> s_cancelled_sockets (server_cleanup_expired_sessions now s) \<longleftrightarrow>
     n \<in> s_cancelled_sockets s \<or>
     (\<exists>sid g. hm_get (s_sessions s) sid = Some g \<and> tg_target_conn g = n
            \<and> expired now (sc_session_timeout (s_cfg s)) (tg_last_activity g))"
  by (auto simp: server_cleanup_expired_sessions_def Let_def expired_values)

lemma server_sweep_frame:
  fixes now s
  defines "s' \<equiv> server_cleanup_expired_sessions now s"
  shows "s_cfg s' = s_cfg s" "s_cancelled s' = s_cancelled s" "s_tasks s' = s_tasks s"
    "s_tcp_conn_to_session s' = s_tcp_conn_to_session s" "s_responders s' = s_responders s"
    "s_conns s' = s_conns s" "s_next_socket s' = s_next_socket s"
  unfolding s'_def by (simp_all add: server_cleanup_expired_sessions_def Let_def)

interpretation server_table: expiring_table server_cleanup_expired_sessions
  "\<lambda>s. hm_get (s_sessions s)" tg_last_activity "\<lambda>s. sc_session_timeout (s_cfg s)"
  by unfold_locales (simp_all add: server_sweep_sessions server_sweep_frame)

lemma sess_inv_sweep:
  assumes inv: "sess_inv s"
  shows "sess_inv (server_cleanup_expired_sessions now s)"
proof -
  note D = sess_invD [OF inv]
  show ?thesis
  proof (rule sess_invI, goal_cases)
    case 1
    with D(1) show ?case by (simp add: server_sweep_frame)
  next
    case (2 k h)
    then have h: "hm_get (s_sessions s) k = Some h"
      and "\<not> expired now (sc_session_timeout (s_cfg s)) (tg_last_activity h)"
      by (simp_all add: server_sweep_sessions)
    with D(2) [OF h] D(4) [OF h] show ?case
      by (auto simp: server_sweep_cancelled server_sweep_frame)
  next
    case (3 k h k')
    with D(3) show ?case by (simp add: server_sweep_sessions server_sweep_frame)
  next
    case (4 k k' h h')
    with D(4) show ?case by (simp add: server_sweep_sessions)
  next
    case (5 n k)
    with D(5) show ?case by (simp add: server_sweep_frame)
  next
    case (6 n)
    with D(2,6) show ?case by (auto simp: server_sweep_cancelled server_sweep_frame)
  qed
qed

section \<open>Paths\<close>

text \<open>What identifies a path of a session: the listening socket, or the connection's address.\<close>

definition path_key :: "client_path \<Rightarrow> socket + usize" where
  "path_key p = (case p of UdpPath _ sock \<Rightarrow> Inl sock | TcpPath cid _ \<Rightarrow> Inr cid)"

lemma path_key_simps [simp]:
  "path_key (UdpPath a sock) = Inl sock" "path_key (TcpPath cid w) = Inr cid"
  by (simp_all add: path_key_def)

lemma update_udp_path_Some:
  "update_udp_path a sock ps = Some ps' \<Longrightarrow>
     map path_key ps' = map path_key ps \<and> UdpPath a sock \<in> set ps' \<and>
     (\<forall>p. path_key p \<noteq> Inl sock \<longrightarrow> (p \<in> set ps' \<longleftrightarrow> p \<in> set ps))"
proof (induction ps arbitrary: ps')
  case Nil
  then show ?case by simp
next
  case (Cons p ps)
  then show ?case
    by (cases p) (auto split: if_splits)
qed

lemma update_udp_path_None:
  "update_udp_path a sock ps = None \<longleftrightarrow> Inl sock \<notin> set (map path_key ps)"
proof (induction ps)
  case Nil
  then show ?case by simp
next
  case (Cons p ps)
  then show ?case by (cases p) auto
qed

definition paths_inv :: "server \<Rightarrow> bool" where
  "paths_inv s \<longleftrightarrow>
     (\<forall>sid ps. hm_get (s_client_paths s) sid = Some ps \<longrightarrow>
        hm_get (s_sessions s) sid \<noteq> None \<and> distinct (map path_key ps))"

lemma paths_invD:
  "paths_inv s \<Longrightarrow> hm_get (s_client_paths s) sid = Some ps \<Longrightarrow>
     hm_get (s_sessions s) sid \<noteq> None \<and> distinct (map path_key ps)"
  by (simp add: paths_inv_def)

lemma paths_invI:
  "(\<And>sid ps. hm_get (s_client_paths s) sid = Some ps \<Longrightarrow>
     hm_get (s_sessions s) sid \<noteq> None \<and> distinct (map path_key ps)) \<Longrightarrow> paths_inv s"
  by (simp add: paths_inv_def)

text \<open>Sessions may be added, paths may be replaced in place.\<close>

lemma paths_inv_mono:
  assumes inv: "paths_inv s"
    and paths: "hm_get (s_client_paths s') = hm_get (s_client_paths s)"
    and sessions: "\<And>sid. hm_get (s_sessions s) sid \<noteq> None \<Longrightarrow> hm_get (s_sessions s') sid \<noteq> None"
  shows "paths_inv s'"
  using paths_invD [OF inv] sessions by (intro paths_invI) (simp add: paths)

lemma paths_inv_set:
  assumes inv: "paths_inv s"
    and paths: "hm_get (s_client_paths s') = (hm_get (s_client_paths s))(sid \<mapsto> ps)"
    and sessions: "s_sessions s' = s_sessions s"
    and ok: "hm_get (s_sessions s) sid \<noteq> None" "distinct (map path_key ps)"
  shows "paths_inv s'"
  using paths_invD [OF inv] ok by (intro paths_invI) (auto simp: paths sessions split: if_splits)

lemma known_paths_distinct:
  "paths_inv s \<Longrightarrow> distinct (map path_key (unwrap_or (hm_get (s_client_paths s) sid) []))"
  by (cases "hm_get (s_client_paths s) sid") (auto dest: paths_invD)

lemma paths_inv_add_udp_path:
  assumes inv: "paths_inv s" and known: "hm_get (s_sessions s) sid \<noteq> None"
  shows "paths_inv (add_udp_path s sid a sock)"
proof -
  let ?ps = "unwrap_or (hm_get (s_client_paths s) sid) []"
  note dist = known_paths_distinct [OF inv, of sid]
  show ?thesis
  proof (cases "update_udp_path a sock ?ps")
    case None
    then have "distinct (map path_key (?ps @ [UdpPath a sock]))"
      using dist by (simp add: update_udp_path_None)
    with None known show ?thesis
      by (intro paths_inv_set [OF inv, where ps = "?ps @ [UdpPath a sock]"])
        (simp_all add: add_udp_path_def)
  next
    case (Some ps')
    from update_udp_path_Some [OF this] dist have "distinct (map path_key ps')" by simp
    with Some known show ?thesis
      by (intro paths_inv_set [OF inv, where ps = ps']) (simp_all add: add_udp_path_def)
  qed
qed

lemma tcp_path_absent:
  "\<not> list_ex (is_tcp_path_of cid w) ps \<Longrightarrow> Inr cid \<notin> set (map path_key ps)"
  by (auto simp: list_ex_iff is_tcp_path_of_def path_key_def split: client_path.splits)

lemma paths_inv_add_tcp_path:
  assumes inv: "paths_inv s" and known: "hm_get (s_sessions s) sid \<noteq> None"
  shows "paths_inv (add_tcp_path s sid cid w)"
proof -
  let ?ps = "unwrap_or (hm_get (s_client_paths s) sid) []"
  let ?ps' = "if list_ex (is_tcp_path_of cid w) ?ps then ?ps else ?ps @ [TcpPath cid w]"
  have "distinct (map path_key ?ps')"
    using known_paths_distinct [OF inv, of sid] tcp_path_absent [of cid w ?ps] by simp
  with known show ?thesis
    by (intro paths_inv_set [OF inv, where ps = ?ps']) (simp_all add: add_tcp_path_def Let_def)
qed

lemma paths_inv_cleanup_tcp_conn:
  assumes inv: "paths_inv s"
  shows "paths_inv (cleanup_tcp_conn cid s)"
proof (cases "hm_get (s_tcp_conn_to_session s) cid")
  case None
  with inv show ?thesis by (simp add: cleanup_tcp_conn_def)
next
  case (Some sid)
  show ?thesis
  proof (cases "hm_get (s_client_paths s) sid")
    case None
    with Some show ?thesis
      by (intro paths_inv_mono [OF inv]) (simp_all add: cleanup_tcp_conn_def Let_def)
  next
    case ps: (Some ps)
    with Some paths_invD [OF inv ps] show ?thesis
      by (intro paths_inv_set [OF inv, where sid = sid and ps = "filter (\<lambda>p. \<not> matches_conn cid p) ps"])
        (simp_all add: cleanup_tcp_conn_def Let_def distinct_map_filter)
  qed
qed

lemma paths_inv_sweep:
  assumes inv: "paths_inv s"
  shows "paths_inv (server_cleanup_expired_sessions now s)"
proof (rule paths_invI)
  fix sid ps
  assume "hm_get (s_client_paths (server_cleanup_expired_sessions now s)) sid = Some ps"
  then have ps: "hm_get (s_client_paths s) sid = Some ps"
    and alive: "\<nexists>g. hm_get (s_sessions s) sid = Some g
      \<and> expired now (sc_session_timeout (s_cfg s)) (tg_last_activity g)"
    by (auto simp: server_sweep_paths split: if_splits)
  with paths_invD [OF inv ps]
  show "hm_get (s_sessions (server_cleanup_expired_sessions now s)) sid \<noteq> None
      \<and> distinct (map path_key ps)"
    by (auto simp: server_sweep_sessions unless_expired_def)
qed

section \<open>Along a run\<close>

definition server_inv :: "server \<Rightarrow> bool" where
  "server_inv s \<longleftrightarrow> sess_inv s \<and> paths_inv s"

lemma admit_sessions:
  assumes "admit now target s sid seq = (Some (n, dup), s')"
  shows "\<exists>g. hm_get (s_sessions s') sid = Some g \<and> tg_target_conn g = n \<and> tg_last_activity g = now"
  using assms
  by (cases rule: get_or_create_session_cases [of s sid now target]) (auto simp: admit_def)

lemma admit_paths [simp]: "s_client_paths (snd (admit now target s sid seq)) = s_client_paths s"
  by (cases rule: get_or_create_session_cases [of s sid now target]) (simp_all add: admit_def)

lemma server_inv_admit:
  assumes inv: "server_inv s"
  shows "server_inv (snd (admit now target s sid seq))"
proof -
  have si: "sess_inv s" and pi: "paths_inv s" using inv by (simp_all add: server_inv_def)
  show ?thesis
  proof (cases rule: get_or_create_session_cases [of s sid now target])
    case (found g)
    let ?w = "snd (is_duplicate (tg_dedup_window g) seq)"
    have "sess_inv (s\<lparr>s_sessions := hm_insert sid
        (g\<lparr>tg_last_activity := now, tg_dedup_window := ?w\<rparr>) (s_sessions s)\<rparr>)"
      using sess_invD(2) [OF si found(1)]
      by (intro sess_inv_update [OF si found(1)]) (simp_all add: dw.inv_check)
    moreover have "paths_inv (snd (admit now target s sid seq))"
      by (rule paths_inv_mono [OF pi]) (auto simp: admit_def found(2))
    ultimately show ?thesis by (simp add: server_inv_def admit_def found(2))
  next
    case failed
    with inv show ?thesis by (simp add: admit_def)
  next
    case (opened g)
    let ?w = "snd (is_duplicate (tg_dedup_window g) seq)"
    let ?g = "g\<lparr>tg_last_activity := now, tg_dedup_window := ?w\<rparr>"
    have "dw_inv (tg_dedup_window g)"
      using sess_invD(1) [OF si] by (simp add: opened(3) dw_inv_new)
    then have "sess_inv (s\<lparr>s_next_socket := Suc (s_next_socket s),
        s_sessions := hm_insert sid ?g (s_sessions s),
        s_responders := hm_insert (s_next_socket s) sid (s_responders s)\<rparr>)"
      by (intro sess_inv_open [OF si opened(1)]) (simp_all add: opened(3) dw.inv_check)
    then have "sess_inv (snd (admit now target s sid seq))"
      by (rule sess_inv_same) (simp_all add: admit_def opened(4))
    moreover have "paths_inv (snd (admit now target s sid seq))"
      by (rule paths_inv_mono [OF pi]) (auto simp: admit_def opened(4))
    ultimately show ?thesis by (simp add: server_inv_def)
  qed
qed

lemma add_path_frame [simp]:
  "s_cfg (add_udp_path s sid a sock) = s_cfg s"
  "s_sessions (add_udp_path s sid a sock) = s_sessions s"
  "s_responders (add_udp_path s sid a sock) = s_responders s"
  "s_cancelled_sockets (add_udp_path s sid a sock) = s_cancelled_sockets s"
  "s_next_socket (add_udp_path s sid a sock) = s_next_socket s"
  "s_conns (add_udp_path s sid a sock) = s_conns s"
  "s_cfg (add_tcp_path s sid cid w) = s_cfg s"
  "s_sessions (add_tcp_path s sid cid w) = s_sessions s"
  "s_responders (add_tcp_path s sid cid w) = s_responders s"
  "s_cancelled_sockets (add_tcp_path s sid cid w) = s_cancelled_sockets s"
  "s_next_socket (add_tcp_path s sid cid w) = s_next_socket s"
  "s_conns (add_tcp_path s sid cid w) = s_conns s"
  by (simp_all add: add_udp_path_def add_tcp_path_def Let_def)

lemma cleanup_tcp_conn_frame [simp]:
  "s_cfg (cleanup_tcp_conn cid s) = s_cfg s"
  "s_sessions (cleanup_tcp_conn cid s) = s_sessions s"
  "s_responders (cleanup_tcp_conn cid s) = s_responders s"
  "s_cancelled_sockets (cleanup_tcp_conn cid s) = s_cancelled_sockets s"
  "s_next_socket (cleanup_tcp_conn cid s) = s_next_socket s"
  "s_conns (cleanup_tcp_conn cid s) = s_conns s"
  by (simp_all add: cleanup_tcp_conn_def Let_def split: option.split)

lemma server_inv_add_udp_path:
  "server_inv s \<Longrightarrow> hm_get (s_sessions s) sid \<noteq> None \<Longrightarrow> server_inv (add_udp_path s sid a sock)"
  by (auto simp: server_inv_def intro: paths_inv_add_udp_path elim: sess_inv_same)

lemma server_inv_add_tcp_path:
  "server_inv s \<Longrightarrow> hm_get (s_sessions s) sid \<noteq> None \<Longrightarrow> server_inv (add_tcp_path s sid cid w)"
  by (auto simp: server_inv_def intro: paths_inv_add_tcp_path elim: sess_inv_same)

lemma server_inv_handle_udp_packet:
  assumes "server_inv s"
  shows "server_inv (snd (handle_udp_packet now target s sock a data))"
proof (cases "decode_udp data")
  case (Inl e)
  with assms show ?thesis by (simp add: handle_udp_packet_eq)
next
  case (Inr p)
  obtain sid seq pl where p: "p = (sid, seq, pl)" by (cases p)
  obtain r s1 where r: "admit now target s sid seq = (r, s1)"
    by (cases "admit now target s sid seq")
  have "server_inv s1" using server_inv_admit [OF assms, of now target sid seq] r by simp
  moreover have "hm_get (s_sessions s1) sid \<noteq> None" if "r = Some (n, dup)" for n dup
    using admit_sessions [of now target s sid seq n dup s1] r that by auto
  ultimately show ?thesis
    by (auto simp: handle_udp_packet_eq Inr p r server_inv_add_udp_path split: option.split)
qed

lemma server_inv_handle_tcp_packet:
  assumes "server_inv s"
  shows "server_inv (snd (handle_tcp_packet now target s cid w data))"
proof (cases "decode_tcp data")
  case (Inl e)
  with assms show ?thesis by (simp add: handle_tcp_packet_eq)
next
  case (Inr p)
  obtain sid seq pl where p: "p = (sid, seq, pl)" by (cases p)
  obtain r s1 where r: "admit now target s sid seq = (r, s1)"
    by (cases "admit now target s sid seq")
  have "server_inv s1" using server_inv_admit [OF assms, of now target sid seq] r by simp
  moreover have "hm_get (s_sessions s1) sid \<noteq> None" if "r = Some (n, dup)" for n dup
    using admit_sessions [of now target s sid seq n dup s1] r that by auto
  ultimately show ?thesis
    by (auto simp: handle_tcp_packet_eq Inr p r server_inv_add_tcp_path split: option.split)
qed

text \<open>The state after a response, whatever is sent.\<close>

lemma send_response_state:
  "snd (send_response_to_all_paths now s sid pl) =
     (case hm_get (s_sessions s) sid of
        None \<Rightarrow> s
      | Some g \<Rightarrow> s\<lparr>s_sessions := hm_insert sid
          (g\<lparr>tg_last_activity := now, tg_response_seq := tg_response_seq g + 1\<rparr>) (s_sessions s)\<rparr>)"
  by (auto simp: send_response_to_all_paths_def Let_def split: option.split)

lemma server_inv_send_response:
  assumes "server_inv s"
  shows "server_inv (snd (send_response_to_all_paths now s sid pl))"
proof (cases "hm_get (s_sessions s) sid")
  case None
  with assms show ?thesis by (simp add: send_response_state)
next
  case (Some g)
  have si: "sess_inv s" and pi: "paths_inv s" using assms by (simp_all add: server_inv_def)
  have "sess_inv (snd (send_response_to_all_paths now s sid pl))"
    using sess_invD(2) [OF si Some]
    by (simp add: send_response_state Some) (rule sess_inv_update [OF si Some], simp_all)
  moreover have "paths_inv (snd (send_response_to_all_paths now s sid pl))"
    by (rule paths_inv_mono [OF pi]) (auto simp: send_response_state Some)
  ultimately show ?thesis by (simp add: server_inv_def)
qed

lemma server_inv_same:
  assumes "server_inv s" and "s_cfg s' = s_cfg s" and "s_sessions s' = s_sessions s"
    and "s_responders s' = s_responders s" and "s_cancelled_sockets s' = s_cancelled_sockets s"
    and "s_next_socket s' = s_next_socket s" and "s_client_paths s' = s_client_paths s"
  shows "server_inv s'"
  using assms sess_inv_same [of s s'] paths_inv_mono [of s s'] by (simp add: server_inv_def)

lemma server_inv_end_responder:
  "server_inv s \<Longrightarrow> server_inv (s\<lparr>s_responders := hm_remove n (s_responders s)\<rparr>)"
  by (auto simp: server_inv_def intro: sess_inv_end_responder elim: paths_inv_mono)

lemma server_inv_handle:
  assumes inv: "server_inv s"
  shows "server_inv (snd (server_handle e s))"
proof (cases e)
  case (UdpArrives now target sock a data)
  with inv show ?thesis by (simp add: server_handle_def server_inv_handle_udp_packet)
next
  case (TcpAccept sock n cid)
  show ?thesis
    unfolding server_handle_def TcpAccept by (rule server_inv_same [OF inv]) simp_all
next
  case (TcpArrives now target n data)
  with inv show ?thesis
    by (simp add: server_handle_def server_inv_handle_tcp_packet split: option.split)
next
  case (TcpConnEnds n)
  have "server_inv (cleanup_tcp_conn cid s)" for cid
    using inv by (auto simp: server_inv_def intro: paths_inv_cleanup_tcp_conn elim: sess_inv_same)
  then have "server_inv ((cleanup_tcp_conn cid s)\<lparr>s_conns := m\<rparr>)" for cid m
    by (rule server_inv_same) simp_all
  with inv TcpConnEnds show ?thesis
    by (simp add: server_handle_def Let_def split: option.split)
next
  case (TargetResponse now n pl)
  with inv show ?thesis
    by (simp add: server_handle_def server_inv_send_response split: option.split)
next
  case (ServerTick now)
  with inv show ?thesis
    by (simp add: server_handle_def server_inv_def sess_inv_sweep paths_inv_sweep)
next
  case ServerStop
  show ?thesis
    unfolding server_handle_def ServerStop server_stop_def
    by (rule server_inv_same [OF inv]) simp_all
next
  case (ServerTaskReturns t)
  show ?thesis
    unfolding server_handle_def ServerTaskReturns by (rule server_inv_same [OF inv]) simp_all
qed (use inv in \<open>simp_all add: server_handle_def server_inv_end_responder\<close>)

interpretation server_runs: event_system server_enabled server_handle "\<lambda>n. server_inv" limit
  for limit
  by unfold_locales (rule server_inv_handle)

section \<open>Starting\<close>

lemma open_listeners_frame:
  "open_listeners os i eps addrs s = (r, s') \<Longrightarrow>
     \<exists>tasks. s' = s\<lparr>s_tasks := s_tasks s @ tasks\<rparr>"
proof (induction os i eps addrs s rule: open_listeners.induct)
  case (1 os i addrs s)
  then show ?case by (intro exI [of _ "[]"]) simp
next
  case (2 os i ep eps addrs s)
  show ?case
  proof (cases "bind_endpoint os i")
    case (Inl e)
    with 2(2) show ?thesis by (intro exI [of _ "[]"]) simp
  next
    case sock: (Inr sock)
    show ?thesis
    proof (cases "endpoint_addr os i")
      case (Inl e)
      with sock 2(2) show ?thesis by (intro exI [of _ "[]"]) simp
    next
      case (Inr addr)
      from 2(1) [OF sock Inr refl] 2(2) sock Inr show ?thesis by (auto simp: Let_def)
    qed
  qed
qed

text \<open>
  The server as \<open>main\<close> makes it: created, then started. When \<open>start\<close> fails this is the state it
  leaves, with the listeners spawned so far; theory \<open>Program\<close> tells the two cases apart.
\<close>

definition server_started :: "server_config \<Rightarrow> server_sockets \<Rightarrow> server" where
  "server_started cfg os = snd (server_start os (server_new cfg))"

lemma server_started_tasks:
  "\<exists>tasks. server_started cfg os = (server_new cfg)\<lparr>s_tasks := tasks\<rparr>"
proof -
  obtain r s1 where o: "open_listeners os 0 (sc_listen_addrs cfg) [] (server_new cfg) = (r, s1)"
    by (cases "open_listeners os 0 (sc_listen_addrs cfg) [] (server_new cfg)")
  from open_listeners_frame [OF o] obtain tasks where
    "s1 = (server_new cfg)\<lparr>s_tasks := tasks\<rparr>" by (auto simp: server_new_def)
  with o show ?thesis
    by (cases r) (auto simp: server_started_def server_start_def server_new_def)
qed

lemma server_inv_started:
  "sc_dedup_window cfg \<noteq> 0 \<Longrightarrow> server_inv (server_started cfg os)"
  using server_started_tasks [of cfg os]
  by (auto simp: server_inv_def sess_inv_def paths_inv_def server_new_def)

lemma server_started_cfg [simp]: "s_cfg (server_started cfg os) = cfg"
  using server_started_tasks [of cfg os] by (auto simp: server_new_def)

lemma reachable_server_inv:
  assumes "sc_dedup_window cfg \<noteq> 0" and "server_run (server_started cfg os) es outs s"
  shows "server_inv s"
  using server_runs.inv_along [where n = 0 and limit = "length es",
      OF assms(2) server_inv_started [OF assms(1)]] by simp

section \<open>The reading loop as a run\<close>

lemma handle_tcp_packet_conns [simp]:
  "s_conns (snd (handle_tcp_packet now target s cid w data)) = s_conns s"
proof -
  have "s_conns (snd (admit now target s sid q)) = s_conns s" for sid q
    by (cases rule: get_or_create_session_cases [of s sid now target]) (simp_all add: admit_def)
  then have "s_conns t = s_conns s" if "admit now target s sid q = (r, t)" for sid q r t
    by (metis snd_conv that)
  then show ?thesis
    by (auto simp: handle_tcp_packet_eq split: sum.split prod.split option.split)
qed

lemma conn_loop_is_run:
  assumes "hm_get (s_conns s) n = Some cid"
  shows "server_run s (map (TcpArrives now target n) (fst (read_frames st)) @ [TcpConnEnds n])
    (fst (handle_tcp_conn now target s cid n st))
    ((snd (handle_tcp_conn now target s cid n st))\<lparr>s_conns := hm_remove n (s_conns s)\<rparr>)"
  using assms
proof (induction now target s cid n st rule: handle_tcp_conn.induct)
  case (1 now target s cid n st)
  show ?case
  proof (cases "read_frame st")
    case (Inl x)
    have "server_run s [TcpConnEnds n] [] ((cleanup_tcp_conn cid s)\<lparr>s_conns := hm_remove n (s_conns s)\<rparr>)"
      by (rule run_single) (simp_all add: server_enabled_def server_handle_def "1.prems")
    then show ?thesis
      by (simp add: handle_tcp_conn.simps [of now target s cid n st] read_frames.simps [of st] Inl)
  next
    case (Inr r)
    obtain data st' where r: "r = (data, st')" by (cases r)
    let ?p = "handle_tcp_packet now target s cid n data"
    let ?rest = "map (TcpArrives now target n) (fst (read_frames st')) @ [TcpConnEnds n]"
    have "server_run (snd ?p) ?rest
        (fst (handle_tcp_conn now target (snd ?p) cid n st'))
        ((snd (handle_tcp_conn now target (snd ?p) cid n st'))
           \<lparr>s_conns := hm_remove n (s_conns (snd ?p))\<rparr>)"
      using "1.prems" by (intro "1.IH" [OF Inr r [symmetric] refl prod.collapse]) simp
    moreover have step: "server_handle (TcpArrives now target n data) s = ?p"
      by (simp add: server_handle_def "1.prems")
    moreover have "server_enabled s (TcpArrives now target n data)"
      using read_frame_frameable [of st data st'] Inr r "1.prems" by (simp add: server_enabled_def)
    ultimately have "server_run s (TcpArrives now target n data # ?rest)
        (fst (server_handle (TcpArrives now target n data) s)
          @ fst (handle_tcp_conn now target (snd ?p) cid n st'))
        ((snd (handle_tcp_conn now target (snd ?p) cid n st'))\<lparr>s_conns := hm_remove n (s_conns s)\<rparr>)"
      by (intro run_step) simp_all
    then show ?thesis
      by (simp add: handle_tcp_conn.simps [of now target s cid n st] read_frames.simps [of st]
          Inr r step case_prod_beta)
  qed
qed

end
