(* ===== verification/Server_Async.thy ===== *)
theory Server_Async
  imports Server_Correct
begin

text \<open>
  The server's tasks as they interleave. In theory \<open>Server\<close> a handler runs in one piece; here every
  \<open>await\<close> at which another task can see or change shared state is a step of its own, and the
  steps of all tasks may come in any order. A session is an object that handlers share: the map
  holds its name, and a handler that has fetched it goes on using it after the map has dropped it.

  The write lock of \<open>sessions\<close> is held over several awaits in two places, while the socket of a
  new session is made and during the sweep of the cleanup timer; tasks that need \<open>sessions\<close> wait
  meanwhile. The mutex of a TCP writer is held while a frame is sent; here sending it is one
  step, so that frames on one connection exclude each other, and how long a task waits for the
  mutex is not modelled. The read lock of \<open>sessions\<close> is held while the time of a response is noted,
  which is one step as well. All other locks are released before the next await, so what happens
  under them is one step.
\<close>

section \<open>State\<close>

text \<open>The task that runs a handler: each handles one thing at a time.\<close>

datatype worker = ByListener socket | ByConn conn | ByResponder socket | ByCleanup

datatype packet_source = FromUdp socket socket_addr | FromTcp usize conn

text \<open>
  Where a busy task is, with the values it holds: the packet's session identifier, number and
  payload, and the session once it is fetched.
\<close>

datatype handler =
    Lookup packet_source u64 u32 bytes
  | Create packet_source u64 u32 bytes
  | Connect packet_source u64 u32 bytes
  | Touch packet_source u64 u32 bytes socket
  | Check packet_source u64 u32 bytes socket
  | Track packet_source u64 bytes socket
  | AddPath packet_source u64 bytes socket
  | Forward bytes socket
  | TouchResponse u64 bytes
  | NextSeq u64 bytes
  | GetPaths u64 u32 bytes
  | SendPaths u64 u32 bytes "client_path list"
  | ForgetConn usize
  | DropPath u64 usize
  | Scan instant "(u64 \<times> socket) list" "u64 list"
  | Sweep "u64 list"
  | SweepPaths u64 "u64 list"

text \<open>
  \<open>a_sessions\<close> is the map \<open>sessions\<close>; a session is named by its target socket, which no other
  has, and \<open>a_store\<close> holds it as long as anyone may use it. \<open>a_base\<close> has all the rest of the
  server's state; its own table of sessions is not used.
\<close>

record async_server =
  a_base :: server
  a_sessions :: "(u64, socket) hash_map"
  a_store :: "(socket, target_session) hash_map"
  a_pending :: "(worker, handler) hash_map"

definition async_new :: "server \<Rightarrow> async_server" where
  "async_new s = \<lparr>a_base = s, a_sessions = hm_new, a_store = hm_new, a_pending = hm_new\<rparr>"

definition goto :: "worker \<Rightarrow> handler \<Rightarrow> async_server \<Rightarrow> async_server" where
  "goto w h a = a\<lparr>a_pending := hm_insert w h (a_pending a)\<rparr>"

definition return :: "worker \<Rightarrow> async_server \<Rightarrow> async_server" where
  "return w a = a\<lparr>a_pending := hm_remove w (a_pending a)\<rparr>"

text \<open>An update of a shared session.\<close>

definition modify :: "socket \<Rightarrow> (target_session \<Rightarrow> target_session) \<Rightarrow> async_server \<Rightarrow> async_server" where
  "modify n f a =
     (case hm_get (a_store a) n of
        None \<Rightarrow> a
      | Some g \<Rightarrow> a\<lparr>a_store := hm_insert n (f g) (a_store a)\<rparr>)"

section \<open>The steps of a packet handler\<close>

text \<open>\<open>get_or_create_session\<close>: under the read lock, then under the write lock.\<close>

definition lookup_step ::
    "worker \<Rightarrow> packet_source \<Rightarrow> u64 \<Rightarrow> u32 \<Rightarrow> bytes \<Rightarrow> async_server \<Rightarrow> async_server" where
  "lookup_step w src sid q pl a =
     (case hm_get (a_sessions a) sid of
        Some n \<Rightarrow> goto w (Touch src sid q pl n) a
      | None \<Rightarrow> goto w (Create src sid q pl) a)"

definition create_step ::
    "worker \<Rightarrow> packet_source \<Rightarrow> u64 \<Rightarrow> u32 \<Rightarrow> bytes \<Rightarrow> async_server \<Rightarrow> async_server" where
  "create_step w src sid q pl a =
     (case hm_get (a_sessions a) sid of
        Some n \<Rightarrow> goto w (Touch src sid q pl n) a
      | None \<Rightarrow> goto w (Connect src sid q pl) a)"

text \<open>\<open>bind\<close> and \<open>connect\<close> with the write lock held, then the new session.\<close>

definition connect_step ::
    "worker \<Rightarrow> instant \<Rightarrow> target_open \<Rightarrow> packet_source \<Rightarrow> u64 \<Rightarrow> u32 \<Rightarrow> bytes
       \<Rightarrow> async_server \<Rightarrow> async_server" where
  "connect_step w now target src sid q pl a =
     (case target of
        BindFails e \<Rightarrow> return w a
      | ConnectFails e \<Rightarrow> return w a
      | TargetOpens \<Rightarrow>
          let s = a_base a;
              n = s_next_socket s;
              session = \<lparr>tg_target_conn = n,
                         tg_dedup_window = dedup_window_new (sc_dedup_window (s_cfg s)),
                         tg_response_seq = 0, tg_last_activity = now\<rparr>
          in goto w (Touch src sid q pl n)
               (a\<lparr>a_base := s\<lparr>s_next_socket := Suc n,
                              s_responders := hm_insert n sid (s_responders s)\<rparr>,
                  a_sessions := hm_insert sid n (a_sessions a),
                  a_store := hm_insert n session (a_store a)\<rparr>))"

definition touch_step ::
    "worker \<Rightarrow> instant \<Rightarrow> packet_source \<Rightarrow> u64 \<Rightarrow> u32 \<Rightarrow> bytes \<Rightarrow> socket
       \<Rightarrow> async_server \<Rightarrow> async_server" where
  "touch_step w now src sid q pl n a =
     goto w (Check src sid q pl n) (modify n (\<lambda>g. g\<lparr>tg_last_activity := now\<rparr>) a)"

definition check_step ::
    "worker \<Rightarrow> packet_source \<Rightarrow> u64 \<Rightarrow> u32 \<Rightarrow> bytes \<Rightarrow> socket \<Rightarrow> async_server \<Rightarrow> async_server" where
  "check_step w src sid q pl n a =
     (case hm_get (a_store a) n of
        None \<Rightarrow> return w a
      | Some g \<Rightarrow>
          let (dup, window) = is_duplicate (tg_dedup_window g) q;
              a1 = modify n (\<lambda>g. g\<lparr>tg_dedup_window := window\<rparr>) a
          in if dup then return w a1
             else (case src of
                     FromUdp _ _ \<Rightarrow> goto w (AddPath src sid pl n) a1
                   | FromTcp _ _ \<Rightarrow> goto w (Track src sid pl n) a1))"

text \<open>The two halves of \<open>add_tcp_path\<close>.\<close>

definition track_conn :: "server \<Rightarrow> u64 \<Rightarrow> usize \<Rightarrow> server" where
  "track_conn s sid conn_id =
     s\<lparr>s_tcp_conn_to_session := hm_insert conn_id sid (s_tcp_conn_to_session s)\<rparr>"

definition push_tcp_path :: "server \<Rightarrow> u64 \<Rightarrow> usize \<Rightarrow> conn \<Rightarrow> server" where
  "push_tcp_path s sid conn_id writer =
     (let session_paths = unwrap_or (hm_get (s_client_paths s) sid) [];
          session_paths' =
            (if list_ex (is_tcp_path_of conn_id writer) session_paths then session_paths
             else session_paths @ [TcpPath conn_id writer])
      in s\<lparr>s_client_paths := hm_insert sid session_paths' (s_client_paths s)\<rparr>)"

lemma add_tcp_path_halves:
  "add_tcp_path s sid cid writer = push_tcp_path (track_conn s sid cid) sid cid writer"
  by (simp add: add_tcp_path_def push_tcp_path_def track_conn_def Let_def)

definition track_step ::
    "worker \<Rightarrow> packet_source \<Rightarrow> u64 \<Rightarrow> bytes \<Rightarrow> socket \<Rightarrow> async_server \<Rightarrow> async_server" where
  "track_step w src sid pl n a =
     goto w (AddPath src sid pl n)
       (case src of
          FromUdp _ _ \<Rightarrow> a
        | FromTcp conn_id _ \<Rightarrow> a\<lparr>a_base := track_conn (a_base a) sid conn_id\<rparr>)"

definition add_path_step ::
    "worker \<Rightarrow> packet_source \<Rightarrow> u64 \<Rightarrow> bytes \<Rightarrow> socket \<Rightarrow> async_server \<Rightarrow> async_server" where
  "add_path_step w src sid pl n a =
     goto w (Forward pl n)
       (a\<lparr>a_base :=
            (case src of
               FromUdp sock addr \<Rightarrow> add_udp_path (a_base a) sid addr sock
             | FromTcp conn_id writer \<Rightarrow> push_tcp_path (a_base a) sid conn_id writer)\<rparr>)"

section \<open>The steps of a response\<close>

definition touch_response_step ::
    "worker \<Rightarrow> instant \<Rightarrow> u64 \<Rightarrow> bytes \<Rightarrow> async_server \<Rightarrow> async_server" where
  "touch_response_step w now sid pl a =
     goto w (NextSeq sid pl)
       (case hm_get (a_sessions a) sid of
          None \<Rightarrow> a
        | Some m \<Rightarrow> modify m (\<lambda>g. g\<lparr>tg_last_activity := now\<rparr>) a)"

definition next_seq_step :: "worker \<Rightarrow> u64 \<Rightarrow> bytes \<Rightarrow> async_server \<Rightarrow> async_server" where
  "next_seq_step w sid pl a =
     (case Option.bind (hm_get (a_sessions a) sid) (hm_get (a_store a)) of
        None \<Rightarrow> return w a
      | Some g \<Rightarrow>
          goto w (GetPaths sid (tg_response_seq g) pl)
            (modify (tg_target_conn g) (\<lambda>g. g\<lparr>tg_response_seq := tg_response_seq g + 1\<rparr>) a))"

definition get_paths_step :: "worker \<Rightarrow> u64 \<Rightarrow> u32 \<Rightarrow> bytes \<Rightarrow> async_server \<Rightarrow> async_server" where
  "get_paths_step w sid q pl a =
     (case hm_get (s_client_paths (a_base a)) sid of
        None \<Rightarrow> return w a
      | Some paths \<Rightarrow> if paths = [] then return w a else goto w (SendPaths sid q pl paths) a)"

fun send_paths_step ::
    "worker \<Rightarrow> u64 \<Rightarrow> u32 \<Rightarrow> bytes \<Rightarrow> client_path list \<Rightarrow> async_server
       \<Rightarrow> server_output list \<times> async_server" where
  "send_paths_step w sid q pl [] a = ([], return w a)"
| "send_paths_step w sid q pl (p # ps) a =
     ([response_on_path sid q pl p],
      if ps = [] then return w a else goto w (SendPaths sid q pl ps) a)"

section \<open>The end of a connection\<close>

definition end_conn :: "worker \<Rightarrow> async_server \<Rightarrow> async_server" where
  "end_conn w a =
     (case w of
        ByConn n \<Rightarrow>
          return w (a\<lparr>a_base := (a_base a)\<lparr>s_conns := hm_remove n (s_conns (a_base a))\<rparr>\<rparr>)
      | _ \<Rightarrow> return w a)"

definition forget_conn_step :: "worker \<Rightarrow> usize \<Rightarrow> async_server \<Rightarrow> async_server" where
  "forget_conn_step w conn_id a =
     (let s = a_base a in
      case hm_get (s_tcp_conn_to_session s) conn_id of
        None \<Rightarrow> end_conn w a
      | Some sid \<Rightarrow>
          goto w (DropPath sid conn_id)
            (a\<lparr>a_base := s\<lparr>s_tcp_conn_to_session := hm_remove conn_id (s_tcp_conn_to_session s)\<rparr>\<rparr>))"

definition drop_path_step :: "worker \<Rightarrow> u64 \<Rightarrow> usize \<Rightarrow> async_server \<Rightarrow> async_server" where
  "drop_path_step w sid conn_id a =
     (let s = a_base a in
      end_conn w
        (case hm_get (s_client_paths s) sid of
           None \<Rightarrow> a
         | Some session_paths \<Rightarrow>
             a\<lparr>a_base := s\<lparr>s_client_paths := hm_insert sid
                  (filter (\<lambda>p. \<not> matches_conn conn_id p) session_paths) (s_client_paths s)\<rparr>\<rparr>))"

section \<open>The sweep\<close>

definition scan_step ::
    "worker \<Rightarrow> instant \<Rightarrow> (u64 \<times> socket) list \<Rightarrow> u64 list \<Rightarrow> async_server \<Rightarrow> async_server" where
  "scan_step w now todo dead a =
     (case todo of
        [] \<Rightarrow> goto w (Sweep dead) a
      | (sid, n) # todo' \<Rightarrow>
          let timeout = sc_session_timeout (s_cfg (a_base a));
              idle = (case hm_get (a_store a) n of
                        None \<Rightarrow> False | Some g \<Rightarrow> expired now timeout (tg_last_activity g))
          in goto w (Scan now todo' (if idle then dead @ [sid] else dead)) a)"

definition sweep_step :: "worker \<Rightarrow> u64 list \<Rightarrow> async_server \<Rightarrow> async_server" where
  "sweep_step w dead a =
     (case dead of
        [] \<Rightarrow> return w a
      | sid # dead' \<Rightarrow>
          goto w (SweepPaths sid dead')
            (case hm_get (a_sessions a) sid of
               None \<Rightarrow> a
             | Some n \<Rightarrow>
                 a\<lparr>a_sessions := hm_remove sid (a_sessions a),
                   a_base := (a_base a)\<lparr>s_cancelled_sockets :=
                                insert n (s_cancelled_sockets (a_base a))\<rparr>\<rparr>))"

definition sweep_paths_step :: "worker \<Rightarrow> u64 \<Rightarrow> u64 list \<Rightarrow> async_server \<Rightarrow> async_server" where
  "sweep_paths_step w sid dead a =
     goto w (Sweep dead)
       (a\<lparr>a_base := (a_base a)\<lparr>s_client_paths := hm_remove sid (s_client_paths (a_base a))\<rparr>\<rparr>)"

section \<open>Any step\<close>

text \<open>A step may use the time and, when it makes a session, the outcome for its socket.\<close>

definition handler_step ::
    "worker \<Rightarrow> instant \<Rightarrow> target_open \<Rightarrow> handler \<Rightarrow> async_server
       \<Rightarrow> server_output list \<times> async_server" where
  "handler_step w now target h a =
     (case h of
        Lookup src sid q pl \<Rightarrow> ([], lookup_step w src sid q pl a)
      | Create src sid q pl \<Rightarrow> ([], create_step w src sid q pl a)
      | Connect src sid q pl \<Rightarrow> ([], connect_step w now target src sid q pl a)
      | Touch src sid q pl n \<Rightarrow> ([], touch_step w now src sid q pl n a)
      | Check src sid q pl n \<Rightarrow> ([], check_step w src sid q pl n a)
      | Track src sid pl n \<Rightarrow> ([], track_step w src sid pl n a)
      | AddPath src sid pl n \<Rightarrow> ([], add_path_step w src sid pl n a)
      | Forward pl n \<Rightarrow> ([TargetSend n pl], return w a)
      | TouchResponse sid pl \<Rightarrow> ([], touch_response_step w now sid pl a)
      | NextSeq sid pl \<Rightarrow> ([], next_seq_step w sid pl a)
      | GetPaths sid q pl \<Rightarrow> ([], get_paths_step w sid q pl a)
      | SendPaths sid q pl ps \<Rightarrow> send_paths_step w sid q pl ps a
      | ForgetConn cid \<Rightarrow> ([], forget_conn_step w cid a)
      | DropPath sid cid \<Rightarrow> ([], drop_path_step w sid cid a)
      | Scan t todo dead \<Rightarrow> ([], scan_step w t todo dead a)
      | Sweep dead \<Rightarrow> ([], sweep_step w dead a)
      | SweepPaths sid dead \<Rightarrow> ([], sweep_paths_step w sid dead a))"

text \<open>Who holds the write lock of \<open>sessions\<close> between steps, and who needs it free.\<close>

definition holds_sessions :: "handler \<Rightarrow> bool" where
  "holds_sessions h =
     (case h of Connect _ _ _ _ \<Rightarrow> True | Scan _ _ _ \<Rightarrow> True | Sweep _ \<Rightarrow> True | SweepPaths _ _ \<Rightarrow> True
      | _ \<Rightarrow> False)"

definition needs_sessions :: "handler \<Rightarrow> bool" where
  "needs_sessions h =
     (case h of Lookup _ _ _ _ \<Rightarrow> True | Create _ _ _ _ \<Rightarrow> True | TouchResponse _ _ \<Rightarrow> True
      | NextSeq _ _ \<Rightarrow> True | _ \<Rightarrow> False)"

definition sessions_locked :: "async_server \<Rightarrow> bool" where
  "sessions_locked a \<longleftrightarrow> list_ex (\<lambda>(w, h). holds_sessions h) (hm_iter (a_pending a))"

section \<open>Events\<close>

text \<open>
  A task takes something up, given as the event of theory \<open>Server\<close> (its time and connect outcome
  are not used here: the steps have their own), or a busy task does its next step.
\<close>

datatype async_event = Start server_event | Step worker instant target_open

text \<open>The task that takes up an event.\<close>

definition worker_of :: "server_event \<Rightarrow> worker option" where
  "worker_of e =
     (case e of
        UdpArrives _ _ sock _ _ \<Rightarrow> Some (ByListener sock)
      | TcpArrives _ _ n _ \<Rightarrow> Some (ByConn n)
      | TcpConnEnds n \<Rightarrow> Some (ByConn n)
      | TargetResponse _ n _ \<Rightarrow> Some (ByResponder n)
      | TargetError n \<Rightarrow> Some (ByResponder n)
      | ResponderCancelled n \<Rightarrow> Some (ByResponder n)
      | ServerTick _ \<Rightarrow> Some ByCleanup
      | ServerTaskReturns t \<Rightarrow>
          (case t of UdpListener sock \<Rightarrow> Some (ByListener sock) | TcpListener _ \<Rightarrow> None
           | ServerCleanup \<Rightarrow> Some ByCleanup)
      | _ \<Rightarrow> None)"

text \<open>Writers that responses under way still hold.\<close>

definition held_writers :: "async_server \<Rightarrow> client_path list" where
  "held_writers a =
     concat (map (\<lambda>(w, h). case h of SendPaths _ _ _ ps \<Rightarrow> ps | _ \<Rightarrow> []) (hm_iter (a_pending a)))"

definition async_enabled :: "async_server \<Rightarrow> async_event \<Rightarrow> bool" where
  "async_enabled a ev =
     (case ev of
        Start e \<Rightarrow>
          server_enabled (a_base a) e \<and>
          (case worker_of e of None \<Rightarrow> True | Some w \<Rightarrow> hm_get (a_pending a) w = None) \<and>
          (case e of
             ServerTick _ \<Rightarrow> \<not> sessions_locked a
           | TcpAccept _ n cid \<Rightarrow> \<not> list_ex (is_tcp_path_of cid n) (held_writers a)
           | _ \<Rightarrow> True)
      | Step w _ _ \<Rightarrow>
          (case hm_get (a_pending a) w of
             None \<Rightarrow> False
           | Some h \<Rightarrow> needs_sessions h \<longrightarrow> \<not> sessions_locked a))"

definition start_handler :: "server_event \<Rightarrow> async_server \<Rightarrow> server_output list \<times> async_server" where
  "start_handler e a =
     (let s = a_base a in
      case e of
        UdpArrives _ _ sock addr data \<Rightarrow>
          ([], case decode_udp data of
                 Inl err \<Rightarrow> a
               | Inr (sid, q, pl) \<Rightarrow> goto (ByListener sock) (Lookup (FromUdp sock addr) sid q pl) a)
      | TcpArrives _ _ n data \<Rightarrow>
          ([], case hm_get (s_conns s) n of
                 None \<Rightarrow> a
               | Some cid \<Rightarrow>
                   (case decode_tcp data of
                      Inl err \<Rightarrow> a
                    | Inr (sid, q, pl) \<Rightarrow> goto (ByConn n) (Lookup (FromTcp cid n) sid q pl) a))
      | TcpConnEnds n \<Rightarrow>
          ([], case hm_get (s_conns s) n of None \<Rightarrow> a | Some cid \<Rightarrow> goto (ByConn n) (ForgetConn cid) a)
      | TargetResponse _ n pl \<Rightarrow>
          ([], case hm_get (s_responders s) n of
                 None \<Rightarrow> a | Some sid \<Rightarrow> goto (ByResponder n) (TouchResponse sid pl) a)
      | ServerTick now \<Rightarrow> ([], goto ByCleanup (Scan now (hm_iter (a_sessions a)) []) a)
      | TcpAccept _ _ _ \<Rightarrow> ([], a\<lparr>a_base := snd (server_handle e s)\<rparr>)
      | TargetError _ \<Rightarrow> ([], a\<lparr>a_base := snd (server_handle e s)\<rparr>)
      | ResponderCancelled _ \<Rightarrow> ([], a\<lparr>a_base := snd (server_handle e s)\<rparr>)
      | ServerStop \<Rightarrow> ([], a\<lparr>a_base := snd (server_handle e s)\<rparr>)
      | ServerTaskReturns _ \<Rightarrow> ([], a\<lparr>a_base := snd (server_handle e s)\<rparr>))"

definition async_handle :: "async_event \<Rightarrow> async_server \<Rightarrow> server_output list \<times> async_server" where
  "async_handle ev a =
     (case ev of
        Start e \<Rightarrow> start_handler e a
      | Step w now target \<Rightarrow>
          (case hm_get (a_pending a) w of
             None \<Rightarrow> ([], a)
           | Some h \<Rightarrow> handler_step w now target h a))"

abbreviation async_run ::
    "async_server \<Rightarrow> async_event list \<Rightarrow> server_output list \<Rightarrow> async_server \<Rightarrow> bool" where
  "async_run \<equiv> run async_enabled async_handle"

end
