(* ===== verification/Server_Async_Correct.thy ===== *)
theory Server_Async_Correct
  imports Server_Async
begin

text \<open>
  Invariants of the interleaved server: names of sessions and the values that handlers carry; at
  most one holder of the lock; and the count of what a session still owes its target.
\<close>

section \<open>What steps do to each part of the state\<close>

lemma goto_simps [simp]:
  "a_base (goto w h a) = a_base a" "a_sessions (goto w h a) = a_sessions a"
  "a_store (goto w h a) = a_store a" "hm_get (a_pending (goto w h a)) = (hm_get (a_pending a))(w \<mapsto> h)"
  by (simp_all add: goto_def)

lemma return_simps [simp]:
  "a_base (return w a) = a_base a" "a_sessions (return w a) = a_sessions a"
  "a_store (return w a) = a_store a"
  "hm_get (a_pending (return w a)) = (hm_get (a_pending a))(w := None)"
  by (simp_all add: return_def lookup_delete fun_eq_iff)

lemma modify_simps [simp]:
  "a_base (modify n f a) = a_base a" "a_sessions (modify n f a) = a_sessions a"
  "a_pending (modify n f a) = a_pending a"
  "hm_get (a_store (modify n f a)) k =
     (if k = n then map_option f (hm_get (a_store a) n) else hm_get (a_store a) k)"
  by (auto simp: modify_def split: option.split)

lemma sessions_locked_iff:
  "sessions_locked a \<longleftrightarrow> (\<exists>w h. hm_get (a_pending a) w = Some h \<and> holds_sessions h)"
  by (force simp: sessions_locked_def list_ex_iff)

section \<open>Packets that have arrived\<close>

definition packet_of :: "async_event \<Rightarrow> packet option" where
  "packet_of ev =
     (case ev of
        Start (UdpArrives _ _ _ _ data) \<Rightarrow> (case decode_udp data of Inl e \<Rightarrow> None | Inr p \<Rightarrow> Some p)
      | Start (TcpArrives _ _ _ data) \<Rightarrow> (case decode_tcp data of Inl e \<Rightarrow> None | Inr p \<Rightarrow> Some p)
      | _ \<Rightarrow> None)"

text \<open>The sequence numbers under which a payload has arrived for a session identifier.\<close>

definition numbers_arrived :: "async_event list \<Rightarrow> u64 \<Rightarrow> bytes \<Rightarrow> u32 list" where
  "numbers_arrived es sid pl =
     concat (map (\<lambda>ev. case packet_of ev of
                        None \<Rightarrow> [] | Some (k, q, p) \<Rightarrow> if k = sid \<and> p = pl then [q] else []) es)"

lemma numbers_arrived_Nil [simp]: "numbers_arrived [] sid pl = []"
  by (simp add: numbers_arrived_def)

lemma numbers_arrived_snoc:
  "set (numbers_arrived (es @ [ev]) sid pl) = set (numbers_arrived es sid pl) \<union>
     (case packet_of ev of None \<Rightarrow> {} | Some (k, q, p) \<Rightarrow> if k = sid \<and> p = pl then {q} else {})"
  by (auto simp: numbers_arrived_def split: option.split)

lemma numbers_arrived_mono: "q \<in> set (numbers_arrived es sid pl) \<Longrightarrow>
    q \<in> set (numbers_arrived (es @ [ev]) sid pl)"
  by (simp add: numbers_arrived_snoc)

section \<open>Names\<close>

text \<open>
  \<open>own n\<close> is the session identifier for which socket \<open>n\<close> was opened. A handler's values belong
  together, whatever has happened since it fetched them.
\<close>

definition known :: "async_server \<Rightarrow> socket \<Rightarrow> bool" where
  "known a n \<longleftrightarrow> hm_get (a_store a) n \<noteq> None"

definition handler_ok ::
    "(socket \<Rightarrow> u64) \<Rightarrow> async_event list \<Rightarrow> (socket \<Rightarrow> bool) \<Rightarrow> handler \<Rightarrow> bool" where
  "handler_ok own es kn h =
     (case h of
        Lookup src sid q pl \<Rightarrow> q \<in> set (numbers_arrived es sid pl)
      | Create src sid q pl \<Rightarrow> q \<in> set (numbers_arrived es sid pl)
      | Connect src sid q pl \<Rightarrow> q \<in> set (numbers_arrived es sid pl)
      | Touch src sid q pl n \<Rightarrow> q \<in> set (numbers_arrived es sid pl) \<and> own n = sid \<and> kn n
      | Check src sid q pl n \<Rightarrow> q \<in> set (numbers_arrived es sid pl) \<and> own n = sid \<and> kn n
      | Track src sid pl n \<Rightarrow> own n = sid \<and> kn n
      | AddPath src sid pl n \<Rightarrow> own n = sid \<and> kn n
      | Forward pl n \<Rightarrow> kn n
      | _ \<Rightarrow> True)"

definition names_inv :: "(socket \<Rightarrow> u64) \<Rightarrow> async_event list \<Rightarrow> async_server \<Rightarrow> bool" where
  "names_inv own es a \<longleftrightarrow>
     sc_dedup_window (s_cfg (a_base a)) \<noteq> 0 \<and>
     (\<forall>sid n. hm_get (a_sessions a) sid = Some n \<longrightarrow> own n = sid \<and> known a n) \<and>
     (\<forall>n g. hm_get (a_store a) n = Some g \<longrightarrow>
        n < s_next_socket (a_base a) \<and> tg_target_conn g = n \<and> dw_inv (tg_dedup_window g)) \<and>
     (\<forall>w h. hm_get (a_pending a) w = Some h \<longrightarrow> handler_ok own es (known a) h)"

lemma names_invD:
  assumes "names_inv own es a"
  shows "sc_dedup_window (s_cfg (a_base a)) \<noteq> 0"
    and "hm_get (a_sessions a) sid = Some n \<Longrightarrow> own n = sid \<and> known a n"
    and "hm_get (a_store a) n = Some g \<Longrightarrow>
        n < s_next_socket (a_base a) \<and> tg_target_conn g = n \<and> dw_inv (tg_dedup_window g)"
    and "hm_get (a_pending a) w = Some h \<Longrightarrow> handler_ok own es (known a) h"
  using assms unfolding names_inv_def by blast+

text \<open>What the invariants look at in a session.\<close>

definition window_at :: "async_server \<Rightarrow> socket \<Rightarrow> (socket \<times> dedup_window) option" where
  "window_at a n = map_option (\<lambda>g. (tg_target_conn g, tg_dedup_window g)) (hm_get (a_store a) n)"

lemma known_window_at: "known a n \<longleftrightarrow> window_at a n \<noteq> None"
  by (simp add: window_at_def known_def)

lemma window_at_same: "window_at a' = window_at a \<Longrightarrow> known a' = known a"
  by (simp add: known_window_at fun_eq_iff)

lemma window_at_goto [simp]: "window_at (goto w h a) = window_at a"
  by (simp add: window_at_def fun_eq_iff)

lemma window_at_return [simp]: "window_at (return w a) = window_at a"
  by (simp add: window_at_def fun_eq_iff)

lemma window_at_modify:
  assumes "\<And>g. tg_target_conn (f g) = tg_target_conn g" "\<And>g. tg_dedup_window (f g) = tg_dedup_window g"
  shows "window_at (modify n f a) = window_at a"
  by (auto simp: window_at_def fun_eq_iff assms option.map_comp comp_def)

text \<open>A step that leaves windows alone, may drop sessions and moves one worker.\<close>

definition quiet_step ::
    "worker \<Rightarrow> handler \<Rightarrow> handler option \<Rightarrow> async_server \<Rightarrow> async_server \<Rightarrow> bool" where
  "quiet_step w h h' a a' \<longleftrightarrow>
     hm_get (a_pending a) w = Some h \<and>
     hm_get (a_pending a') = (hm_get (a_pending a))(w := h') \<and>
     window_at a' = window_at a \<and>
     (\<forall>sid n. hm_get (a_sessions a') sid = Some n \<longrightarrow> hm_get (a_sessions a) sid = Some n) \<and>
     s_cfg (a_base a') = s_cfg (a_base a) \<and> s_next_socket (a_base a') = s_next_socket (a_base a)"

lemma window_at_SomeD:
  assumes "window_at a' = window_at a" and "hm_get (a_store a') n = Some g'"
  shows "\<exists>g. hm_get (a_store a) n = Some g \<and> tg_target_conn g = tg_target_conn g' \<and>
    tg_dedup_window g = tg_dedup_window g'"
  using assms(2) fun_cong [OF assms(1), of n]
  by (cases "hm_get (a_store a) n") (simp_all add: window_at_def)

lemma quiet_stepD:
  assumes "quiet_step w h h' a a'"
  shows "hm_get (a_pending a) w = Some h" "hm_get (a_pending a') = (hm_get (a_pending a))(w := h')"
    "window_at a' = window_at a" "known a' = known a"
    "hm_get (a_sessions a') sid = Some n \<Longrightarrow> hm_get (a_sessions a) sid = Some n"
    "s_cfg (a_base a') = s_cfg (a_base a)" "s_next_socket (a_base a') = s_next_socket (a_base a)"
  using assms window_at_same [of a' a] unfolding quiet_step_def by auto

lemma names_inv_quiet:
  assumes inv: "names_inv own es a" and step: "quiet_step w h h' a a'"
    and h': "\<And>k. h' = Some k \<Longrightarrow> handler_ok own es (known a) k"
  shows "names_inv own es a'"
proof -
  note D = names_invD [OF inv] and S = quiet_stepD [OF step]
  have "handler_ok own es (known a) k" if "hm_get (a_pending a') v = Some k" for v k
    using that D(4) [of v k] h' [of k] by (simp add: S(2) split: if_splits)
  moreover have "n < s_next_socket (a_base a') \<and> tg_target_conn g' = n \<and> dw_inv (tg_dedup_window g')"
    if g': "hm_get (a_store a') n = Some g'" for n g'
  proof -
    from window_at_SomeD [OF S(3) g'] obtain g where "hm_get (a_store a) n = Some g"
      "tg_target_conn g = tg_target_conn g'" "tg_dedup_window g = tg_dedup_window g'" by blast
    with D(3) [of n g] show ?thesis by (simp add: S(7))
  qed
  moreover have "own n = sid \<and> known a n" if "hm_get (a_sessions a') sid = Some n" for sid n
    by (rule D(2)) (rule S(5) [OF that])
  ultimately show ?thesis
    using D(1) unfolding names_inv_def by (simp add: S(4,6))
qed

section \<open>Which steps are quiet\<close>

lemma push_tcp_path_frame [simp]:
  "s_cfg (push_tcp_path s sid cid w) = s_cfg s" "s_sessions (push_tcp_path s sid cid w) = s_sessions s"
  "s_responders (push_tcp_path s sid cid w) = s_responders s"
  "s_next_socket (push_tcp_path s sid cid w) = s_next_socket s"
  by (simp_all add: push_tcp_path_def Let_def)

lemma track_conn_frame [simp]:
  "s_cfg (track_conn s sid cid) = s_cfg s" "s_sessions (track_conn s sid cid) = s_sessions s"
  "s_responders (track_conn s sid cid) = s_responders s"
  "s_next_socket (track_conn s sid cid) = s_next_socket s"
  by (simp_all add: track_conn_def)

lemma window_at_base [simp]: "window_at (a\<lparr>a_base := s\<rparr>) = window_at a"
  "window_at (a\<lparr>a_sessions := m\<rparr>) = window_at a" "window_at (a\<lparr>a_pending := p\<rparr>) = window_at a"
  by (simp_all add: window_at_def fun_eq_iff)

text \<open>A payload the worker has yet to hand to the target over socket \<open>n\<close>.\<close>

definition owed :: "socket \<Rightarrow> bytes \<Rightarrow> handler \<Rightarrow> bool" where
  "owed n pl h =
     (case h of
        Track _ _ p m \<Rightarrow> m = n \<and> p = pl
      | AddPath _ _ p m \<Rightarrow> m = n \<and> p = pl
      | Forward p m \<Rightarrow> m = n \<and> p = pl
      | _ \<Rightarrow> False)"

definition no_target_send :: "server_output list \<Rightarrow> bool" where
  "no_target_send os \<longleftrightarrow> list_all (\<lambda>out. case out of TargetSend _ _ \<Rightarrow> False | _ \<Rightarrow> True) os"

lemma no_target_send_count: "no_target_send os \<Longrightarrow> count_list os (TargetSend n pl) = 0"
  by (induction os) (auto simp: no_target_send_def)

lemma no_target_send_simps [simp]:
  "no_target_send []" "no_target_send [response_on_path sid q pl p]"
  by (simp_all add: no_target_send_def response_on_path_def split: client_path.split)

text \<open>The next place of a worker carries what the last one did and owes no more.\<close>

definition follows ::
    "(socket \<Rightarrow> u64) \<Rightarrow> async_event list \<Rightarrow> (socket \<Rightarrow> bool) \<Rightarrow> handler \<Rightarrow> handler option \<Rightarrow> bool" where
  "follows own es kn h h' \<longleftrightarrow>
     (case h' of None \<Rightarrow> True
      | Some k \<Rightarrow> handler_ok own es kn k \<and> (\<forall>n pl. owed n pl k \<longrightarrow> owed n pl h))"

lemmas step_defs =
  handler_step_def lookup_step_def create_step_def connect_step_def touch_step_def check_step_def
  track_step_def add_path_step_def touch_response_step_def next_seq_step_def get_paths_step_def
  forget_conn_step_def drop_path_step_def end_conn_def scan_step_def sweep_step_def
  sweep_paths_step_def

lemma check_dup_same:
  assumes "names_inv own es a" and "hm_get (a_store a) n = Some g"
    and "fst (is_duplicate (tg_dedup_window g) q)"
  shows "window_at (modify n (\<lambda>h. h\<lparr>tg_dedup_window := snd (is_duplicate (tg_dedup_window g) q)\<rparr>) a)
    = window_at a"
  using dw.duplicate_stable [OF assms(3)] assms(2) by (auto simp: window_at_def fun_eq_iff)

definition plain_step :: "handler \<Rightarrow> bool" where
  "plain_step h \<longleftrightarrow>
     (case h of Connect _ _ _ _ \<Rightarrow> False | Check _ _ _ _ _ \<Rightarrow> False | Forward _ _ \<Rightarrow> False | _ \<Rightarrow> True)"

lemma plain_step_quiet:
  assumes inv: "names_inv own es a" and h: "hm_get (a_pending a) w = Some h"
    and plain: "plain_step h" and step: "handler_step w now target h a = (os, a')"
  shows "no_target_send os \<and> quiet_step w h (hm_get (a_pending a') w) a a' \<and>
    follows own es (known a) h (hm_get (a_pending a') w)"
proof -
  have ok: "handler_ok own es (known a) h" by (rule names_invD(4) [OF inv h])
  note D = names_invD [OF inv]
  show ?thesis
  proof (cases h)
    case (Lookup src sid q pl)
    show ?thesis
      using step ok h D(2) [of sid]
      by (cases "hm_get (a_sessions a) sid")
        (auto simp: Lookup step_defs quiet_step_def follows_def handler_ok_def owed_def)
  next
    case (Create src sid q pl)
    show ?thesis
      using step ok h D(2) [of sid]
      by (cases "hm_get (a_sessions a) sid")
        (auto simp: Create step_defs quiet_step_def follows_def handler_ok_def owed_def)
  next
    case (Touch src sid q pl n)
    show ?thesis
      using step ok h
      by (auto simp: Touch step_defs quiet_step_def follows_def handler_ok_def owed_def window_at_modify)
  next
    case (Track src sid pl n)
    show ?thesis
      using step ok h
      by (cases src)
        (auto simp: Track step_defs quiet_step_def follows_def handler_ok_def owed_def)
  next
    case (AddPath src sid pl n)
    show ?thesis
      using step ok h
      by (cases src)
        (auto simp: AddPath step_defs quiet_step_def follows_def handler_ok_def owed_def)
  next
    case (TouchResponse sid pl)
    show ?thesis
      using step h
      by (cases "hm_get (a_sessions a) sid")
        (auto simp: TouchResponse step_defs quiet_step_def follows_def handler_ok_def owed_def
          window_at_modify)
  next
    case (NextSeq sid pl)
    show ?thesis
      using step h
      by (cases "Option.bind (hm_get (a_sessions a) sid) (hm_get (a_store a))")
        (auto simp: NextSeq step_defs quiet_step_def follows_def handler_ok_def owed_def
          window_at_modify)
  next
    case (GetPaths sid q pl)
    show ?thesis
      using step h
      by (cases "hm_get (s_client_paths (a_base a)) sid")
        (auto simp: GetPaths step_defs quiet_step_def follows_def handler_ok_def owed_def
          split: if_splits)
  next
    case (SendPaths sid q pl ps)
    show ?thesis
      using step h
      by (cases ps)
        (auto simp: SendPaths step_defs quiet_step_def follows_def handler_ok_def owed_def
          split: if_splits)
  next
    case (ForgetConn cid)
    show ?thesis
      using step h
      by (cases "hm_get (s_tcp_conn_to_session (a_base a)) cid"; cases w)
        (auto simp: ForgetConn step_defs quiet_step_def follows_def handler_ok_def owed_def Let_def)
  next
    case (DropPath sid cid)
    show ?thesis
      using step h
      by (cases "hm_get (s_client_paths (a_base a)) sid"; cases w)
        (auto simp: DropPath step_defs quiet_step_def follows_def handler_ok_def owed_def Let_def)
  next
    case (Scan t todo dead)
    show ?thesis
      using step h
      by (cases todo)
        (auto simp: Scan step_defs quiet_step_def follows_def handler_ok_def owed_def Let_def)
  next
    case (Sweep dead)
    show ?thesis
    proof (cases dead)
      case Nil
      with step h show ?thesis
        by (auto simp: Sweep step_defs quiet_step_def follows_def)
    next
      case (Cons sid dead')
      with step h show ?thesis
        by (cases "hm_get (a_sessions a) sid")
          (auto simp: Sweep step_defs quiet_step_def follows_def handler_ok_def owed_def
            lookup_delete split: if_splits)
    qed
  next
    case (SweepPaths sid dead)
    show ?thesis
      using step h
      by (auto simp: SweepPaths step_defs quiet_step_def follows_def handler_ok_def owed_def)
  qed (use plain in \<open>simp_all add: plain_step_def\<close>)
qed

section \<open>The other steps\<close>

lemma forward_step:
  assumes "hm_get (a_pending a) w = Some (Forward pl n)"
  shows "handler_step w now target (Forward pl n) a = ([TargetSend n pl], return w a)"
    and "quiet_step w (Forward pl n) None a (return w a)"
  using assms by (simp_all add: handler_step_def quiet_step_def)

lemma check_dup_step:
  assumes inv: "names_inv own es a" and h: "hm_get (a_pending a) w = Some (Check src sid q pl n)"
    and g: "hm_get (a_store a) n = Some g" and dup: "fst (is_duplicate (tg_dedup_window g) q)"
    and step: "handler_step w now target (Check src sid q pl n) a = (os, a')"
  shows "os = [] \<and> quiet_step w (Check src sid q pl n) None a a'"
  using step g dup h check_dup_same [OF inv g dup]
  by (auto simp: handler_step_def check_step_def quiet_step_def case_prod_beta)

lemma connect_fails_step:
  assumes h: "hm_get (a_pending a) w = Some (Connect src sid q pl)" and "target \<noteq> TargetOpens"
    and step: "handler_step w now target (Connect src sid q pl) a = (os, a')"
  shows "os = [] \<and> quiet_step w (Connect src sid q pl) None a a'"
  using assms by (cases target) (auto simp: handler_step_def connect_step_def quiet_step_def)

lemma handler_ok_mono:
  assumes "handler_ok own es kn h"
    and "\<And>n. kn n \<Longrightarrow> kn' n \<and> own' n = own n"
    and "\<And>sid pl q. q \<in> set (numbers_arrived es sid pl) \<Longrightarrow> q \<in> set (numbers_arrived es' sid pl)"
  shows "handler_ok own' es' kn' h"
  using assms by (cases h) (auto simp: handler_ok_def)

lemma names_inv_arrive:
  assumes "names_inv own es a"
  shows "names_inv own (es @ [ev]) a"
proof -
  have "handler_ok own (es @ [ev]) kn h" if "handler_ok own es kn h" for kn h
    using that by (rule handler_ok_mono) (simp_all add: numbers_arrived_mono)
  then show ?thesis using assms unfolding names_inv_def by simp
qed

text \<open>A new session, on the next socket.\<close>

lemma connect_opens_step:
  assumes inv: "names_inv own es a" and h: "hm_get (a_pending a) w = Some (Connect src sid q pl)"
    and step: "handler_step w now TargetOpens (Connect src sid q pl) a = (os, a')"
  defines "n \<equiv> s_next_socket (a_base a)"
  defines "win \<equiv> dedup_window_new (sc_dedup_window (s_cfg (a_base a)))"
  shows "os = []" "\<not> known a n" "names_inv (own(n := sid)) es a'"
    "hm_get (a_pending a') = (hm_get (a_pending a))(w \<mapsto> Touch src sid q pl n)"
    "window_at a' = (window_at a)(n \<mapsto> (n, win))"
proof -
  note D = names_invD [OF inv]
  show fresh: "\<not> known a n"
    using D(3) [of n] by (cases "hm_get (a_store a) n") (auto simp: known_def n_def)
  show "os = []" using step by (simp add: handler_step_def)
  define g where "g = \<lparr>tg_target_conn = n, tg_dedup_window = win, tg_response_seq = 0,
      tg_last_activity = now\<rparr>"
  define s' where "s' = (a_base a)\<lparr>s_next_socket := Suc n,
      s_responders := hm_insert n sid (s_responders (a_base a))\<rparr>"
  define b where "b = a\<lparr>a_base := s', a_sessions := hm_insert sid n (a_sessions a),
      a_store := hm_insert n g (a_store a)\<rparr>"
  have a': "a' = goto w (Touch src sid q pl n) b"
    using step by (simp add: handler_step_def connect_step_def Let_def b_def s'_def g_def n_def win_def)
  show pending: "hm_get (a_pending a') = (hm_get (a_pending a))(w \<mapsto> Touch src sid q pl n)"
    by (simp add: a' b_def)
  show "window_at a' = (window_at a)(n \<mapsto> (n, win))"
    by (auto simp: a' b_def g_def window_at_def fun_eq_iff)
  have known': "known a' m \<longleftrightarrow> m = n \<or> known a m" for m
    by (auto simp: a' b_def known_def)
  have win: "dw_inv win" using D(1) by (simp add: win_def dw_inv_new)
  have old: "known a m \<Longrightarrow> m \<noteq> n" for m using fresh by auto
  have ok: "handler_ok (own(n := sid)) es (known a') k" if "hm_get (a_pending a) v = Some k" for v k
    using D(4) [OF that] by (rule handler_ok_mono) (auto simp: known' old)
  have "q \<in> set (numbers_arrived es sid pl)" using D(4) [OF h] by (simp add: handler_ok_def)
  with ok have "handler_ok (own(n := sid)) es (known a') k" if "hm_get (a_pending a') v = Some k" for v k
    using that by (auto simp: pending handler_ok_def known' split: if_splits)
  moreover have "m < s_next_socket (a_base a') \<and> tg_target_conn g' = m \<and> dw_inv (tg_dedup_window g')"
    if "hm_get (a_store a') m = Some g'" for m g'
    using that win D(3) [of m g'] by (auto simp: a' b_def s'_def g_def n_def split: if_splits)
  moreover have "(own(n := sid)) m = k \<and> known a' m" if "hm_get (a_sessions a') k = Some m" for k m
    using that D(2) [of k m] by (auto simp: a' b_def known' [unfolded a' b_def] old split: if_splits)
  moreover have "sc_dedup_window (s_cfg (a_base a')) \<noteq> 0"
    using D(1) by (simp add: a' b_def s'_def)
  ultimately show "names_inv (own(n := sid)) es a'"
    unfolding names_inv_def by blast
qed

text \<open>A number is admitted.\<close>

lemma check_new_step:
  assumes inv: "names_inv own es a" and h: "hm_get (a_pending a) w = Some (Check src sid q pl n)"
    and g: "hm_get (a_store a) n = Some g" and new: "\<not> fst (is_duplicate (tg_dedup_window g) q)"
    and step: "handler_step w now target (Check src sid q pl n) a = (os, a')"
  shows "os = []" "names_inv own es a'"
    "\<exists>k. hm_get (a_pending a') = (hm_get (a_pending a))(w \<mapsto> k) \<and>
       (\<forall>m p. owed m p k \<longleftrightarrow> m = n \<and> p = pl)"
    "window_at a' = (window_at a)(n \<mapsto> (n, snd (is_duplicate (tg_dedup_window g) q)))"
proof -
  note D = names_invD [OF inv]
  let ?win = "snd (is_duplicate (tg_dedup_window g) q)"
  define k where "k = (case src of FromUdp _ _ \<Rightarrow> AddPath src sid pl n | FromTcp _ _ \<Rightarrow> Track src sid pl n)"
  define b where "b = modify n (\<lambda>g. g\<lparr>tg_dedup_window := ?win\<rparr>) a"
  have a': "a' = goto w k b"
    using step g new
    by (auto simp: handler_step_def check_step_def case_prod_beta k_def b_def split: packet_source.split)
  show "os = []" using step by (simp add: handler_step_def)
  have pending: "hm_get (a_pending a') = (hm_get (a_pending a))(w \<mapsto> k)"
    by (simp add: a' b_def)
  have owed: "owed m p k \<longleftrightarrow> m = n \<and> p = pl" for m p
    by (auto simp: k_def owed_def split: packet_source.split)
  from pending owed show "\<exists>k. hm_get (a_pending a') = (hm_get (a_pending a))(w \<mapsto> k) \<and>
      (\<forall>m p. owed m p k \<longleftrightarrow> m = n \<and> p = pl)" by blast
  have conn: "tg_target_conn g = n" "dw_inv (tg_dedup_window g)" using D(3) [OF g] by simp_all
  then show "window_at a' = (window_at a)(n \<mapsto> (n, ?win))"
    by (auto simp: a' b_def window_at_def fun_eq_iff g)
  have known': "known a' = known a" by (auto simp: a' b_def known_def fun_eq_iff g)
  have "handler_ok own es (known a) k"
    using D(4) [OF h] by (auto simp: handler_ok_def k_def split: packet_source.split)
  then have "handler_ok own es (known a) k'" if "hm_get (a_pending a') v = Some k'" for v k'
    using that D(4) [of v k'] by (simp add: pending split: if_splits)
  moreover have "m < s_next_socket (a_base a') \<and> tg_target_conn g' = m \<and> dw_inv (tg_dedup_window g')"
    if "hm_get (a_store a') m = Some g'" for m g'
    using that D(3) [of m] g conn dw.inv_check [OF conn(2), of q]
    by (auto simp: a' b_def split: if_splits)
  moreover have "own m = j \<and> known a m" if "hm_get (a_sessions a') j = Some m" for j m
    using that D(2) [of j m] by (simp add: a' b_def)
  moreover have "sc_dedup_window (s_cfg (a_base a')) \<noteq> 0"
    using D(1) by (simp add: a' b_def)
  ultimately show "names_inv own es a'"
    unfolding names_inv_def known' by blast
qed

section \<open>What a session owes its target\<close>

definition owing :: "async_server \<Rightarrow> socket \<Rightarrow> bytes \<Rightarrow> worker set" where
  "owing a n pl = {w. \<exists>h. hm_get (a_pending a) w = Some h \<and> owed n pl h}"

lemma finite_owing [simp]: "finite (owing a n pl)"
  by (rule finite_subset [OF _ finite_dom_hm_get [of "a_pending a"]]) (auto simp: owing_def)

lemma owing_update:
  assumes "hm_get (a_pending a') = (hm_get (a_pending a))(w := h')"
  shows "owing a' n pl = (if \<exists>k. h' = Some k \<and> owed n pl k then insert w (owing a n pl)
    else owing a n pl - {w})"
  by (auto simp: owing_def assms)

definition refused_at :: "async_server \<Rightarrow> socket \<Rightarrow> u32 set" where
  "refused_at a n = (case window_at a n of None \<Rightarrow> {} | Some (c, win) \<Rightarrow> dw_refused win)"

text \<open>
  Every payload that is sent over a socket, or about to be, has used up a number under which it
  arrived and which the session's window has refused since.
\<close>

definition debt_inv ::
    "(socket \<Rightarrow> u64) \<Rightarrow> async_event list \<Rightarrow> server_output list \<Rightarrow> async_server \<Rightarrow> bool" where
  "debt_inv own es outs a \<longleftrightarrow>
     (\<forall>n pl. count_list outs (TargetSend n pl) + card (owing a n pl)
        \<le> card (set (numbers_arrived es (own n) pl) \<inter> refused_at a n))"

lemma debt_invD:
  "debt_inv own es outs a \<Longrightarrow> count_list outs (TargetSend n pl) + card (owing a n pl)
     \<le> card (set (numbers_arrived es (own n) pl) \<inter> refused_at a n)"
  by (simp add: debt_inv_def)

lemma debt_inv_mono:
  assumes debt: "debt_inv own es outs a"
    and "\<And>n pl. count_list outs' (TargetSend n pl) + card (owing a' n pl)
      \<le> count_list outs (TargetSend n pl) + card (owing a n pl)"
    and "\<And>n pl q. q \<in> set (numbers_arrived es (own n) pl) \<Longrightarrow> q \<in> refused_at a n \<Longrightarrow>
      q \<in> set (numbers_arrived es' (own' n) pl) \<and> q \<in> refused_at a' n"
  shows "debt_inv own' es' outs' a'"
  unfolding debt_inv_def
proof (intro allI)
  fix n pl
  have "count_list outs' (TargetSend n pl) + card (owing a' n pl)
      \<le> card (set (numbers_arrived es (own n) pl) \<inter> refused_at a n)"
    using assms(2) [of n pl] debt_invD [OF debt, of n pl] by simp
  also have "\<dots> \<le> card (set (numbers_arrived es' (own' n) pl) \<inter> refused_at a' n)"
    using assms(3) by (intro card_mono) auto
  finally show "count_list outs' (TargetSend n pl) + card (owing a' n pl)
      \<le> card (set (numbers_arrived es' (own' n) pl) \<inter> refused_at a' n)" .
qed

lemma refused_at_same: "window_at a' = window_at a \<Longrightarrow> refused_at a' n = refused_at a n"
  by (simp add: refused_at_def)

lemma packet_of_Step [simp]: "packet_of (Step w now target) = None"
  by (simp add: packet_of_def)

lemma numbers_arrived_Step [simp]:
  "set (numbers_arrived (es @ [Step w now target]) sid pl) = set (numbers_arrived es sid pl)"
  by (simp add: numbers_arrived_snoc)

lemma debt_inv_quiet:
  assumes debt: "debt_inv own es outs a" and quiet: "quiet_step w h h' a a'"
    and "no_target_send os" and "follows own es (known a) h h'"
  shows "debt_inv own (es @ [Step v now target]) (outs @ os) a'"
proof (rule debt_inv_mono [OF debt])
  note S = quiet_stepD [OF quiet]
  fix n pl
  have "owing a' n pl \<subseteq> owing a n pl"
    using assms(4) S(1) by (auto simp: owing_def S(2) follows_def split: if_splits)
  then have "card (owing a' n pl) \<le> card (owing a n pl)" by (rule card_mono [OF finite_owing])
  then show "count_list (outs @ os) (TargetSend n pl) + card (owing a' n pl)
      \<le> count_list outs (TargetSend n pl) + card (owing a n pl)"
    by (simp add: no_target_send_count [OF assms(3)])
qed (simp add: refused_at_same [OF quiet_stepD(3) [OF quiet]])

lemma debt_inv_forward:
  assumes debt: "debt_inv own es outs a" and h: "hm_get (a_pending a) w = Some (Forward pl n)"
  shows "debt_inv own (es @ [Step v now target]) (outs @ [TargetSend n pl]) (return w a)"
proof (rule debt_inv_mono [OF debt])
  fix m p
  have pending: "hm_get (a_pending (return w a)) = (hm_get (a_pending a))(w := None)" by simp
  have left: "owing (return w a) j r = owing a j r - {w}" for j r
    by (simp add: owing_update [OF pending])
  have "w \<in> owing a n pl" using h by (simp add: owing_def owed_def)
  then have "card (owing a n pl) = Suc (card (owing (return w a) n pl))"
    unfolding left by (rule card.remove [OF finite_owing])
  moreover have "card (owing (return w a) m p) \<le> card (owing a m p)"
    unfolding left by (rule card_Diff1_le)
  ultimately show "count_list (outs @ [TargetSend n pl]) (TargetSend m p) + card (owing (return w a) m p)
      \<le> count_list outs (TargetSend m p) + card (owing a m p)"
    by (cases "m = n \<and> p = pl") auto
next
  have "refused_at (return w a) n = refused_at a n" for n by (rule refused_at_same) simp
  then show "k \<in> set (numbers_arrived (es @ [Step v now target]) (own n) pl) \<and> k \<in> refused_at (return w a) n"
    if "k \<in> set (numbers_arrived es (own n) pl)" "k \<in> refused_at a n" for n pl k
    using that by simp
qed

lemma debt_inv_start:
  assumes debt: "debt_inv own es outs a" and "window_at a' = window_at a"
    and "\<And>n pl. owing a' n pl = owing a n pl"
  shows "debt_inv own (es @ [ev]) outs a'"
  by (rule debt_inv_mono [OF debt])
    (simp_all add: assms(3) refused_at_same [OF assms(2)] numbers_arrived_mono)

lemma debt_inv_connect:
  assumes debt: "debt_inv own es outs a" and fresh: "\<not> known a n"
    and h: "hm_get (a_pending a) w = Some (Connect src sid q pl)"
    and pending: "hm_get (a_pending a') = (hm_get (a_pending a))(w \<mapsto> Touch src sid q pl n)"
    and win: "window_at a' = (window_at a)(n \<mapsto> (n, win))"
  shows "debt_inv (own(n := sid)) (es @ [Step v now target]) outs a'"
proof (rule debt_inv_mono [OF debt])
  fix m p
  have "owing a' m p = owing a m p"
    using h unfolding owing_def pending by (auto simp: owed_def [of _ _ "Connect src sid q pl"]
      owed_def [of _ _ "Touch src sid q pl n"])
  then show "count_list outs (TargetSend m p) + card (owing a' m p)
      \<le> count_list outs (TargetSend m p) + card (owing a m p)" by simp
next
  fix m p k assume "k \<in> set (numbers_arrived es (own m) p)" "k \<in> refused_at a m"
  moreover from this fresh have "m \<noteq> n"
    by (cases "window_at a n") (auto simp: refused_at_def known_window_at)
  ultimately show "k \<in> set (numbers_arrived (es @ [Step v now target]) ((own(n := sid)) m) p) \<and>
      k \<in> refused_at a' m"
    by (simp add: refused_at_def win)
qed

lemma debt_inv_check:
  assumes debt: "debt_inv own es outs a" and inv: "names_inv own es a"
    and h: "hm_get (a_pending a) w = Some (Check src sid q pl n)"
    and g: "hm_get (a_store a) n = Some g" and new: "\<not> fst (is_duplicate (tg_dedup_window g) q)"
    and pending: "hm_get (a_pending a') = (hm_get (a_pending a))(w \<mapsto> k)"
    and k: "\<And>m p. owed m p k \<longleftrightarrow> m = n \<and> p = pl"
    and win: "window_at a' = (window_at a)(n \<mapsto> (n, snd (is_duplicate (tg_dedup_window g) q)))"
  shows "debt_inv own (es @ [Step v now target]) outs a'"
  unfolding debt_inv_def
proof (intro allI)
  fix m p
  let ?old = "set (numbers_arrived es (own m) p) \<inter> refused_at a m"
  let ?new = "set (numbers_arrived (es @ [Step v now target]) (own m) p) \<inter> refused_at a' m"
  have dw: "dw_inv (tg_dedup_window g)" using names_invD(3) [OF inv g] by simp
  have at_n: "refused_at a n = dw_refused (tg_dedup_window g)"
    "refused_at a' n = dw_refused (snd (is_duplicate (tg_dedup_window g) q))"
    by (simp_all add: refused_at_def win) (simp add: window_at_def g)
  have grows: "refused_at a m \<subseteq> refused_at a' m"
  proof (cases "m = n")
    case True
    with dw.refused_grows [OF dw] show ?thesis by (simp add: at_n)
  next
    case False
    then show ?thesis by (simp add: refused_at_def win)
  qed
  then have mono: "card ?old \<le> card ?new" by (intro card_mono) auto
  have "w \<notin> owing a m p" using h by (simp add: owing_def owed_def)
  then have owing: "card (owing a' m p) = (if m = n \<and> p = pl then Suc (card (owing a m p)) else card (owing a m p))"
    by (cases "m = n \<and> p = pl") (auto simp: owing_update [OF pending] k)
  show "count_list outs (TargetSend m p) + card (owing a' m p) \<le> card ?new"
  proof (cases "m = n \<and> p = pl")
    case True
    have "q \<in> set (numbers_arrived es sid pl)" "own n = sid"
      using names_invD(4) [OF inv h] by (simp_all add: handler_ok_def)
    moreover have "q \<notin> refused_at a n" "q \<in> refused_at a' n"
      using new dw.verdict [OF dw, of q] dw.checked_refused [OF dw, of q] by (simp_all add: at_n)
    ultimately have "insert q ?old \<subseteq> ?new" "q \<notin> ?old" using True grows by auto
    then have "Suc (card ?old) \<le> card ?new"
      using card_mono [of ?new "insert q ?old"] by simp
    with True owing debt_invD [OF debt, of m p] show ?thesis by simp
  next
    case False
    with owing mono debt_invD [OF debt, of m p] show ?thesis by simp
  qed
qed

section \<open>Starting a handler\<close>

definition started_handler :: "async_server \<Rightarrow> async_server \<Rightarrow> async_event \<Rightarrow> bool" where
  "started_handler a a' ev \<longleftrightarrow>
     window_at a' = window_at a \<and> a_sessions a' = a_sessions a \<and> a_store a' = a_store a \<and>
     s_cfg (a_base a') = s_cfg (a_base a) \<and> s_next_socket (a_base a') = s_next_socket (a_base a) \<and>
     (hm_get (a_pending a') = hm_get (a_pending a) \<or>
      (\<exists>w h. hm_get (a_pending a) w = None \<and> hm_get (a_pending a') = (hm_get (a_pending a))(w \<mapsto> h) \<and>
         (\<forall>n pl. \<not> owed n pl h) \<and> (\<forall>own kn es. handler_ok own (es @ [ev]) kn h)))"

lemma started_handler_base:
  assumes "s_cfg s' = s_cfg (a_base a)" and "s_next_socket s' = s_next_socket (a_base a)"
  shows "started_handler a (a\<lparr>a_base := s'\<rparr>) ev"
  using assms by (simp add: started_handler_def)

lemma started_handler_same: "started_handler a a ev"
  by (simp add: started_handler_def)

lemma started_handler_goto:
  assumes "hm_get (a_pending a) w = None" and "\<And>n pl. \<not> owed n pl h"
    and "\<And>own kn es. handler_ok own (es @ [ev]) kn h"
  shows "started_handler a (goto w h a) ev"
proof -
  have "hm_get (a_pending (goto w h a)) = (hm_get (a_pending a))(w \<mapsto> h)" by simp
  with assms have "\<exists>w' h'. hm_get (a_pending a) w' = None \<and>
      hm_get (a_pending (goto w h a)) = (hm_get (a_pending a))(w' \<mapsto> h') \<and>
      (\<forall>n pl. \<not> owed n pl h') \<and> (\<forall>own kn es. handler_ok own (es @ [ev]) kn h')" by blast
  then show ?thesis by (simp add: started_handler_def)
qed

lemma started_handlerD:
  assumes "started_handler a a' ev"
  shows "window_at a' = window_at a" "known a' = known a" "a_sessions a' = a_sessions a"
    "a_store a' = a_store a" "s_cfg (a_base a') = s_cfg (a_base a)"
    "s_next_socket (a_base a') = s_next_socket (a_base a)"
  using assms window_at_same [of a' a] by (simp_all add: started_handler_def)

lemma started_handler_cases:
  assumes "started_handler a a' ev"
  obtains (same) "hm_get (a_pending a') = hm_get (a_pending a)"
    | (busy) w h where "hm_get (a_pending a) w = None"
        "hm_get (a_pending a') = (hm_get (a_pending a))(w \<mapsto> h)"
        "\<And>n pl. \<not> owed n pl h" "\<And>own kn es. handler_ok own (es @ [ev]) kn h"
  using assms unfolding started_handler_def by blast

lemma start_step:
  assumes enabled: "async_enabled a (Start e)" and start: "start_handler e a = (os, a')"
  shows "os = [] \<and> started_handler a a' (Start e)"
proof -
  have idle: "hm_get (a_pending a) w = None" if "worker_of e = Some w" for w
    using enabled that by (simp add: async_enabled_def)
  show ?thesis
  proof (cases e)
    case (UdpArrives now target sock addr data)
    have "hm_get (a_pending a) (ByListener sock) = None"
      by (rule idle) (simp add: UdpArrives worker_of_def)
    then have "started_handler a (goto (ByListener sock) (Lookup (FromUdp sock addr) sid q pl) a) (Start e)"
      if "decode_udp data = Inr (sid, q, pl)" for sid q pl
      by (rule started_handler_goto)
        (simp_all add: owed_def handler_ok_def numbers_arrived_snoc packet_of_def UdpArrives that)
    with start show ?thesis
      by (auto simp: UdpArrives start_handler_def started_handler_same split: sum.splits)
  next
    case (TcpArrives now target n data)
    have "hm_get (a_pending a) (ByConn n) = None"
      by (rule idle) (simp add: TcpArrives worker_of_def)
    then have "started_handler a (goto (ByConn n) (Lookup (FromTcp cid n) sid q pl) a) (Start e)"
      if "decode_tcp data = Inr (sid, q, pl)" for cid sid q pl
      by (rule started_handler_goto)
        (simp_all add: owed_def handler_ok_def numbers_arrived_snoc packet_of_def TcpArrives that)
    with start show ?thesis
      by (auto simp: TcpArrives start_handler_def started_handler_same split: sum.splits option.splits)
  next
    case (TcpConnEnds n)
    have "hm_get (a_pending a) (ByConn n) = None"
      by (rule idle) (simp add: TcpConnEnds worker_of_def)
    then have "started_handler a (goto (ByConn n) (ForgetConn cid) a) (Start e)" for cid
      by (rule started_handler_goto) (simp_all add: owed_def handler_ok_def)
    with start show ?thesis
      by (auto simp: TcpConnEnds start_handler_def started_handler_same split: option.splits)
  next
    case (TargetResponse now n pl)
    have "hm_get (a_pending a) (ByResponder n) = None"
      by (rule idle) (simp add: TargetResponse worker_of_def)
    then have "started_handler a (goto (ByResponder n) (TouchResponse sid pl) a) (Start e)" for sid
      by (rule started_handler_goto) (simp_all add: owed_def handler_ok_def)
    with start show ?thesis
      by (auto simp: TargetResponse start_handler_def started_handler_same split: option.splits)
  next
    case (ServerTick now)
    have "hm_get (a_pending a) ByCleanup = None"
      by (rule idle) (simp add: ServerTick worker_of_def)
    then have "started_handler a (goto ByCleanup (Scan now (hm_iter (a_sessions a)) []) a) (Start e)"
      by (rule started_handler_goto) (simp_all add: owed_def handler_ok_def)
    with start show ?thesis by (simp add: ServerTick start_handler_def Let_def)
  qed (use start in \<open>auto simp: start_handler_def server_handle_def server_stop_def Let_def
      intro!: started_handler_base\<close>)
qed

lemma started_names_inv:
  assumes inv: "names_inv own es a" and st: "started_handler a a' ev"
  shows "names_inv own (es @ [ev]) a'"
proof -
  note D = names_invD [OF names_inv_arrive [OF inv, of ev]] and S = started_handlerD [OF st]
  have "handler_ok own (es @ [ev]) (known a) h" if "hm_get (a_pending a') w = Some h" for w h
    using st
  proof (cases rule: started_handler_cases)
    case same
    with that show ?thesis by (intro D(4)) simp
  next
    case (busy v k)
    with that D(4) show ?thesis by (auto split: if_splits)
  qed
  then show ?thesis
    using D(1-3) unfolding names_inv_def by (simp add: S)
qed

lemma started_owing:
  assumes "started_handler a a' ev"
  shows "owing a' n pl = owing a n pl"
  using assms by (cases rule: started_handler_cases) (auto simp: owing_def)

section \<open>Along a run\<close>

lemma async_inv_step:
  assumes inv: "names_inv own es a" and debt: "debt_inv own es outs a"
    and enabled: "async_enabled a ev" and handle: "async_handle ev a = (os, a')"
  shows "\<exists>own'. names_inv own' (es @ [ev]) a' \<and> debt_inv own' (es @ [ev]) (outs @ os) a' \<and>
    (\<forall>n < s_next_socket (a_base a). own' n = own n)"
proof (cases ev)
  case (Start e)
  with handle start_step [of a e os a'] enabled have st: "os = []" "started_handler a a' ev"
    by (simp_all add: async_handle_def)
  have "debt_inv own (es @ [ev]) outs a'"
    by (rule debt_inv_start [OF debt]) (simp_all add: started_handlerD(1) [OF st(2)] started_owing [OF st(2)])
  with started_names_inv [OF inv st(2)] st(1) show ?thesis by auto
next
  case (Step w now target)
  with enabled obtain h where h: "hm_get (a_pending a) w = Some h"
    by (auto simp: async_enabled_def split: option.splits)
  with handle Step have step: "handler_step w now target h a = (os, a')"
    by (simp add: async_handle_def)
  note arrive = names_inv_arrive [where ev = ev]
  have quiet: ?thesis if "no_target_send os" "quiet_step w h h' a a'" "follows own es (known a) h h'" for h'
  proof -
    have "names_inv own es a'"
      by (rule names_inv_quiet [OF inv that(2)]) (use that(3) in \<open>simp add: follows_def\<close>)
    moreover have "debt_inv own (es @ [ev]) (outs @ os) a'"
      unfolding Step by (rule debt_inv_quiet [OF debt that(2,1,3)])
    ultimately show ?thesis using arrive by blast
  qed
  consider "plain_step h" | src sid q pl where "h = Connect src sid q pl"
    | src sid q pl n where "h = Check src sid q pl n" | pl n where "h = Forward pl n"
    by (cases h) (auto simp: plain_step_def)
  then show ?thesis
  proof cases
    case 1
    from plain_step_quiet [OF inv h 1 step] quiet show ?thesis by blast
  next
    case (2 src sid q pl)
    show ?thesis
    proof (cases "target = TargetOpens")
      case True
      note C = connect_opens_step [OF inv h [unfolded 2] step [unfolded 2 True]]
      have "debt_inv (own(s_next_socket (a_base a) := sid)) (es @ [ev]) (outs @ os) a'"
        using debt_inv_connect [OF debt C(2) h [unfolded 2] C(4,5)] C(1) by (simp add: Step)
      with arrive [OF C(3)] show ?thesis
        by (intro exI [of _ "own(s_next_socket (a_base a) := sid)"]) simp
    next
      case False
      from connect_fails_step [OF h [unfolded 2] False step [unfolded 2]] 2 show ?thesis
        by (intro quiet [of None]) (simp_all add: follows_def)
    qed
  next
    case (3 src sid q pl n)
    have "known a n" using names_invD(4) [OF inv h] 3 by (simp add: handler_ok_def)
    then obtain g where g: "hm_get (a_store a) n = Some g" by (auto simp: known_def)
    show ?thesis
    proof (cases "fst (is_duplicate (tg_dedup_window g) q)")
      case True
      from check_dup_step [OF inv h [unfolded 3] g True step [unfolded 3]] 3 show ?thesis
        by (intro quiet [of None]) (simp_all add: follows_def)
    next
      case False
      note C = check_new_step [OF inv h [unfolded 3] g False step [unfolded 3]]
      from C(3) obtain k where k: "hm_get (a_pending a') = (hm_get (a_pending a))(w \<mapsto> k)"
        "\<And>m p. owed m p k \<longleftrightarrow> m = n \<and> p = pl" by blast
      have "debt_inv own (es @ [ev]) (outs @ os) a'"
        using debt_inv_check [OF debt inv h [unfolded 3] g False k C(4)] C(1) by (simp add: Step)
      with arrive [OF C(2)] show ?thesis by blast
    qed
  next
    case (4 pl n)
    from forward_step [OF h [unfolded 4]] step 4
    have F: "os = [TargetSend n pl]" "a' = return w a" "quiet_step w h None a a'" by simp_all
    have "names_inv own es a'" using names_inv_quiet [OF inv F(3)] by simp
    moreover have "debt_inv own (es @ [ev]) (outs @ os) a'"
      unfolding F(1,2) Step by (rule debt_inv_forward [OF debt h [unfolded 4]])
    ultimately show ?thesis using arrive by blast
  qed
qed

lemma async_inv_along:
  assumes "async_run a es2 outs2 a'" and "names_inv own es1 a" and "debt_inv own es1 outs1 a"
  shows "\<exists>own'. names_inv own' (es1 @ es2) a' \<and> debt_inv own' (es1 @ es2) (outs1 @ outs2) a'"
  using assms
proof (induction rule: run.induct)
  case (run_Nil s)
  then show ?case by auto
next
  case (run_snoc s es os s1 e os' s2)
  then obtain own' where "names_inv own' (es1 @ es) s1" "debt_inv own' (es1 @ es) (outs1 @ os) s1"
    by blast
  from async_inv_step [OF this run_snoc.hyps(2,3)] show ?case by auto
qed

definition async_started :: "server_config \<Rightarrow> server_sockets \<Rightarrow> async_server" where
  "async_started cfg os = async_new (server_started cfg os)"

lemma async_started_inv:
  assumes "sc_dedup_window cfg \<noteq> 0"
  shows "names_inv own [] (async_started cfg os)" and "debt_inv own [] [] (async_started cfg os)"
  using assms
  by (simp_all add: names_inv_def debt_inv_def owing_def async_started_def async_new_def)

lemma reachable_async_inv:
  assumes "sc_dedup_window cfg \<noteq> 0" and "async_run (async_started cfg os) es outs a"
  shows "\<exists>own. names_inv own es a \<and> debt_inv own es outs a"
  using async_inv_along [OF assms(2) async_started_inv [OF assms(1)]] by simp

end
