(* ===== verification/Program.thy ===== *)
theory Program
  imports Cli Client_Async_Correct Server_Async_Correct
begin

text \<open>
  The program as a process (\<open>main\<close> in \<open>src/fproxy-rs/src/main.rs\<close>): it loads the configuration,
  starts the client or the server, installs the signal handlers, serves until a signal comes, stops
  and returns. What the operating system and the other crates answer is a record \<open>platform\<close>. While
  \<open>main\<close> waits the tasks of the proxy interleave as in \<open>Client_Async\<close> and \<open>Server_Async\<close>; when it
  has returned the runtime is gone and with it all tasks.
\<close>

section \<open>The platform\<close>

datatype signal = SIGINT | SIGTERM

text \<open>
  The parser of the command line (which ends the process itself when it does not accept it), file
  and YAML reader, whether the log subscriber can be set, the random start of the identifiers, the
  sockets, and whether the handler of a signal can be installed.
\<close>

record platform =
  parse_args :: "string list \<Rightarrow> cli_args"
  read_file :: "string \<Rightarrow> string + string"
  parse_yaml :: "string \<Rightarrow> string + yaml_config"
  set_subscriber :: "log_level \<Rightarrow> bool"
  seed :: u64
  client_os :: client_sockets
  server_os :: server_sockets
  can_install :: "signal \<Rightarrow> bool"

section \<open>The process\<close>

datatype failure = LoadError config_error | SubscriberError | StartError io_error

text \<open>
  \<open>main\<close> has not reached \<open>select!\<close> yet, waits in it, has returned, has panicked, or the process has
  been ended by a signal for which it has no handler yet.
\<close>

datatype stage = Serving | Waiting | Returned "failure + unit" | Panicked string | Killed signal

datatype proxy = NoProxy | ClientProxy async_client | ServerProxy async_server

record process =
  p_stage :: stage
  p_proxy :: proxy

definition failed :: "failure \<Rightarrow> process" where
  "failed e = \<lparr>p_stage = Returned (Inl e), p_proxy = NoProxy\<rparr>"

definition start_client :: "platform \<Rightarrow> client_config \<Rightarrow> process" where
  "start_client pf client_cfg =
     (case client_start (client_os pf) (client_new (seed pf) client_cfg) of
        (Inl e, _) \<Rightarrow> failed (StartError e)
      | (Inr listen_addr, c) \<Rightarrow> \<lparr>p_stage = Serving, p_proxy = ClientProxy (client_async_new c)\<rparr>)"

definition start_server :: "platform \<Rightarrow> server_config \<Rightarrow> process" where
  "start_server pf server_cfg =
     (case server_start (server_os pf) (server_new server_cfg) of
        (Inl e, _) \<Rightarrow> failed (StartError e)
      | (Inr listen_addrs, s) \<Rightarrow> \<lparr>p_stage = Serving, p_proxy = ServerProxy (async_new s)\<rparr>)"

definition main_started :: "platform \<Rightarrow> string list \<Rightarrow> process" where
  "main_started pf argv =
     (case main (parse_args pf) (read_file pf) (parse_yaml pf) argv of
        LoadFailed e \<Rightarrow> failed (LoadError e)
      | ExpectFailed lvl msg \<Rightarrow>
          if set_subscriber pf lvl then \<lparr>p_stage = Panicked msg, p_proxy = NoProxy\<rparr>
          else failed SubscriberError
      | StartClient lvl client_cfg \<Rightarrow>
          if set_subscriber pf lvl then start_client pf client_cfg else failed SubscriberError
      | StartServer lvl server_cfg \<Rightarrow>
          if set_subscriber pf lvl then start_server pf server_cfg else failed SubscriberError)"

text \<open>Before its \<open>select!\<close>, \<open>wait_for_shutdown\<close> installs two handlers and expects both to work.\<close>

definition wait_for_shutdown :: "(signal \<Rightarrow> bool) \<Rightarrow> stage" where
  "wait_for_shutdown installs =
     (if \<not> installs SIGINT then Panicked ''failed to install SIGINT handler''
      else if \<not> installs SIGTERM then Panicked ''failed to install SIGTERM handler''
      else Waiting)"

definition stop_proxy :: "proxy \<Rightarrow> proxy" where
  "stop_proxy p =
     (case p of
        NoProxy \<Rightarrow> NoProxy
      | ClientProxy s \<Rightarrow> ClientProxy (snd (client_async_handle (Begin Stop) s))
      | ServerProxy a \<Rightarrow> ServerProxy (snd (async_handle (Start ServerStop) a)))"

text \<open>
  A task of the proxy does something, \<open>main\<close> goes on, a signal arrives that \<open>main\<close> waits for, or
  one arrives before the handlers are installed.
\<close>

datatype process_event =
    ClientDoes client_async_event
  | ServerDoes async_event
  | MainWaits
  | Signalled signal
  | Unhandled signal

definition alive :: "process \<Rightarrow> bool" where
  "alive p \<longleftrightarrow> p_stage p = Serving \<or> p_stage p = Waiting"

text \<open>Only \<open>main\<close> calls \<open>stop\<close>.\<close>

definition client_stops :: "client_async_event \<Rightarrow> bool" where
  "client_stops ev =
     (case ev of Begin e \<Rightarrow> (case e of Stop \<Rightarrow> True | _ \<Rightarrow> False) | Advance _ _ _ _ \<Rightarrow> False)"

definition server_stops :: "async_event \<Rightarrow> bool" where
  "server_stops ev =
     (case ev of Start e \<Rightarrow> (case e of ServerStop \<Rightarrow> True | _ \<Rightarrow> False) | Step _ _ _ \<Rightarrow> False)"

definition process_enabled :: "process \<Rightarrow> process_event \<Rightarrow> bool" where
  "process_enabled p e =
     (case e of
        ClientDoes ev \<Rightarrow> alive p \<and> \<not> client_stops ev \<and>
          (case p_proxy p of ClientProxy s \<Rightarrow> client_async_enabled s ev | _ \<Rightarrow> False)
      | ServerDoes ev \<Rightarrow> alive p \<and> \<not> server_stops ev \<and>
          (case p_proxy p of ServerProxy a \<Rightarrow> async_enabled a ev | _ \<Rightarrow> False)
      | MainWaits \<Rightarrow> p_stage p = Serving
      | Signalled _ \<Rightarrow> p_stage p = Waiting
      | Unhandled _ \<Rightarrow> p_stage p = Serving)"

definition process_handle ::
    "platform \<Rightarrow> process_event \<Rightarrow> process \<Rightarrow> (client_output + server_output) list \<times> process" where
  "process_handle pf e p =
     (case e of
        ClientDoes ev \<Rightarrow>
          (case p_proxy p of
             ClientProxy s \<Rightarrow>
               (let (outs, s') = client_async_handle ev s in (map Inl outs, p\<lparr>p_proxy := ClientProxy s'\<rparr>))
           | _ \<Rightarrow> ([], p))
      | ServerDoes ev \<Rightarrow>
          (case p_proxy p of
             ServerProxy a \<Rightarrow>
               (let (outs, a') = async_handle ev a in (map Inr outs, p\<lparr>p_proxy := ServerProxy a'\<rparr>))
           | _ \<Rightarrow> ([], p))
      | MainWaits \<Rightarrow> ([], p\<lparr>p_stage := wait_for_shutdown (can_install pf)\<rparr>)
      | Signalled _ \<Rightarrow> ([], p\<lparr>p_stage := Returned (Inr ()), p_proxy := stop_proxy (p_proxy p)\<rparr>)
      | Unhandled sig \<Rightarrow> ([], p\<lparr>p_stage := Killed sig\<rparr>))"

abbreviation process_run ::
    "platform \<Rightarrow> process \<Rightarrow> process_event list \<Rightarrow> (client_output + server_output) list \<Rightarrow> process \<Rightarrow> bool" where
  "process_run pf \<equiv> run process_enabled (process_handle pf)"

text \<open>
  The exit status: that of a \<open>main\<close> that returns a \<open>Result\<close>, and of a panic; a process that is
  killed has none.
\<close>

fun exit_code :: "stage \<Rightarrow> nat option" where
  "exit_code (Returned (Inr _)) = Some 0"
| "exit_code (Returned (Inl _)) = Some 1"
| "exit_code (Panicked _) = Some 101"
| "exit_code _ = None"

section \<open>How it starts\<close>

definition config_loaded :: "platform \<Rightarrow> string list \<Rightarrow> config_error + config" where
  "config_loaded pf argv =
     load (read_file pf) (parse_yaml pf) (parse_args pf (convert_go_style_args argv))"

text \<open>Every socket that \<open>start\<close> asks for can be had.\<close>

definition client_sockets_ok :: "client_config \<Rightarrow> client_sockets \<Rightarrow> bool" where
  "client_sockets_ok cfg os \<longleftrightarrow>
     (\<forall>i < length (cc_servers cfg). ep_protocol (cc_servers cfg ! i) = Udp \<longrightarrow>
        \<not> isl (bind_sender os i) \<and> \<not> isl (connect_sender os i)) \<and>
     \<not> isl (bind_listener os) \<and> \<not> isl (local_addr os)"

definition server_sockets_ok :: "server_config \<Rightarrow> server_sockets \<Rightarrow> bool" where
  "server_sockets_ok cfg os \<longleftrightarrow>
     (\<forall>i < length (sc_listen_addrs cfg). \<not> isl (bind_endpoint os i) \<and> \<not> isl (endpoint_addr os i))"

definition sockets_ok :: "platform \<Rightarrow> config \<Rightarrow> bool" where
  "sockets_ok pf cfg \<longleftrightarrow>
     (case cfg_mode cfg of
        Client \<Rightarrow> (case cfg_client cfg of None \<Rightarrow> False | Some c \<Rightarrow> client_sockets_ok c (client_os pf))
      | Server \<Rightarrow> (case cfg_server cfg of None \<Rightarrow> False | Some s \<Rightarrow> server_sockets_ok s (server_os pf)))"

lemma open_senders_ok:
  "isl (fst (open_senders os i eps c)) \<longleftrightarrow>
     (\<exists>j < length eps. ep_protocol (eps ! j) = Udp \<and> (isl (bind_sender os (i + j)) \<or> isl (connect_sender os (i + j))))"
proof (induction eps arbitrary: i c)
  case Nil
  then show ?case by simp
next
  case (Cons ep eps)
  have "(\<exists>j < length (ep # eps). ep_protocol ((ep # eps) ! j) = Udp \<and>
        (isl (bind_sender os (i + j)) \<or> isl (connect_sender os (i + j)))) \<longleftrightarrow>
      ep_protocol ep = Udp \<and> (isl (bind_sender os i) \<or> isl (connect_sender os i)) \<or>
      (\<exists>j < length eps. ep_protocol (eps ! j) = Udp \<and>
        (isl (bind_sender os (Suc i + j)) \<or> isl (connect_sender os (Suc i + j))))"
    by (simp add: Ex_less_Suc2)
  then show ?case by (auto simp: Cons.IH split: sum.split)
qed

lemma client_start_ok:
  "client_sockets_ok cfg os \<longleftrightarrow> \<not> isl (fst (client_start os (client_new r cfg)))"
proof -
  have cfg: "c_cfg (client_new r cfg) = cfg" by (simp add: client_new_def)
  show ?thesis
    using open_senders_ok [of os 0 "cc_servers cfg" "client_new r cfg"]
    by (auto simp: client_start_def client_sockets_ok_def cfg split: prod.splits sum.splits)
qed

lemma open_listeners_ok:
  "isl (fst (open_listeners os i eps addrs s)) \<longleftrightarrow>
     (\<exists>j < length eps. isl (bind_endpoint os (i + j)) \<or> isl (endpoint_addr os (i + j)))"
proof (induction eps arbitrary: i addrs s)
  case Nil
  then show ?case by simp
next
  case (Cons ep eps)
  have "(\<exists>j < length (ep # eps). isl (bind_endpoint os (i + j)) \<or> isl (endpoint_addr os (i + j))) \<longleftrightarrow>
      isl (bind_endpoint os i) \<or> isl (endpoint_addr os i) \<or>
      (\<exists>j < length eps. isl (bind_endpoint os (Suc i + j)) \<or> isl (endpoint_addr os (Suc i + j)))"
    by (auto simp: Ex_less_Suc2)
  then show ?case by (auto simp: Cons.IH Let_def split: sum.split)
qed

lemma server_start_ok:
  "server_sockets_ok cfg os \<longleftrightarrow> \<not> isl (fst (server_start os (server_new cfg)))"
proof -
  have cfg: "s_cfg (server_new cfg) = cfg" by (simp add: server_new_def)
  show ?thesis
    using open_listeners_ok [of os 0 "sc_listen_addrs cfg" "[]" "server_new cfg"]
    by (auto simp: server_start_def server_sockets_ok_def cfg split: prod.splits sum.splits)
qed

text \<open>A started proxy is the one of the configuration, which is valid, with all its sockets.\<close>

definition proxy_started :: "platform \<Rightarrow> string list \<Rightarrow> proxy \<Rightarrow> bool" where
  "proxy_started pf argv x \<longleftrightarrow>
     (\<exists>cfg. config_loaded pf argv = Inr cfg \<and> config_ok cfg \<and> sockets_ok pf cfg \<and>
        (case cfg_mode cfg of
           Client \<Rightarrow> (\<exists>c. cfg_client cfg = Some c \<and> client_config_ok c \<and>
                          x = ClientProxy (client_async_started (seed pf) c (client_os pf)))
         | Server \<Rightarrow> (\<exists>s. cfg_server cfg = Some s \<and> server_config_ok s \<and>
                          x = ServerProxy (async_started s (server_os pf)))))"

lemma start_client_cases:
  "if client_sockets_ok c (client_os pf)
   then start_client pf c =
     \<lparr>p_stage = Serving, p_proxy = ClientProxy (client_async_started (seed pf) c (client_os pf))\<rparr>
   else \<exists>e. start_client pf c = failed (StartError e)"
  using client_start_ok [of c "client_os pf" "seed pf"]
  by (auto simp: start_client_def client_async_started_def client_started_def split: prod.splits sum.splits)

lemma start_server_cases:
  "if server_sockets_ok s (server_os pf)
   then start_server pf s = \<lparr>p_stage = Serving, p_proxy = ServerProxy (async_started s (server_os pf))\<rparr>
   else \<exists>e. start_server pf s = failed (StartError e)"
  using server_start_ok [of s "server_os pf"]
  by (auto simp: start_server_def async_started_def server_started_def split: prod.splits sum.splits)

lemma main_started_cases:
  "case config_loaded pf argv of
     Inl e \<Rightarrow> main_started pf argv = failed (LoadError e)
   | Inr cfg \<Rightarrow>
       if \<not> set_subscriber pf (if cfg_verbose cfg then DEBUG else INFO)
       then main_started pf argv = failed SubscriberError
       else if \<not> sockets_ok pf cfg then \<exists>e. main_started pf argv = failed (StartError e)
       else \<exists>x. main_started pf argv = \<lparr>p_stage = Serving, p_proxy = x\<rparr> \<and> proxy_started pf argv x"
proof (cases "config_loaded pf argv")
  case (Inl e)
  then show ?thesis by (simp add: main_started_def main_def config_loaded_def)
next
  case (Inr cfg)
  then have ok: "config_ok cfg" unfolding config_loaded_def by (rule load_config_ok)
  show ?thesis
  proof (cases "cfg_mode cfg")
    case Client
    with ok obtain c where c: "cfg_client cfg = Some c" "client_config_ok c"
      by (auto simp: config_ok_def)
    with Inr Client start_client_cases [of c pf] ok show ?thesis
      by (auto simp: main_started_def main_def config_loaded_def proxy_started_def sockets_ok_def Let_def)
  next
    case Server
    with ok obtain s where s: "cfg_server cfg = Some s" "server_config_ok s"
      by (auto simp: config_ok_def)
    with Inr Server start_server_cases [of s pf] ok show ?thesis
      by (auto simp: main_started_def main_def config_loaded_def proxy_started_def sockets_ok_def Let_def)
  qed
qed

section \<open>Cancellation\<close>

text \<open>The token of the client, and of the server, is cancelled by \<open>stop\<close> and by nothing else.\<close>

lemma fold_close_tcp_cancelled: "c_cancelled (ca_base (fold close_tcp keys s)) = c_cancelled (ca_base s)"
  by (induction keys arbitrary: s) (simp_all add: close_tcp_def split: option.split)

lemma client_step_cancelled:
  "c_cancelled (ca_base (snd (client_step w now random connected h s))) = c_cancelled (ca_base s)"
proof (cases h)
  case (SendUdp k q pl senders)
  then show ?thesis
    by (cases senders) (simp_all add: client_step_def proceed_def finish_def split: option.split)
next
  case (FindTcp k q pl eps)
  then show ?thesis
    by (cases eps) (simp_all add: client_step_def proceed_def finish_def split: option.split)
next
  case (ScanUdp t todo dead)
  then show ?thesis
    by (cases "(w, now, todo, dead, s)" rule: scan_udp_step.cases)
      (simp_all add: client_step_def proceed_def Let_def)
next
  case (SweepUdp t dead)
  then show ?thesis
    by (cases "(w, now, dead, s)" rule: sweep_udp_step.cases) (simp_all add: client_step_def proceed_def)
next
  case (ScanTcp t todo dead)
  then show ?thesis
    by (cases "(w, now, todo, dead, s)" rule: scan_tcp_step.cases)
      (simp_all add: client_step_def proceed_def finish_def Let_def fold_close_tcp_cancelled)
next
  case (CloseTcp key)
  then show ?thesis
    by (simp add: client_step_def close_tcp_step_def close_tcp_def end_reader_def finish_def Let_def
        split: option.split client_worker.split)
qed (simp_all add: client_step_def find_session_step_def new_session_step_def add_source_step_def
       take_number_step_def touch_session_step_def new_tcp_step_def open_tcp_step_def touch_tcp_step_def
       write_tcp_step_def find_source_step_def find_receiver_step_def check_response_step_def
       touch_receiver_step_def deliver_step_def sweep_source_step_def lock_tcp_step_def
       proceed_def finish_def modify_udp_def modify_tcp_def Let_def case_prod_beta split: option.split)

lemma client_async_cancelled:
  "c_cancelled (ca_base (snd (client_async_handle ev s))) \<longleftrightarrow>
     c_cancelled (ca_base s) \<or> (case ev of Begin e \<Rightarrow> e = Stop | Advance _ _ _ _ \<Rightarrow> False)"
proof (cases ev)
  case (Begin e)
  then show ?thesis
    by (cases e) (simp_all add: client_async_handle_def begin_handler_def proceed_def Let_def
        client_handle_def end_reader_def client_stop_def split: option.split sum.split prod.split)
next
  case (Advance w now random connected)
  then show ?thesis by (simp add: client_async_handle_def client_step_cancelled split: option.split)
qed

lemma handler_step_cancelled:
  "s_cancelled (a_base (snd (handler_step w now target h a))) = s_cancelled (a_base a)"
proof (cases h)
  case (SendPaths sid q pl ps)
  then show ?thesis by (cases ps) (simp_all add: handler_step_def goto_def return_def)
qed (simp_all add: handler_step_def lookup_step_def create_step_def connect_step_def touch_step_def
       check_step_def track_step_def add_path_step_def touch_response_step_def next_seq_step_def
       get_paths_step_def forget_conn_step_def drop_path_step_def end_conn_def scan_step_def sweep_step_def
       sweep_paths_step_def goto_def return_def modify_def track_conn_def push_tcp_path_def add_udp_path_def
       Let_def case_prod_beta split: option.split target_open.split packet_source.split worker.split list.split)

lemma server_async_cancelled:
  "s_cancelled (a_base (snd (async_handle ev a))) \<longleftrightarrow>
     s_cancelled (a_base a) \<or> (case ev of Start e \<Rightarrow> e = ServerStop | Step _ _ _ \<Rightarrow> False)"
proof (cases ev)
  case (Start e)
  then show ?thesis
    by (cases e) (simp_all add: async_handle_def start_handler_def goto_def Let_def
        server_handle_def server_stop_def split: option.split sum.split prod.split)
next
  case (Step w now target)
  then show ?thesis by (simp add: async_handle_def handler_step_cancelled split: option.split)
qed

section \<open>What it does while it serves\<close>

text \<open>
  The part of what happens to the process that its proxy takes part in: what its tasks do, and the
  call of \<open>stop\<close> when a signal has come.
\<close>

definition client_part :: "process_event list \<Rightarrow> client_async_event list" where
  "client_part es =
     concat (map (\<lambda>e. case e of ClientDoes ev \<Rightarrow> [ev] | Signalled _ \<Rightarrow> [Begin Stop] | _ \<Rightarrow> []) es)"

definition server_part :: "process_event list \<Rightarrow> async_event list" where
  "server_part es =
     concat (map (\<lambda>e. case e of ServerDoes ev \<Rightarrow> [ev] | Signalled _ \<Rightarrow> [Start ServerStop] | _ \<Rightarrow> []) es)"

lemma parts_simps [simp]:
  "client_part [] = []" "server_part [] = []"
  "client_part (es @ [e]) = client_part es @
     (case e of ClientDoes ev \<Rightarrow> [ev] | Signalled _ \<Rightarrow> [Begin Stop] | _ \<Rightarrow> [])"
  "server_part (es @ [e]) = server_part es @
     (case e of ServerDoes ev \<Rightarrow> [ev] | Signalled _ \<Rightarrow> [Start ServerStop] | _ \<Rightarrow> [])"
  by (simp_all add: client_part_def server_part_def)

text \<open>A run of the process, seen as a run of the proxy it started with.\<close>

definition proxy_run ::
    "proxy \<Rightarrow> process_event list \<Rightarrow> (client_output + server_output) list \<Rightarrow> proxy \<Rightarrow> bool" where
  "proxy_run x es outs y =
     (case (x, y) of
        (NoProxy, NoProxy) \<Rightarrow> outs = []
      | (ClientProxy s, ClientProxy t) \<Rightarrow>
          (\<exists>os. client_async_run s (client_part es) os t \<and> outs = map Inl os)
      | (ServerProxy a, ServerProxy b) \<Rightarrow>
          (\<exists>os. async_run a (server_part es) os b \<and> outs = map Inr os)
      | _ \<Rightarrow> False)"

lemma proxy_run_snoc_client:
  assumes "proxy_run x es outs (ClientProxy s)" and "client_async_enabled s ev"
    and "client_async_handle ev s = (os, t)" and "client_part (es @ [e]) = client_part es @ [ev]"
  shows "proxy_run x (es @ [e]) (outs @ map Inl os) (ClientProxy t)"
proof (cases x)
  case (ClientProxy s0)
  with assms(1) obtain os0 where "client_async_run s0 (client_part es) os0 s" "outs = map Inl os0"
    by (auto simp: proxy_run_def)
  with run_snoc [OF this(1) assms(2,3)] assms(4) ClientProxy show ?thesis
    by (auto simp: proxy_run_def intro!: exI [of _ "os0 @ os"])
qed (use assms in \<open>simp_all add: proxy_run_def\<close>)

lemma proxy_run_snoc_server:
  assumes "proxy_run x es outs (ServerProxy a)" and "async_enabled a ev"
    and "async_handle ev a = (os, b)" and "server_part (es @ [e]) = server_part es @ [ev]"
  shows "proxy_run x (es @ [e]) (outs @ map Inr os) (ServerProxy b)"
proof (cases x)
  case (ServerProxy a0)
  with assms(1) obtain os0 where "async_run a0 (server_part es) os0 a" "outs = map Inr os0"
    by (auto simp: proxy_run_def)
  with run_snoc [OF this(1) assms(2,3)] assms(4) ServerProxy show ?thesis
    by (auto simp: proxy_run_def intro!: exI [of _ "os0 @ os"])
qed (use assms in \<open>simp_all add: proxy_run_def\<close>)

lemma proxy_run_idle:
  assumes "proxy_run x es outs y" and "client_part (es @ [e]) = client_part es"
    and "server_part (es @ [e]) = server_part es"
  shows "proxy_run x (es @ [e]) outs y"
  using assms unfolding proxy_run_def by (auto split: proxy.splits)

text \<open>\<open>stop\<close> is one more event of the proxy.\<close>

lemma proxy_run_stop:
  assumes "proxy_run x es outs y"
  shows "proxy_run x (es @ [Signalled sig]) outs (stop_proxy y)"
proof (cases y)
  case NoProxy
  with assms show ?thesis by (auto simp: stop_proxy_def proxy_run_def split: proxy.splits)
next
  case (ClientProxy s)
  have "client_async_enabled s (Begin Stop)"
    by (simp add: client_async_enabled_def client_enabled_def client_worker_of_def)
  from proxy_run_snoc_client [OF assms [unfolded ClientProxy] this, of "[]" "begin_handler Stop s" "Signalled sig"]
  show ?thesis by (simp add: stop_proxy_def ClientProxy client_async_handle_def)
next
  case (ServerProxy a)
  have "async_enabled a (Start ServerStop)"
    by (simp add: async_enabled_def server_enabled_def worker_of_def)
  moreover have "fst (async_handle (Start ServerStop) a) = []"
    by (simp add: async_handle_def start_handler_def)
  ultimately show ?thesis
    using proxy_run_snoc_server [OF assms [unfolded ServerProxy], of "Start ServerStop" "[]"
        "snd (async_handle (Start ServerStop) a)" "Signalled sig"]
    by (simp add: stop_proxy_def ServerProxy prod_eq_iff)
qed

definition proxy_cancelled :: "proxy \<Rightarrow> bool" where
  "proxy_cancelled x =
     (case x of
        NoProxy \<Rightarrow> False
      | ClientProxy s \<Rightarrow> c_cancelled (ca_base s)
      | ServerProxy a \<Rightarrow> s_cancelled (a_base a))"

lemma stop_proxy_cancelled: "y \<noteq> NoProxy \<Longrightarrow> proxy_cancelled (stop_proxy y)"
  by (cases y) (simp_all add: stop_proxy_def proxy_cancelled_def client_async_cancelled server_async_cancelled)

lemma process_proxy_run:
  assumes "process_run pf p0 es outs p"
  shows "proxy_run (p_proxy p0) es outs (p_proxy p)"
  using assms
proof (induction rule: run.induct)
  case (run_Nil p)
  show ?case by (auto simp: proxy_run_def split: proxy.split)
next
  case (run_snoc p0 es outs p e os p')
  note IH = run_snoc.IH and en = run_snoc.hyps(2) and step = run_snoc.hyps(3)
  show ?case
  proof (cases e)
    case (ClientDoes ev)
    with en obtain s where s: "p_proxy p = ClientProxy s" "client_async_enabled s ev"
      by (auto simp: process_enabled_def split: proxy.splits)
    obtain cos t where t: "client_async_handle ev s = (cos, t)" by fastforce
    with step ClientDoes s(1) have "os = map Inl cos" "p_proxy p' = ClientProxy t"
      by (auto simp: process_handle_def)
    with proxy_run_snoc_client [OF IH [unfolded s(1)] s(2) t] ClientDoes show ?thesis by simp
  next
    case (ServerDoes ev)
    with en obtain a where a: "p_proxy p = ServerProxy a" "async_enabled a ev"
      by (auto simp: process_enabled_def split: proxy.splits)
    obtain sos b where b: "async_handle ev a = (sos, b)" by fastforce
    with step ServerDoes a(1) have "os = map Inr sos" "p_proxy p' = ServerProxy b"
      by (auto simp: process_handle_def)
    with proxy_run_snoc_server [OF IH [unfolded a(1)] a(2) b] ServerDoes show ?thesis by simp
  next
    case MainWaits
    with step proxy_run_idle [OF IH, of e] show ?thesis by (auto simp: process_handle_def)
  next
    case (Unhandled sig)
    with step proxy_run_idle [OF IH, of e] show ?thesis by (auto simp: process_handle_def)
  next
    case (Signalled sig)
    with step proxy_run_stop [OF IH] show ?thesis by (auto simp: process_handle_def)
  qed
qed

text \<open>The token of the proxy is cancelled exactly when the process has ended after a signal.\<close>

lemma process_cancelled:
  assumes "process_run pf p0 es outs p" and "p_stage p0 = Serving" and "p_proxy p0 \<noteq> NoProxy"
    and "\<not> proxy_cancelled (p_proxy p0)"
  shows "p_proxy p \<noteq> NoProxy \<and> (proxy_cancelled (p_proxy p) \<longleftrightarrow> p_stage p = Returned (Inr ()))"
  using assms
proof (induction rule: run.induct)
  case (run_Nil p)
  then show ?case by simp
next
  case (run_snoc p0 es outs p e os p')
  then have IH: "p_proxy p \<noteq> NoProxy" "proxy_cancelled (p_proxy p) \<longleftrightarrow> p_stage p = Returned (Inr ())" by simp_all
  show ?case
  proof (cases e)
    case (ClientDoes ev)
    with run_snoc.hyps(2) obtain s where s: "p_proxy p = ClientProxy s" "\<not> client_stops ev"
      by (auto simp: process_enabled_def split: proxy.splits)
    then have "c_cancelled (ca_base (snd (client_async_handle ev s))) \<longleftrightarrow> c_cancelled (ca_base s)"
      by (auto simp: client_async_cancelled client_stops_def split: client_async_event.splits)
    with IH s ClientDoes run_snoc.hyps(3) show ?thesis
      by (auto simp: process_handle_def proxy_cancelled_def split: prod.splits)
  next
    case (ServerDoes ev)
    with run_snoc.hyps(2) obtain a where a: "p_proxy p = ServerProxy a" "\<not> server_stops ev"
      by (auto simp: process_enabled_def split: proxy.splits)
    then have "s_cancelled (a_base (snd (async_handle ev a))) \<longleftrightarrow> s_cancelled (a_base a)"
      by (auto simp: server_async_cancelled server_stops_def split: async_event.splits)
    with IH a ServerDoes run_snoc.hyps(3) show ?thesis
      by (auto simp: process_handle_def proxy_cancelled_def split: prod.splits)
  next
    case MainWaits
    with IH run_snoc.hyps(2,3) show ?thesis
      by (auto simp: process_handle_def process_enabled_def wait_for_shutdown_def split: if_splits)
  next
    case (Unhandled sig)
    with IH run_snoc.hyps(2,3) show ?thesis by (auto simp: process_handle_def process_enabled_def)
  next
    case (Signalled sig)
    have "stop_proxy (p_proxy p) \<noteq> NoProxy"
      using IH(1) by (cases "p_proxy p") (simp_all add: stop_proxy_def)
    with IH(1) Signalled run_snoc.hyps(3) stop_proxy_cancelled show ?thesis
      by (auto simp: process_handle_def)
  qed
qed

lemma server_started_fresh: "\<not> s_cancelled (server_started cfg os)"
proof -
  obtain r s where o: "open_listeners os 0 (sc_listen_addrs cfg) [] (server_new cfg) = (r, s)"
    by fastforce
  from open_listeners_frame [OF this] have "\<not> s_cancelled s" by (auto simp: server_new_def)
  moreover have "s_cfg (server_new cfg) = cfg" by (simp add: server_new_def)
  ultimately show ?thesis by (simp add: server_started_def server_start_def o split: sum.split)
qed

lemma proxy_started_fresh:
  assumes "proxy_started pf argv x"
  shows "x \<noteq> NoProxy \<and> \<not> proxy_cancelled x"
proof -
  from assms obtain cfg :: config where cfg: "case cfg_mode cfg of
      Client \<Rightarrow> (\<exists>c. cfg_client cfg = Some c \<and> client_config_ok c \<and>
        x = ClientProxy (client_async_started (seed pf) c (client_os pf)))
    | Server \<Rightarrow> (\<exists>s. cfg_server cfg = Some s \<and> server_config_ok s \<and>
        x = ServerProxy (async_started s (server_os pf)))"
    unfolding proxy_started_def by blast
  then show ?thesis
    by (cases "cfg_mode cfg") (auto simp: proxy_cancelled_def client_async_started_def
        client_async_new_def async_started_def async_new_def server_started_fresh)
qed

section \<open>How it ends\<close>

definition ends_well :: "platform \<Rightarrow> process \<Rightarrow> process_event list \<Rightarrow> process \<Rightarrow> bool" where
  "ends_well pf p0 es p =
     (case p_stage p of
        Serving \<Rightarrow> p_stage p0 = Serving \<and> MainWaits \<notin> set es \<and> (\<forall>s. Signalled s \<notin> set es)
      | Waiting \<Rightarrow> p_stage p0 = Serving \<and> (\<forall>s. can_install pf s) \<and> (\<forall>s. Signalled s \<notin> set es)
      | Returned r \<Rightarrow>
          (case r of
             Inl e \<Rightarrow> es = [] \<and> p = p0
           | Inr _ \<Rightarrow> p_stage p0 = Serving \<and> (\<forall>s. can_install pf s) \<and> (\<exists>s ds. es = ds @ [Signalled s]))
      | Panicked msg \<Rightarrow> p_stage p0 = Serving \<and> (\<exists>s. \<not> can_install pf s) \<and> (\<forall>s. Signalled s \<notin> set es)
      | Killed s \<Rightarrow> p_stage p0 = Serving \<and> (\<forall>s. Signalled s \<notin> set es))"

lemma process_dead: "\<not> alive p \<Longrightarrow> \<not> process_enabled p e"
  by (cases e) (auto simp: process_enabled_def alive_def)

lemma all_signals: "(\<forall>s. P s) \<longleftrightarrow> P SIGINT \<and> P SIGTERM"
  by (metis signal.exhaust)

lemma process_ends_well:
  assumes "process_run pf p0 es outs p" and "p_stage p0 = Serving \<or> (\<exists>e. p_stage p0 = Returned (Inl e))"
  shows "ends_well pf p0 es p"
  using assms
proof (induction rule: run.induct)
  case (run_Nil p)
  then show ?case by (auto simp: ends_well_def)
next
  case (run_snoc p0 es outs p e os p')
  then have IH: "ends_well pf p0 es p" by simp
  from run_snoc.hyps(2) have live: "alive p" using process_dead by blast
  show ?case
  proof (cases e)
    case (ClientDoes ev)
    with run_snoc.hyps(3) have "p_stage p' = p_stage p"
      by (auto simp: process_handle_def split: proxy.splits prod.splits)
    with IH live ClientDoes show ?thesis by (auto simp: ends_well_def alive_def)
  next
    case (ServerDoes ev)
    with run_snoc.hyps(3) have "p_stage p' = p_stage p"
      by (auto simp: process_handle_def split: proxy.splits prod.splits)
    with IH live ServerDoes show ?thesis by (auto simp: ends_well_def alive_def)
  next
    case MainWaits
    with run_snoc.hyps(2,3) have "p_stage p = Serving" "p_stage p' = wait_for_shutdown (can_install pf)"
      by (auto simp: process_enabled_def process_handle_def)
    with IH MainWaits show ?thesis
      by (auto simp: ends_well_def wait_for_shutdown_def all_signals [of "can_install pf"] split: if_splits)
  next
    case (Unhandled sig)
    with run_snoc.hyps(2,3) have "p_stage p = Serving" "p_stage p' = Killed sig"
      by (auto simp: process_enabled_def process_handle_def)
    with IH Unhandled show ?thesis by (auto simp: ends_well_def)
  next
    case (Signalled sig)
    with run_snoc.hyps(2,3) have "p_stage p = Waiting" "p_stage p' = Returned (Inr ())"
      by (auto simp: process_enabled_def process_handle_def)
    with IH Signalled show ?thesis by (auto simp: ends_well_def)
  qed
qed

lemma waiting_ends:
  "p_stage p = Waiting \<Longrightarrow> \<exists>p'. process_run pf p [Signalled sig] [] p' \<and> exit_code (p_stage p') = Some 0"
  using run_handle [of process_enabled p "Signalled sig" "process_handle pf"]
  by (intro exI [of _ "snd (process_handle pf (Signalled sig) p)"])
    (simp add: process_enabled_def process_handle_def)

lemma signal_ends:
  assumes "alive p" and "\<forall>s. can_install pf s"
  shows "\<exists>ds p'. process_run pf p (ds @ [Signalled sig]) [] p' \<and> exit_code (p_stage p') = Some 0"
proof (cases "p_stage p = Waiting")
  case True
  with waiting_ends [of p pf sig] show ?thesis by (intro exI [of _ "[]"]) simp
next
  case False
  with assms(1) have serving: "process_enabled p MainWaits"
    by (simp add: alive_def process_enabled_def)
  let ?q = "snd (process_handle pf MainWaits p)"
  have "p_stage ?q = Waiting"
    using assms(2) by (simp add: process_handle_def wait_for_shutdown_def)
  from waiting_ends [OF this] obtain p' where
    "process_run pf ?q [Signalled sig] [] p'" "exit_code (p_stage p') = Some 0" by blast
  with run_step [OF serving this(1)] show ?thesis
    by (intro exI [of _ "[MainWaits]"] exI [of _ p']) (simp add: process_handle_def)
qed

section \<open>The properties of the process\<close>

text \<open>A platform on which everything works; the command line is that of \<open>sample_args\<close>.\<close>

definition sample_platform :: platform where
  "sample_platform = \<lparr>parse_args = (\<lambda>_. sample_args), read_file = (\<lambda>_. Inl []), parse_yaml = (\<lambda>_. Inl []),
     set_subscriber = (\<lambda>_. True), seed = 41,
     client_os = \<lparr>bind_sender = (\<lambda>i. Inr (100 + i)), connect_sender = (\<lambda>_. Inr ()),
       bind_listener = Inr 7, local_addr = Inr (SocketV4 0 0 0 0 5000)\<rparr>,
     server_os = \<lparr>bind_endpoint = (\<lambda>i. Inr (200 + i)),
       endpoint_addr = (\<lambda>_. Inr (SocketV4 0 0 0 0 8001))\<rparr>,
     can_install = (\<lambda>_. True)\<rparr>"

lemma sample_serves: "p_stage (main_started sample_platform []) = Serving"
  by code_simp

lemma ends_started: "p_stage (main_started pf argv) = Serving \<or> (\<exists>e. p_stage (main_started pf argv) = Returned (Inl e))"
  using main_started_cases [of pf argv] by (auto simp: failed_def split: sum.splits if_splits)

text \<open>
  Claim C30: what \<open>main\<close> comes to before it serves. It fails with the error of \<open>load\<close>; else with that of
  the logger, if the subscriber cannot be set; else with the error of \<open>start\<close> if any of the sockets the
  configuration asks for cannot be had, and then nothing runs; else, and only then, the one proxy
  the mode asks for has been started with its validated configuration. It never panics here.
\<close>

theorem main_outcome:
  "case config_loaded pf argv of
     Inl e \<Rightarrow> main_started pf argv = failed (LoadError e)
   | Inr cfg \<Rightarrow>
       if \<not> set_subscriber pf (if cfg_verbose cfg then DEBUG else INFO)
       then main_started pf argv = failed SubscriberError
       else if \<not> sockets_ok pf cfg then \<exists>e. main_started pf argv = failed (StartError e)
       else \<exists>x. main_started pf argv = \<lparr>p_stage = Serving, p_proxy = x\<rparr> \<and> proxy_started pf argv x"
  by (rule main_started_cases)


definition sample_events :: "process_event list" where
  "sample_events = [MainWaits, Signalled SIGTERM]"

definition sample_end :: process where
  "sample_end = snd (the (exec process_enabled (process_handle sample_platform)
     sample_events (main_started sample_platform [])))"

lemma sample_process:
  "process_run sample_platform (main_started sample_platform []) sample_events [] sample_end"
proof -
  have "case exec process_enabled (process_handle sample_platform)
      sample_events (main_started sample_platform []) of
      None \<Rightarrow> False | Some (outs, p) \<Rightarrow> outs = []"
    by code_simp
  then show ?thesis unfolding sample_end_def by (intro exec_run) (auto split: option.splits)
qed




end
