(* ===== verification/Client_Props.thy ===== *)
theory Client_Props
  imports Client_Correct
begin

text \<open>
  The properties of the client, over the invariants of theory \<open>Client_Correct\<close>, each with a
  concrete instance.
\<close>

section \<open>A concrete client\<close>

definition demo_config :: client_config where
  "demo_config = \<lparr>cc_listen_addr = ''0.0.0.0:5000'',
     cc_servers = [\<lparr>ep_address = ''10.0.0.1:8001'', ep_protocol = Udp\<rparr>,
                   \<lparr>ep_address = ''10.0.0.1:8002'', ep_protocol = Tcp\<rparr>],
     cc_session_timeout = 60000000000\<rparr>"

definition demo_sockets :: client_sockets where
  "demo_sockets = \<lparr>bind_sender = (\<lambda>i. Inr (100 + i)), connect_sender = (\<lambda>_. Inr ()),
     bind_listener = Inr 7, local_addr = Inr (SocketV4 0 0 0 0 5000)\<rparr>"

definition demo_client :: client where
  "demo_client = client_started 41 demo_config demo_sockets"

definition demo_source :: socket_addr where
  "demo_source = SocketV4 10 0 0 7 4000"

text \<open>Second 1: a packet of three bytes; the TCP connection is made.\<close>

definition demo_packet :: client_event where
  "demo_packet = Packet 1000000000 5 (\<lambda>_. True) demo_source [1, 2, 3]"

definition after_packet :: client where
  "after_packet = snd (client_handle demo_packet demo_client)"

lemma demo_run:
  "client_run demo_client [demo_packet] (fst (client_handle demo_packet demo_client)) after_packet"
proof (rule run_single)
  show "client_enabled demo_client demo_packet" by code_simp
  show "client_handle demo_packet demo_client
      = (fst (client_handle demo_packet demo_client), after_packet)"
    by (simp add: after_packet_def)
qed

lemma demo_run_started:
  "client_run (client_started 41 demo_config demo_sockets) [demo_packet]
     (fst (client_handle demo_packet demo_client)) after_packet"
  using demo_run by (simp add: demo_client_def)

lemma short_run: "length es < 100 \<Longrightarrow> length es \<le> event_limit"
  by (simp add: event_limit_def)

section \<open>Sessions\<close>

text \<open>
  Along every run of a started client, of up to \<open>2 ^ 62\<close> events, the map from session
  identifiers to sources is the inverse of the map from sources to sessions: each identifier in
  use belongs to exactly one source, and none is zero, even when the random start of the counter
  makes it wrap around.
\<close>

lemma client_maps_inverse:
  assumes "client_run (client_started r cfg os) es outs c" and "length es \<le> event_limit"
  shows "(hm_get (c_udp_session_addrs c) sid = Some a \<longleftrightarrow>
            (\<exists>s. hm_get (c_udp_sessions c) a = Some s \<and> us_session_id s = sid)) \<and>
         hm_get (c_udp_session_addrs c) 0 = None"
proof -
  note D = ids_invD [OF reachable_ids_inv [OF assms]]
  have "hm_get (c_udp_session_addrs c) 0 \<noteq> Some b" for b
    using D(2) [of 0 b] D(1) by (auto simp: session_ok_def)
  moreover have "hm_get (c_udp_session_addrs c) sid = Some a \<longleftrightarrow>
      (\<exists>s. hm_get (c_udp_sessions c) a = Some s \<and> us_session_id s = sid)"
    using D(1) [of a] D(2) [of sid a] by blast
  ultimately show ?thesis by (cases "hm_get (c_udp_session_addrs c) 0") auto
qed

lemma client_maps_inverse_example:
  "(hm_get (c_udp_session_addrs after_packet) 42 = Some demo_source \<longleftrightarrow>
      (\<exists>s. hm_get (c_udp_sessions after_packet) demo_source = Some s \<and> us_session_id s = 42)) \<and>
   hm_get (c_udp_session_addrs after_packet) 0 = None"
  by (rule client_maps_inverse [OF demo_run_started short_run]) simp

section \<open>One identifier, one session\<close>

text \<open>An identifier that has been drawn and is out of use.\<close>

definition retired :: "u64 \<Rightarrow> u64 \<Rightarrow> client \<Rightarrow> bool" where
  "retired base i c \<longleftrightarrow>
     issued base i \<le> issued base (c_session_id_counter c) \<and> hm_get (c_udp_session_addrs c) i = None"

text \<open>How one event changes the session of a source.\<close>

definition from_source :: "socket_addr \<Rightarrow> client_event \<Rightarrow> bool" where
  "from_source a e = (case e of Packet _ _ _ b _ \<Rightarrow> b = a | _ \<Rightarrow> False)"

lemma handle_packet_sessions:
  "c_udp_sessions (snd (handle_packet now r connects c b pl)) =
     (let (s, c1) = get_or_create_udp_session now r c b
      in hm_insert b (s\<lparr>us_seq := us_seq s + 1, us_last_activity := now\<rparr>) (c_udp_sessions c1))"
  "c_udp_session_addrs (snd (handle_packet now r connects c b pl)) =
     c_udp_session_addrs (snd (get_or_create_udp_session now r c b))"
  "c_session_id_counter (snd (handle_packet now r connects c b pl)) =
     c_session_id_counter (snd (get_or_create_udp_session now r c b))"
  by (simp_all add: handle_packet_def Let_def case_prod_beta handle_tcp_transport_frame)

lemma get_or_create_other:
  "b \<noteq> a \<Longrightarrow> hm_get (c_udp_sessions (snd (get_or_create_udp_session now r c b))) a
     = hm_get (c_udp_sessions c) a"
  by (simp add: get_or_create_udp_session_def Let_def case_prod_beta split: option.split)

text \<open>
  What a step may do to a live session: nothing, advance it by a packet of its source, check a
  response, or remove it.
\<close>

lemma session_step:
  fixes e
  assumes s: "hm_get (c_udp_sessions c) a = Some s"
  defines "c' \<equiv> snd (client_handle e c)"
  shows "hm_get (c_udp_sessions c') a = None \<or>
    (\<exists>s'. hm_get (c_udp_sessions c') a = Some s' \<and> us_session_id s' = us_session_id s \<and>
      us_seq s' = us_seq s + (if from_source a e then 1 else 0) \<and>
      (us_response_dedup s' = us_response_dedup s \<or>
       (\<exists>q. us_response_dedup s' = snd (response_is_duplicate (us_response_dedup s) q))))"
proof -
  have deliver: "\<exists>s'. hm_get (c_udp_sessions (snd (deliver now c b q pl))) a = Some s' \<and>
      us_session_id s' = us_session_id s \<and> us_seq s' = us_seq s \<and>
      (us_response_dedup s' = us_response_dedup s \<or>
       (\<exists>q. us_response_dedup s' = snd (response_is_duplicate (us_response_dedup s) q)))"
    for now b q pl
  proof (cases "b = a")
    case True
    with s show ?thesis by (auto simp: deliver_sessions case_prod_beta)
  next
    case False
    with s show ?thesis
      by (cases "hm_get (c_udp_sessions c) b") (auto simp: deliver_sessions case_prod_beta)
  qed
  show ?thesis
  proof (cases e)
    case (Packet now r connects b pl)
    show ?thesis
    proof (cases "b = a")
      case True
      with s Packet show ?thesis
        by (simp add: c'_def client_handle_def handle_packet_sessions from_source_def
            get_or_create_udp_session_known)
    next
      case False
      with s Packet show ?thesis
        by (simp add: c'_def client_handle_def handle_packet_sessions from_source_def
            case_prod_beta get_or_create_other)
    qed
  next
    case (UdpResponse now sock data)
    with s deliver show ?thesis
      by (simp add: c'_def client_handle_def process_udp_response_eq from_source_def
          split: sum.split option.split)
  next
    case (TcpResponse now n data)
    with s deliver show ?thesis
      by (simp add: c'_def client_handle_def process_tcp_response_eq from_source_def
          split: sum.split option.split)
  next
    case (CleanupTick now)
    with s show ?thesis
      by (simp add: c'_def client_handle_def sweep_udp_sessions unless_expired_def from_source_def)
  qed (use s in \<open>simp_all add: c'_def client_handle_def end_reader_def client_stop_def
         cleanup_tcp_session_frame from_source_def split: option.split\<close>)
qed

lemma counter_get_or_create:
  fixes now r b
  assumes inv: "ids_inv base n c" and n: "n < event_limit"
  defines "c' \<equiv> snd (get_or_create_udp_session now r c b)"
  shows "issued base (c_session_id_counter c) \<le> issued base (c_session_id_counter c')"
    and "hm_get (c_udp_session_addrs c') i = Some a \<Longrightarrow> hm_get (c_udp_session_addrs c) i = Some a
      \<or> issued base (c_session_id_counter c) < issued base i"
proof -
  let ?k = "c_session_id_counter c"
  have k: "issued base ?k + 2 < 2 ^ 64"
    using ids_invD(3) [OF inv] n by (simp add: event_limit_def)
  have one: "issued base (?k + 1) = issued base ?k + 1"
    using k by (intro issued_Suc) simp
  then have two: "issued base (?k + 1 + 1) = issued base ?k + 2"
    using issued_Suc [of base "?k + 1"] k by simp
  have zero: "?k + 1 = 0 \<Longrightarrow> issued base 1 = issued base ?k + 2"
    using two by (metis add_0)
  show "issued base ?k \<le> issued base (c_session_id_counter c')"
    using one zero
    by (simp add: c'_def get_or_create_udp_session_def Let_def case_prod_beta split: option.split)
  show "hm_get (c_udp_session_addrs c') i = Some a \<Longrightarrow> hm_get (c_udp_session_addrs c) i = Some a
      \<or> issued base ?k < issued base i"
    using one zero
    by (auto simp: c'_def get_or_create_udp_session_def Let_def case_prod_beta
        split: option.splits if_splits)
qed

lemma counter_step:
  fixes e
  assumes inv: "ids_inv base n c" and n: "n < event_limit"
  defines "c' \<equiv> snd (client_handle e c)"
  shows "issued base (c_session_id_counter c) \<le> issued base (c_session_id_counter c') \<and>
    (hm_get (c_udp_session_addrs c') i = Some a \<longrightarrow>
      hm_get (c_udp_session_addrs c) i = Some a
      \<or> issued base (c_session_id_counter c) < issued base i)"
proof (cases e)
  case (Packet now r connects b pl)
  with counter_get_or_create [OF inv n, of now r b] show ?thesis
    by (simp add: c'_def client_handle_def handle_packet_sessions)
next
  case (UdpResponse now sock data)
  then show ?thesis
    by (simp add: c'_def client_handle_def process_udp_response_eq split: sum.split option.split)
next
  case (TcpResponse now n data)
  then show ?thesis
    by (simp add: c'_def client_handle_def process_tcp_response_eq split: sum.split option.split)
next
  case (CleanupTick now)
  then show ?thesis
    by (simp add: c'_def client_handle_def sweep_addrs sweep_frame)
qed (simp_all add: c'_def client_handle_def end_reader_def client_stop_def
       cleanup_tcp_session_frame split: option.split)

lemma retired_step:
  assumes "ids_inv base n c" and "n < event_limit" and "retired base i c"
  shows "retired base i (snd (client_handle e c))"
proof -
  have "hm_get (c_udp_session_addrs (snd (client_handle e c))) i \<noteq> Some a" for a
    using counter_step [OF assms(1,2), of e i a] assms(3) by (auto simp: retired_def)
  then show ?thesis
    using counter_step [OF assms(1,2), of e i undefined] assms(3)
    by (cases "hm_get (c_udp_session_addrs (snd (client_handle e c))) i") (auto simp: retired_def)
qed

lemma removed_retired:
  assumes inv: "ids_inv base n c" and n: "n < event_limit"
    and s: "hm_get (c_udp_sessions c) a = Some s"
    and gone: "hm_get (c_udp_sessions (snd (client_handle e c))) a = None"
  shows "retired base (us_session_id s) (snd (client_handle e c))"
proof -
  let ?c = "snd (client_handle e c)"
  have low: "issued base (us_session_id s) \<le> issued base (c_session_id_counter c)"
    and addr: "hm_get (c_udp_session_addrs c) (us_session_id s) = Some a"
    using ids_invD(1) [OF inv s] by simp_all
  have step: "issued base (c_session_id_counter c) \<le> issued base (c_session_id_counter ?c)"
    "hm_get (c_udp_session_addrs ?c) (us_session_id s) = Some b \<Longrightarrow> b = a" for b
    using counter_step [OF inv n, of e "us_session_id s"] low addr by auto
  have "hm_get (c_udp_session_addrs ?c) (us_session_id s) \<noteq> Some b" for b
    using step(2) [of b] ids_invD(2) [OF ids_inv_handle [OF inv n, of e], of "us_session_id s" b] gone
    by auto
  with low step(1) show ?thesis
    by (cases "hm_get (c_udp_session_addrs ?c) (us_session_id s)") (auto simp: retired_def)
qed

text \<open>
  What holds of a session as long as it lives holds along a run: \<open>Q\<close> is followed from the session
  \<open>i\<close> of source \<open>a\<close> until that identifier retires, and identifiers are not drawn again.
\<close>

lemma session_along:
  assumes run: "client_run c es outs c'" and inv: "ids_inv base n c"
    and limit: "n + length es \<le> event_limit"
    and s: "hm_get (c_udp_sessions c) a = Some s" "us_session_id s = i" and "Q [] s"
    and step: "\<And>es e s s'. Q es s \<Longrightarrow> session_ok s \<Longrightarrow>
        us_seq s' = us_seq s + (if from_source a e then 1 else 0) \<Longrightarrow>
        us_response_dedup s' = us_response_dedup s
          \<or> (\<exists>q. us_response_dedup s' = snd (response_is_duplicate (us_response_dedup s) q)) \<Longrightarrow>
        Q (es @ [e]) s'"
    and s': "hm_get (c_udp_sessions c') a = Some s'" "us_session_id s' = i"
  shows "Q es s'"
proof -
  define P where "P es c \<longleftrightarrow> retired base i c \<or>
      (\<exists>s. hm_get (c_udp_sessions c) a = Some s \<and> us_session_id s = i \<and> Q es s)" for es c
  have "P es c'"
  proof (rule client_ids.preserved_along [where P = P and base = base, OF run inv limit])
    show "P [] c" using s assms(6) by (auto simp: P_def)
  next
    fix m es c e
    assume inv: "ids_inv base m c" and m: "m < event_limit" and P: "P es c"
    from P consider (gone) "retired base i c"
      | (alive) s where "hm_get (c_udp_sessions c) a = Some s" "us_session_id s = i" "Q es s"
      by (auto simp: P_def)
    then show "P (es @ [e]) (snd (client_handle e c))"
    proof cases
      case gone
      then show ?thesis by (simp add: P_def retired_step [OF inv m])
    next
      case alive
      from session_step [OF alive(1), of e] show ?thesis
      proof (elim disjE exE conjE)
        assume "hm_get (c_udp_sessions (snd (client_handle e c))) a = None"
        from removed_retired [OF inv m alive(1) this] alive(2) show ?thesis
          by (simp add: P_def)
      next
        fix s' assume s': "hm_get (c_udp_sessions (snd (client_handle e c))) a = Some s'"
          "us_session_id s' = us_session_id s"
          "us_seq s' = us_seq s + (if from_source a e then 1 else 0)"
          "us_response_dedup s' = us_response_dedup s"
        then have "Q (es @ [e]) s'"
          using ids_invD(1) [OF inv alive(1)] by (intro step [OF alive(3)]) simp_all
        with s' alive(2) show ?thesis by (simp add: P_def)
      next
        fix s' q assume s': "hm_get (c_udp_sessions (snd (client_handle e c))) a = Some s'"
          "us_session_id s' = us_session_id s"
          "us_seq s' = us_seq s + (if from_source a e then 1 else 0)"
          "us_response_dedup s' = snd (response_is_duplicate (us_response_dedup s) q)"
        then have "Q (es @ [e]) s'"
          using ids_invD(1) [OF inv alive(1)] by (intro step [OF alive(3)]) auto
        with s' alive(2) show ?thesis by (simp add: P_def)
      qed
    qed
  qed
  moreover have "ids_inv base (n + length es) c'"
    by (rule client_ids.inv_along [OF run inv limit])
  from ids_invD(1) [OF this s'(1)] s'(2) have "\<not> retired base i c'"
    by (auto simp: retired_def)
  ultimately show ?thesis
    using s' by (auto simp: P_def)
qed

section \<open>Sequence numbers\<close>

definition packets_from :: "socket_addr \<Rightarrow> client_event list \<Rightarrow> nat" where
  "packets_from a es = length (filter (from_source a) es)"

lemma packets_from_simps [simp]:
  "packets_from a [] = 0"
  "packets_from a (es @ [e]) = packets_from a es + (if from_source a e then 1 else 0)"
  by (simp_all add: packets_from_def)

text \<open>
  Claim C20: while a session lives, its sequence number counts its source's packets, exactly and
  modulo \<open>2 ^ 32\<close>: responses, other sources, the timer and the TCP transport neither skip nor
  repeat a number. So any two packets of a session fewer than \<open>2 ^ 32\<close> packets apart carry
  different numbers.
\<close>

theorem client_seq_counts:
  assumes "client_run (client_started r cfg os) es1 outs1 c1" and "client_run c1 es2 outs2 c2"
    and "length es1 + length es2 \<le> event_limit"
    and "hm_get (c_udp_sessions c1) a = Some s1" and "hm_get (c_udp_sessions c2) a = Some s2"
    and "us_session_id s2 = us_session_id s1"
  shows "us_seq s2 = us_seq s1 + of_nat (packets_from a es2)"
proof -
  have "ids_inv r (length es1) c1"
    using assms(3) by (intro reachable_ids_inv [OF assms(1)]) simp
  from session_along [OF assms(2) this assms(3,4) refl, where
      Q = "\<lambda>es s. us_seq s = us_seq s1 + of_nat (packets_from a es)", OF _ _ assms(5,6)]
  show ?thesis by simp
qed

definition second_packet :: client_event where
  "second_packet = Packet 2000000000 9 (\<lambda>_. True) demo_source [4]"

definition demo_response :: client_event where
  "demo_response = UdpResponse 3000000000 100 (encode_udp 42 7 [9, 9])"

definition after_two :: client where
  "after_two = snd (client_handle second_packet after_packet)"

definition after_three :: client where
  "after_three = snd (client_handle demo_response after_two)"

lemma demo_enabled:
  "client_enabled after_packet second_packet" "client_enabled after_two demo_response"
  by code_simp+

lemma demo_run_three:
  "client_run after_packet [second_packet, demo_response]
     (fst (client_handle second_packet after_packet) @ fst (client_handle demo_response after_two))
     after_three"
proof (rule run_step, rule demo_enabled)
  show "client_run (snd (client_handle second_packet after_packet)) [demo_response]
      (fst (client_handle demo_response after_two)) after_three"
    unfolding after_three_def after_two_def [symmetric] by (rule run_handle, rule demo_enabled)
qed

definition demo_session1 :: udp_session where
  "demo_session1 = \<lparr>us_session_id = 42, us_seq = 6, us_last_activity = 1000000000,
     us_response_dedup = response_window_new 1000\<rparr>"

definition demo_session3 :: udp_session where
  "demo_session3 = \<lparr>us_session_id = 42, us_seq = 7, us_last_activity = 3000000000,
     us_response_dedup = \<lparr>rw_seen = {7}, rw_min_seq = 7, rw_max_seq = 7, rw_size = 1000,
       rw_started = True\<rparr>\<rparr>"

lemma demo_sessions:
  "hm_get (c_udp_sessions after_packet) demo_source = Some demo_session1"
  "hm_get (c_udp_sessions after_three) demo_source = Some demo_session3"
  by code_simp+

theorem client_seq_counts_witness:
  "us_seq demo_session3
     = us_seq demo_session1 + of_nat (packets_from demo_source [second_packet, demo_response])"
proof (rule client_seq_counts [OF demo_run_started demo_run_three _ demo_sessions])
  show "length [demo_packet] + length [second_packet, demo_response] \<le> event_limit"
    by (simp add: event_limit_def)
  show "us_session_id demo_session3 = us_session_id demo_session1"
    by (simp add: demo_session1_def demo_session3_def)
qed

section \<open>Responses\<close>

text \<open>
  A datagram from a server makes the client send at most one datagram: through its
  listener, to the source that owns the session identifier in it, with the payload after the
  header and nothing else; and it does so exactly when the identifier is in use, the session's
  window does not refuse the sequence number, and the client listens.
\<close>

lemma udp_response_routed:
  "fst (process_udp_response now c data) = [SendTo l pl a] \<longleftrightarrow>
     (\<exists>sid seq s. data = encode_udp sid seq pl \<and> c_listener c = Some l \<and>
        hm_get (c_udp_session_addrs c) sid = Some a \<and>
        hm_get (c_udp_sessions c) a = Some s \<and>
        fst (response_is_duplicate (us_response_dedup s) seq) = False) \<and>
   length (fst (process_udp_response now c data)) \<le> 1"
proof -
  have out: "fst (deliver now c b seq pl') =
      (case hm_get (c_udp_sessions c) b of None \<Rightarrow> []
       | Some s \<Rightarrow> if fst (response_is_duplicate (us_response_dedup s) seq) then []
                 else (case c_listener c of None \<Rightarrow> [] | Some l \<Rightarrow> [SendTo l pl' b]))" for b seq pl'
    by (simp add: deliver_def Let_def split: option.split)
  have short: "length (fst (process_udp_response now c data)) \<le> 1"
    by (auto simp: process_udp_response_eq out split: sum.split option.split)
  have "fst (process_udp_response now c data) = [SendTo l pl a] \<longleftrightarrow>
     (\<exists>sid seq s. decode_udp data = Inr (sid, seq, pl) \<and> c_listener c = Some l \<and>
        hm_get (c_udp_session_addrs c) sid = Some a \<and>
        hm_get (c_udp_sessions c) a = Some s \<and>
        fst (response_is_duplicate (us_response_dedup s) seq) = False)"
    by (auto simp: process_udp_response_eq out split: sum.split option.split)
  with short show ?thesis by (simp add: udp.dec_iff)
qed

text \<open>A window refuses from then on what it has refused or admitted once.\<close>

lemma refused_along:
  assumes run: "client_run c es outs c'" and inv: "ids_inv base n c"
    and limit: "n + length es \<le> event_limit"
    and s: "hm_get (c_udp_sessions c) a = Some s" and q: "q \<in> rw_refused (us_response_dedup s)"
    and s': "hm_get (c_udp_sessions c') a = Some s'" "us_session_id s' = us_session_id s"
  shows "fst (response_is_duplicate (us_response_dedup s') q)"
proof -
  have "q \<in> rw_refused (us_response_dedup s')"
  proof (rule session_along [OF run inv limit s refl, where Q = "\<lambda>es s. q \<in> rw_refused (us_response_dedup s)",
        OF q _ s'])
    fix es e s s'
    assume "q \<in> rw_refused (us_response_dedup s)" "session_ok s"
      and "us_response_dedup s' = us_response_dedup s
          \<or> (\<exists>q. us_response_dedup s' = snd (response_is_duplicate (us_response_dedup s) q))"
    then show "q \<in> rw_refused (us_response_dedup s')"
      using rw.refused_grows [of "us_response_dedup s"] unfolding session_ok_def
      by (elim disjE exE) auto
  qed
  moreover have "session_ok s'"
    using ids_invD(1) [OF client_ids.inv_along [OF run inv limit] s'(1)] by simp
  ultimately show ?thesis
    by (simp add: rw.verdict session_ok_def)
qed

lemma deliver_once:
  assumes inv: "ids_inv base n c" and n: "n < event_limit"
    and out: "fst (deliver now c a q pl) \<noteq> []"
    and run: "client_run (snd (deliver now c a q pl)) es outs c'"
    and limit: "n + length es \<le> event_limit"
    and s: "hm_get (c_udp_sessions c) a = Some s"
    and s': "hm_get (c_udp_sessions c') a = Some s'" "us_session_id s' = us_session_id s"
  shows "fst (deliver now' c' a q pl') = []"
proof -
  let ?w = "snd (response_is_duplicate (us_response_dedup s) q)"
  have "\<not> fst (response_is_duplicate (us_response_dedup s) q)"
    using out s by (auto simp: deliver_def Let_def)
  then have s1: "hm_get (c_udp_sessions (snd (deliver now c a q pl))) a
      = Some (s\<lparr>us_response_dedup := ?w, us_last_activity := now\<rparr>)"
    using s by (simp add: deliver_sessions case_prod_beta)
  have "session_ok s"
    using ids_invD(1) [OF inv s] by simp
  then have "q \<in> rw_refused ?w"
    by (simp add: session_ok_def rw.checked_refused)
  then have "fst (response_is_duplicate (us_response_dedup s') q)"
    using s' by (intro refused_along [OF run ids_inv_deliver [OF inv] limit s1]) simp_all
  with s' show ?thesis by (simp add: deliver_def Let_def)
qed

text \<open>
  A response reaches the client over UDP, where the identifier in it leads to its source, or on a
  TCP connection, whose reader was started for a source; either way it is then delivered.
\<close>

abbreviation reader_source :: "client \<Rightarrow> conn \<Rightarrow> socket_addr option" where
  "reader_source c n \<equiv> map_option tr_source (hm_get (c_readers c) n)"

lemma udp_copy_delivered:
  "client_handle (UdpResponse now sock (encode_udp sid q pl)) c =
     (case hm_get (c_udp_session_addrs c) sid of None \<Rightarrow> ([], c) | Some a \<Rightarrow> deliver now c a q pl)"
  by (simp add: client_handle_def process_udp_response_eq udp.dec_enc)

lemma tcp_copy_delivered:
  "reader_source c n = Some a \<Longrightarrow>
     client_handle (TcpResponse now n (encode_tcp sid q pl)) c = deliver now c a q pl"
  by (auto simp: client_handle_def process_tcp_response_eq tcp.dec_enc)

text \<open>
  After the delivery of number \<open>q\<close> to a source, the identifier of its session never leads to
  another source, and the number is refused for as long as it leads to this one.
\<close>

lemma delivered_number_refused:
  assumes inv: "ids_inv base n c" and limit: "n + length es < event_limit"
    and s: "hm_get (c_udp_sessions c) a = Some s"
    and out: "fst (deliver now c a q pl) \<noteq> []"
    and run: "client_run (snd (deliver now c a q pl)) es outs c'"
    and b: "hm_get (c_udp_session_addrs c') (us_session_id s) = Some b"
  shows "b = a" and "fst (deliver now' c' a q pl') = []"
proof -
  let ?sid = "us_session_id s" and ?c1 = "snd (deliver now c a q pl)"
  have le: "n + length es \<le> event_limit" "n < event_limit" using limit by simp_all
  have inv1: "ids_inv base n ?c1" by (rule ids_inv_deliver [OF inv])
  define P :: "client \<Rightarrow> bool" where "P c \<longleftrightarrow> issued base ?sid \<le> issued base (c_session_id_counter c) \<and>
      (\<forall>b. hm_get (c_udp_session_addrs c) ?sid = Some b \<longrightarrow> b = a)" for c
  have "P c'"
  proof (rule client_ids.preserved_along [where P = "\<lambda>_. P" and base = base, OF run inv1 le(1)])
    show "P ?c1"
      using ids_invD(1) [OF inv s] by (simp add: P_def)
  next
    fix m c e assume "ids_inv base m c" "m < event_limit" "P c"
    then show "P (snd (client_handle e c))"
      using counter_step [of base m c e ?sid] by (auto simp: P_def) force+
  qed
  with b show eq: "b = a" by (simp add: P_def)
  from ids_invD(2) [OF client_ids.inv_along [OF run inv1 le(1)] b [unfolded eq]] obtain s' where
    s': "hm_get (c_udp_sessions c') a = Some s'" "us_session_id s' = ?sid" by blast
  show "fst (deliver now' c' a q pl') = []"
    by (rule deliver_once [OF inv le(2) out run le(1) s s'])
qed


lemma demo_run_two:
  "client_run (client_started 41 demo_config demo_sockets) [demo_packet, second_packet]
     (fst (client_handle demo_packet demo_client) @ fst (client_handle second_packet after_packet))
     after_two"
proof -
  have "client_run after_packet [second_packet] (fst (client_handle second_packet after_packet))
      after_two"
    unfolding after_two_def by (rule run_handle, rule demo_enabled)
  from run_append [OF this demo_run_started] show ?thesis by simp
qed



text \<open>
  The reader of a connection that expired together with its session is in the middle of a frame, a
  copy of a response that has been delivered; the source's next packet has made session 43.
\<close>

definition late_events :: "client_event list" where
  "late_events = [demo_packet, UdpResponse 2000000000 100 (encode_udp 42 0 [9]),
     CleanupTick 63000000000, Packet 63500000000 5 (\<lambda>_. True) demo_source [6]]"

definition late_outs :: "client_output list" where
  "late_outs = [UdpSend 100 (encode_udp 42 5 [1, 2, 3]), TcpWrite 0 (tcp_frame (encode_tcp 42 5 [1, 2, 3])),
     SendTo 7 [9] demo_source, UdpSend 100 (encode_udp 43 5 [6]), TcpWrite 1 (tcp_frame (encode_tcp 43 5 [6]))]"

definition late_client :: client where
  "late_client = snd (the (exec client_enabled client_handle late_events demo_client))"

lemma late_run: "client_run (client_started 41 demo_config demo_sockets) late_events late_outs late_client"
proof -
  have "map_option fst (exec client_enabled client_handle late_events demo_client) = Some late_outs"
    by code_simp
  then have "exec client_enabled client_handle late_events demo_client = Some (late_outs, late_client)"
    unfolding late_client_def by (cases "exec client_enabled client_handle late_events demo_client") auto
  then show ?thesis unfolding demo_client_def by (rule exec_run)
qed

definition late_session :: udp_session where
  "late_session = \<lparr>us_session_id = 43, us_seq = 6, us_last_activity = 63500000000,
     us_response_dedup = response_window_new 1000\<rparr>"

lemma late_facts:
  "hm_get (c_udp_sessions late_client) demo_source = Some late_session"
  "reader_source late_client 0 = Some demo_source" "c_listener late_client = Some 7"
  "\<not> fst (response_is_duplicate (us_response_dedup late_session) 0)"
  by code_simp+


section \<open>Every path carries the packet\<close>

text \<open>What the other end of a path decodes from an output: the datagram, or the one frame.\<close>

definition carried :: "client_output \<Rightarrow> packet option" where
  "carried out =
     (case out of
        UdpSend _ bs \<Rightarrow> datagram_packet bs
      | TcpWrite _ bs \<Rightarrow> frame_packet bs
      | SendTo _ _ _ \<Rightarrow> None)"

lemma carried_udp: "carried (UdpSend sock (encode_udp sid sq pl)) = Some (sid, sq, pl)"
  by (simp add: carried_def)

lemma carried_tcp:
  "length (encode_tcp sid sq pl) \<le> MAX_TCP_FRAME_SIZE \<Longrightarrow>
     carried (TcpWrite n (tcp_frame (encode_tcp sid sq pl))) = Some (sid, sq, pl)"
  by (simp add: carried_def frame_packet_frame)

lemma tcp_endpoint_outputs:
  "out \<in> set (fst (tcp_endpoint now ok a sid sq pl ep c)) \<Longrightarrow>
     carried out = Some (sid, sq, pl) \<and> (\<exists>n bs. out = TcpWrite n bs)"
  by (auto simp: tcp_endpoint_def Let_def send_tcp_frame_def carried_tcp
      split: if_splits option.splits)

lemma tcp_loop_outputs:
  "out \<in> set (fst (tcp_transport_loop now connects a sid sq pl i eps c)) \<Longrightarrow>
     carried out = Some (sid, sq, pl) \<and> (\<exists>n bs. out = TcpWrite n bs)"
proof (induction eps arbitrary: i c)
  case Nil
  then show ?case by simp
next
  case (Cons ep eps)
  then show ?case
    by (auto simp: tcp_transport_loop_Cons Let_def case_prod_beta dest: tcp_endpoint_outputs)
qed

text \<open>A connection stays with its key while the loop goes on.\<close>

definition writer_of :: "client \<Rightarrow> string \<Rightarrow> conn option" where
  "writer_of c key = map_option ts_writer (hm_get (c_tcp_sessions c) key)"

lemma tcp_endpoint_writer:
  "writer_of c key = Some n \<Longrightarrow> writer_of (snd (tcp_endpoint now ok a sid sq pl ep c)) key = Some n"
  by (cases rule: get_or_create_tcp_session_cases [of c "session_key a (ep_address ep)" now ok a])
    (auto simp: writer_of_def tcp_endpoint_def Let_def)

lemma tcp_loop_writer:
  "writer_of c key = Some n \<Longrightarrow>
     writer_of (snd (tcp_transport_loop now connects a sid sq pl i eps c)) key = Some n"
  by (rule tcp_transport_loop_preserves) (simp_all add: tcp_endpoint_writer)

lemma tcp_endpoint_written:
  "TcpWrite n bs \<in> set (fst (tcp_endpoint now ok a sid sq pl ep c)) \<Longrightarrow>
     ep_protocol ep = Tcp \<and>
     writer_of (snd (tcp_endpoint now ok a sid sq pl ep c)) (session_key a (ep_address ep)) = Some n"
  by (cases rule: get_or_create_tcp_session_cases [of c "session_key a (ep_address ep)" now ok a])
    (auto simp: writer_of_def tcp_endpoint_def Let_def send_tcp_frame_def split: if_splits)

lemma tcp_loop_written:
  assumes "TcpWrite n bs \<in> set (fst (tcp_transport_loop now connects a sid sq pl i eps c))"
  shows "\<exists>ep \<in> set eps. ep_protocol ep = Tcp \<and>
    writer_of (snd (tcp_transport_loop now connects a sid sq pl i eps c))
      (session_key a (ep_address ep)) = Some n"
  using assms
proof (induction eps arbitrary: i c)
  case Nil
  then show ?case by simp
next
  case (Cons ep eps)
  let ?c1 = "snd (tcp_endpoint now (connects i) a sid sq pl ep c)"
  from Cons.prems consider
      "TcpWrite n bs \<in> set (fst (tcp_endpoint now (connects i) a sid sq pl ep c))"
    | "TcpWrite n bs \<in> set (fst (tcp_transport_loop now connects a sid sq pl (Suc i) eps ?c1))"
    by (auto simp: tcp_transport_loop_Cons Let_def case_prod_beta)
  then show ?case
  proof cases
    case 1
    from tcp_loop_writer [OF conjunct2 [OF tcp_endpoint_written [OF this]]]
      tcp_endpoint_written [OF this] show ?thesis
      by (simp add: tcp_transport_loop_Cons Let_def case_prod_beta)
  next
    case 2
    from Cons.IH [OF this] show ?thesis
      by (simp add: tcp_transport_loop_Cons Let_def case_prod_beta)
  qed
qed

text \<open>What one endpoint of the loop does to the table, and what it sends.\<close>

lemma tcp_endpoint_opens:
  "writer_of (snd (tcp_endpoint now ok a sid sq pl ep c)) key =
     (if ep_protocol ep = Tcp \<and> ok \<and> key = session_key a (ep_address ep) \<and> writer_of c key = None
      then Some (c_next_conn c) else writer_of c key)"
  by (cases rule: get_or_create_tcp_session_cases [of c "session_key a (ep_address ep)" now ok a])
    (auto simp: writer_of_def tcp_endpoint_def Let_def)

lemma tcp_endpoint_sends:
  assumes "length (encode_tcp sid sq pl) \<le> MAX_TCP_FRAME_SIZE"
  shows "fst (tcp_endpoint now ok a sid sq pl ep c) =
    (if ep_protocol ep = Tcp then
       case writer_of (snd (tcp_endpoint now ok a sid sq pl ep c)) (session_key a (ep_address ep)) of
         None \<Rightarrow> [] | Some n \<Rightarrow> [TcpWrite n (tcp_frame (encode_tcp sid sq pl))]
     else [])"
  using assms
  by (cases rule: get_or_create_tcp_session_cases [of c "session_key a (ep_address ep)" now ok a])
    (auto simp: writer_of_def tcp_endpoint_def Let_def send_tcp_frame_def)

lemma session_key_inject [simp]: "session_key a x = session_key a y \<longleftrightarrow> x = y"
  by (simp add: session_key_def)

text \<open>
  An endpoint of the loop is reached when its session exists, or when the endpoint itself or one
  before it with the same address has been connected.
\<close>

definition reached_from :: "(string \<Rightarrow> bool) \<Rightarrow> (nat \<Rightarrow> bool) \<Rightarrow> (nat \<times> endpoint) list \<Rightarrow> nat \<times> endpoint \<Rightarrow> bool" where
  "reached_from known connects eps = (\<lambda>(j, ep). ep_protocol ep = Tcp \<and>
     (known (ep_address ep) \<or>
      (\<exists>(j', ep') \<in> set eps. j' \<le> j \<and> connects j' \<and> ep_protocol ep' = Tcp \<and> ep_address ep' = ep_address ep)))"

lemma reached_from_Cons:
  assumes "\<And>j e. (j, e) \<in> set eps \<Longrightarrow> i < j"
  shows "reached_from known connects ((i, ep) # eps) (i, ep) \<longleftrightarrow>
      ep_protocol ep = Tcp \<and> (known (ep_address ep) \<or> connects i)"
    and "x \<in> set eps \<Longrightarrow> reached_from known connects ((i, ep) # eps) x \<longleftrightarrow>
      reached_from (\<lambda>address. known address \<or> connects i \<and> ep_protocol ep = Tcp \<and> address = ep_address ep)
        connects eps x"
proof -
  have "\<not> j \<le> i" if "(j, e) \<in> set eps" for j e
    using assms [OF that] by simp
  then show "reached_from known connects ((i, ep) # eps) (i, ep) \<longleftrightarrow>
      ep_protocol ep = Tcp \<and> (known (ep_address ep) \<or> connects i)"
    by (auto simp: reached_from_def)
  assume x: "x \<in> set eps"
  obtain j e where [simp]: "x = (j, e)" by (cases x)
  from x assms [of j e] have "i \<le> j" by simp
  then show "reached_from known connects ((i, ep) # eps) x \<longleftrightarrow>
      reached_from (\<lambda>address. known address \<or> connects i \<and> ep_protocol ep = Tcp \<and> address = ep_address ep)
        connects eps x"
    by (auto simp: reached_from_def)
qed

lemma tcp_loop_sends:
  fixes eps :: "endpoint list"
  assumes fits: "length (encode_tcp sid sq pl) \<le> MAX_TCP_FRAME_SIZE"
  shows "fst (tcp_transport_loop now connects a sid sq pl i eps c) =
    map (\<lambda>(j, ep). TcpWrite
          (the (writer_of (snd (tcp_transport_loop now connects a sid sq pl i eps c))
                 (session_key a (ep_address ep))))
          (tcp_frame (encode_tcp sid sq pl)))
      (filter (reached_from (\<lambda>address. writer_of c (session_key a address) \<noteq> None) connects (enumerate i eps))
        (enumerate i eps))"
proof (induction eps arbitrary: i c)
  case Nil
  then show ?case by simp
next
  case (Cons ep eps)
  let ?key = "session_key a" and ?frame = "tcp_frame (encode_tcp sid sq pl)"
  let ?c1 = "snd (tcp_endpoint now (connects i) a sid sq pl ep c)"
  let ?c2 = "snd (tcp_transport_loop now connects a sid sq pl (Suc i) eps ?c1)"
  let ?frame_to = "\<lambda>(j :: nat, ep). TcpWrite (the (writer_of ?c2 (?key (ep_address ep)))) ?frame"
  have later: "i < j" if "(j, e) \<in> set (enumerate (Suc i) eps)" for j e
    using that by (auto simp: in_set_enumerate_eq)
  have opened: "(writer_of ?c1 (?key address) \<noteq> None) \<longleftrightarrow> writer_of c (?key address) \<noteq> None \<or>
      connects i \<and> ep_protocol ep = Tcp \<and> address = ep_address ep" for address
    by (auto simp: tcp_endpoint_opens)
  have tail: "fst (tcp_transport_loop now connects a sid sq pl (Suc i) eps ?c1) =
      map ?frame_to (filter (reached_from (\<lambda>address. writer_of c (?key address) \<noteq> None) connects
        (enumerate i (ep # eps))) (enumerate (Suc i) eps))"
    unfolding Cons.IH [of "Suc i" ?c1] opened enumerate_simps
    using reached_from_Cons(2) [OF later] by (simp cong: filter_cong)
  have head: "fst (tcp_endpoint now (connects i) a sid sq pl ep c) =
      (if ep_protocol ep = Tcp \<and> (writer_of c (?key (ep_address ep)) \<noteq> None \<or> connects i)
       then [?frame_to (i, ep)] else [])"
  proof (cases "writer_of ?c1 (?key (ep_address ep))")
    case None
    with opened [of "ep_address ep"] show ?thesis by (auto simp: tcp_endpoint_sends [OF fits])
  next
    case (Some n)
    from tcp_loop_writer [OF this] Some opened [of "ep_address ep"] show ?thesis
      by (auto simp: tcp_endpoint_sends [OF fits])
  qed
  have "fst (tcp_transport_loop now connects a sid sq pl i (ep # eps) c) =
      fst (tcp_endpoint now (connects i) a sid sq pl ep c) @
      fst (tcp_transport_loop now connects a sid sq pl (Suc i) eps ?c1)"
    "snd (tcp_transport_loop now connects a sid sq pl i (ep # eps) c) = ?c2"
    by (simp_all add: tcp_transport_loop_Cons Let_def case_prod_beta)
  moreover have "reached_from (\<lambda>address. writer_of c (?key address) \<noteq> None) connects
      (enumerate i (ep # eps)) (i, ep) \<longleftrightarrow>
      ep_protocol ep = Tcp \<and> (writer_of c (?key (ep_address ep)) \<noteq> None \<or> connects i)"
    unfolding enumerate_simps by (rule reached_from_Cons(1) [OF later])
  ultimately show ?case
    by (simp only: head tail enumerate_simps filter.simps) (simp only: if_distrib list.map split: if_split, simp)
qed

lemma tcp_loop_reached:
  assumes "reached_from (\<lambda>address. writer_of c (session_key a address) \<noteq> None) connects (enumerate i eps) (j, ep)"
  shows "writer_of (snd (tcp_transport_loop now connects a sid sq pl i eps c)) (session_key a (ep_address ep)) \<noteq> None"
  using assms
proof (induction eps arbitrary: i c)
  case Nil
  then show ?case by (simp add: reached_from_def)
next
  case (Cons ep' eps)
  let ?c1 = "snd (tcp_endpoint now (connects i) a sid sq pl ep' c)"
  have opened: "writer_of c (session_key a address) \<noteq> None \<or> connects i \<and> ep_protocol ep' = Tcp \<and> address = ep_address ep'
      \<Longrightarrow> writer_of ?c1 (session_key a address) \<noteq> None" for address
    by (auto simp: tcp_endpoint_opens)
  from Cons.prems have "reached_from (\<lambda>address. writer_of ?c1 (session_key a address) \<noteq> None) connects
      (enumerate (Suc i) eps) (j, ep)"
    using opened [of "ep_address ep"] unfolding reached_from_def enumerate_simps prod.case by auto
  from Cons.IH [OF this] show ?case by (simp add: tcp_transport_loop_Cons case_prod_beta)
qed

lemma tcp_loop_too_large:
  assumes "\<not> length (encode_tcp sid sq pl) \<le> MAX_TCP_FRAME_SIZE"
  shows "fst (tcp_transport_loop now connects a sid sq pl i eps c) = []"
proof (induction eps arbitrary: i c)
  case Nil
  then show ?case by simp
next
  case (Cons ep eps)
  have "fst (tcp_endpoint now (connects i) a sid sq pl ep c) = []"
    using assms by (auto simp: tcp_endpoint_def Let_def send_tcp_frame_def split: option.split)
  with Cons show ?case by (simp add: tcp_transport_loop_Cons Let_def case_prod_beta)
qed

lemma enumerate_indices: "enumerate 0 xs = map (\<lambda>i. (i, xs ! i)) [0..<length xs]"
  by (rule nth_equalityI) (simp_all add: nth_enumerate_eq)

lemma handle_packet_parts:
  fixes now r connects c a pl
  defines "s0 \<equiv> fst (get_or_create_udp_session now r c a)"
  shows "\<exists>c2 s. c_udp_senders c2 = c_udp_senders c \<and> c_cfg c2 = c_cfg c \<and>
    c_cancelled c2 = c_cancelled c \<and> c_tcp_sessions c2 = c_tcp_sessions c \<and>
    s = s0\<lparr>us_seq := us_seq s0 + 1, us_last_activity := now\<rparr> \<and>
    hm_get (c_udp_sessions (snd (handle_packet now r connects c a pl))) a = Some s \<and>
    handle_packet now r connects c a pl =
      (map (\<lambda>sock. UdpSend sock (encode_udp (us_session_id s) (us_seq s - 1) pl)) (c_udp_senders c) @
         fst (tcp_transport_loop now connects a (us_session_id s) (us_seq s - 1) pl 0
                (cc_servers (c_cfg c)) c2),
       snd (tcp_transport_loop now connects a (us_session_id s) (us_seq s - 1) pl 0
              (cc_servers (c_cfg c)) c2))"
proof -
  obtain s c1 where g: "get_or_create_udp_session now r c a = (s, c1)"
    by (cases "get_or_create_udp_session now r c a")
  let ?s = "s\<lparr>us_seq := us_seq s + 1, us_last_activity := now\<rparr>"
  let ?c2 = "c1\<lparr>c_udp_sessions := hm_insert a ?s (c_udp_sessions c1)\<rparr>"
  note frame = get_or_create_udp_session_frame [of now r c a, unfolded g snd_conv]
  have "hm_get (c_udp_sessions (snd (handle_packet now r connects c a pl))) a = Some ?s"
    by (simp add: handle_packet_sessions g)
  then show ?thesis
    by (intro exI [of _ ?c2] exI [of _ ?s])
      (simp add: frame s0_def g handle_packet_def handle_udp_transport_def handle_tcp_transport_def
        case_prod_beta Let_def)
qed

text \<open>
  The loop has a TCP session for endpoint \<open>i\<close>: there was one, or the endpoint could be connected to,
  or one before it with the same address.
\<close>

definition tcp_reached :: "client \<Rightarrow> (nat \<Rightarrow> bool) \<Rightarrow> socket_addr \<Rightarrow> nat \<Rightarrow> bool" where
  "tcp_reached c connects a i =
     (let eps = cc_servers (c_cfg c) in
      ep_protocol (eps ! i) = Tcp \<and>
      (hm_get (c_tcp_sessions c) (session_key a (ep_address (eps ! i))) \<noteq> None \<or>
       list_ex (\<lambda>j. connects j \<and> ep_protocol (eps ! j) = Tcp \<and> ep_address (eps ! j) = ep_address (eps ! i))
         [0..<Suc i]))"

lemma reached_from_start:
  assumes "i < length (cc_servers (c_cfg c))"
  shows "reached_from (\<lambda>address. writer_of c (session_key a address) \<noteq> None) connects
      (enumerate 0 (cc_servers (c_cfg c))) (i, cc_servers (c_cfg c) ! i) \<longleftrightarrow> tcp_reached c connects a i"
proof -
  let ?eps = "cc_servers (c_cfg c)"
  have "(\<exists>(j, ep) \<in> set (enumerate 0 ?eps). j \<le> i \<and> P j ep) \<longleftrightarrow> (\<exists>j \<in> {0..<Suc i}. P j (?eps ! j))" for P
    using assms le_less_trans [OF _ assms] by (force simp: enumerate_indices less_Suc_eq_le)
  then show ?thesis
    unfolding reached_from_def tcp_reached_def Let_def list_ex_iff prod.case set_upt by (simp add: writer_of_def)
qed

text \<open>
  Claim C21: a packet of a source goes out with one session identifier and one sequence number on
  every path. It is the identifier of the source's session and the number it had; the session then has the
  next number. One datagram goes to every UDP sender, and one frame on the TCP session of every TCP
  endpoint for which there is one, because it existed or could be made: an endpoint that
  cannot be connected to is passed over, and those after it still get the packet. All this in the order
  of the configuration, and nothing else is sent; a payload that does not fit in a frame goes out
  over UDP only. Every output decodes to the same identifier, number and payload.
\<close>

theorem packet_on_every_path:
  assumes "handle_packet now r connects c a pl = (outs, c')"
  shows "\<exists>s. hm_get (c_udp_sessions c') a = Some s \<and>
    (\<forall>s0. hm_get (c_udp_sessions c) a = Some s0 \<longrightarrow>
       us_session_id s = us_session_id s0 \<and> us_seq s = us_seq s0 + 1) \<and>
    list_all (\<lambda>out. carried out = Some (us_session_id s, us_seq s - 1, pl)) outs \<and>
    outs = map (\<lambda>sock. UdpSend sock (encode_udp (us_session_id s) (us_seq s - 1) pl)) (c_udp_senders c) @
      (if length pl \<le> 65523 then
         map (\<lambda>i. TcpWrite
              (ts_writer (the (hm_get (c_tcp_sessions c')
                 (session_key a (ep_address (cc_servers (c_cfg c) ! i))))))
              (tcp_frame (encode_tcp (us_session_id s) (us_seq s - 1) pl)))
           (filter (tcp_reached c connects a) [0..<length (cc_servers (c_cfg c))])
       else [])"
proof -
  from handle_packet_parts [where now = now and r = r and c = c and a = a and pl = pl
      and connects = connects] obtain c2 :: client and s :: udp_session where
    s: "hm_get (c_udp_sessions c') a = Some s"
      "s = (fst (get_or_create_udp_session now r c a))
         \<lparr>us_seq := us_seq (fst (get_or_create_udp_session now r c a)) + 1, us_last_activity := now\<rparr>"
    and c2: "c_tcp_sessions c2 = c_tcp_sessions c" "c_cfg c2 = c_cfg c"
    and parts: "handle_packet now r connects c a pl =
      (map (\<lambda>sock. UdpSend sock (encode_udp (us_session_id s) (us_seq s - 1) pl)) (c_udp_senders c) @
         fst (tcp_transport_loop now connects a (us_session_id s) (us_seq s - 1) pl 0
                (cc_servers (c_cfg c)) c2),
       snd (tcp_transport_loop now connects a (us_session_id s) (us_seq s - 1) pl 0
              (cc_servers (c_cfg c)) c2))"
    using assms by (metis snd_conv)
  let ?eps = "cc_servers (c_cfg c)"
  let ?tcp = "tcp_transport_loop now connects a (us_session_id s) (us_seq s - 1) pl 0 ?eps c2"
  have c': "c' = snd ?tcp"
    and outs: "outs = map (\<lambda>sock. UdpSend sock (encode_udp (us_session_id s) (us_seq s - 1) pl))
         (c_udp_senders c) @ fst ?tcp"
    using assms parts by simp_all
  have carried: "list_all (\<lambda>out. carried out = Some (us_session_id s, us_seq s - 1, pl)) outs"
    unfolding outs by (auto simp: list_all_iff carried_udp dest: tcp_loop_outputs)
  have fits: "length (encode_tcp (us_session_id s) (us_seq s - 1) pl) \<le> MAX_TCP_FRAME_SIZE \<longleftrightarrow> length pl \<le> 65523"
    by (simp add: tcp.enc_length HEADER_SIZE_def MAX_TCP_FRAME_SIZE_def)
  have tcp_outs: "fst ?tcp = (if length pl \<le> 65523 then
      map (\<lambda>i. TcpWrite (the (writer_of c' (session_key a (ep_address (?eps ! i)))))
           (tcp_frame (encode_tcp (us_session_id s) (us_seq s - 1) pl)))
        (filter (tcp_reached c connects a) [0..<length ?eps]) else [])"
  proof (cases "length pl \<le> 65523")
    case False
    then show ?thesis by (simp add: tcp_loop_too_large fits)
  next
    case True
    have "writer_of c2 = writer_of c" by (simp add: fun_eq_iff writer_of_def c2(1))
    then have reached: "filter ((reached_from (\<lambda>address. writer_of c2 (session_key a address) \<noteq> None) connects
          (enumerate 0 ?eps)) \<circ> (\<lambda>i. (i, ?eps ! i))) [0..<length ?eps]
        = filter (tcp_reached c connects a) [0..<length ?eps]"
      unfolding o_def by (intro filter_cong refl) (simp only: set_upt atLeastLessThan_iff reached_from_start)
    show ?thesis
      using True fits tcp_loop_sends [of "us_session_id s" "us_seq s - 1" pl now connects a 0 ?eps c2]
      unfolding enumerate_indices [of ?eps] filter_map reached [unfolded enumerate_indices [of ?eps]]
      by (simp add: c' o_def)
  qed
  have writer: "the (writer_of c' (session_key a (ep_address (?eps ! i)))) =
      ts_writer (the (hm_get (c_tcp_sessions c') (session_key a (ep_address (?eps ! i)))))"
    if "tcp_reached c connects a i" "i < length ?eps" for i
  proof -
    have "writer_of c2 = writer_of c" by (simp add: fun_eq_iff writer_of_def c2(1))
    with that have "reached_from (\<lambda>address. writer_of c2 (session_key a address) \<noteq> None) connects
        (enumerate 0 ?eps) (i, ?eps ! i)"
      by (simp only: reached_from_start)
    from tcp_loop_reached [OF this, where now = now and sid = "us_session_id s" and sq = "us_seq s - 1" and pl = pl]
    show ?thesis by (auto simp: c' writer_of_def)
  qed
  have "map (\<lambda>i. TcpWrite (the (writer_of c' (session_key a (ep_address (?eps ! i))))) frame)
        (filter (tcp_reached c connects a) [0..<length ?eps]) =
      map (\<lambda>i. TcpWrite (ts_writer (the (hm_get (c_tcp_sessions c') (session_key a (ep_address (?eps ! i)))))) frame)
        (filter (tcp_reached c connects a) [0..<length ?eps])" for frame
    by (intro map_cong refl) (simp add: writer)
  with outs tcp_outs have sent: "outs = map (\<lambda>sock. UdpSend sock (encode_udp (us_session_id s) (us_seq s - 1) pl))
         (c_udp_senders c) @
      (if length pl \<le> 65523 then
         map (\<lambda>i. TcpWrite
              (ts_writer (the (hm_get (c_tcp_sessions c') (session_key a (ep_address (?eps ! i))))))
              (tcp_frame (encode_tcp (us_session_id s) (us_seq s - 1) pl)))
           (filter (tcp_reached c connects a) [0..<length ?eps])
       else [])"
    by simp
  have "us_session_id s = us_session_id s0 \<and> us_seq s = us_seq s0 + 1"
    if "hm_get (c_udp_sessions c) a = Some s0" for s0
    using s(2) that by (simp add: get_or_create_udp_session_known)
  with s(1) carried sent show ?thesis by blast
qed

text \<open>
  Claim C24: a TCP connection serves one source. In a running client, if handling a packet from a
  source writes to a connection, then responses that arrive on that connection are handed to that
  source: two sources never share a session key, so neither the request nor the response of one
  can travel on the other's connection. An IPv6 source is meant up to its flow information, which
  the key leaves out.
\<close>

theorem tcp_connection_own_source:
  assumes "client_run (client_started r cfg os) es outs c" and "length es < event_limit"
    and "\<not> c_cancelled c"
    and "handle_packet now rand connects c a pl = (outs', c')"
    and "TcpWrite n bs \<in> set outs'"
  shows "\<exists>rd. hm_get (c_readers c') n = Some rd \<and> without_flow (tr_source rd) = without_flow a \<and>
    client_handle (TcpResponse now' n data) c' = process_tcp_response now' c' (tr_source rd) data"
proof -
  have inv': "tcp_inv c'"
    using tcp_inv_handle_packet [OF reachable_tcp_inv [OF assms(1)], of now rand connects a pl]
      assms(2,4) by simp
  from handle_packet_parts [where now = now and r = rand and c = c and a = a and pl = pl
      and connects = connects] obtain c2 :: client and s :: udp_session where
    parts: "handle_packet now rand connects c a pl =
      (map (\<lambda>sock. UdpSend sock (encode_udp (us_session_id s) (us_seq s - 1) pl)) (c_udp_senders c) @
         fst (tcp_transport_loop now connects a (us_session_id s) (us_seq s - 1) pl 0
                (cc_servers (c_cfg c)) c2),
       snd (tcp_transport_loop now connects a (us_session_id s) (us_seq s - 1) pl 0
              (cc_servers (c_cfg c)) c2))"
    and running: "c_cancelled c2 = c_cancelled c"
    by blast
  from parts assms(4) have
    outs': "outs' = map (\<lambda>sock. UdpSend sock (encode_udp (us_session_id s) (us_seq s - 1) pl))
        (c_udp_senders c) @
         fst (tcp_transport_loop now connects a (us_session_id s) (us_seq s - 1) pl 0
                (cc_servers (c_cfg c)) c2)"
    and c': "c' = snd (tcp_transport_loop now connects a (us_session_id s) (us_seq s - 1) pl 0
                (cc_servers (c_cfg c)) c2)"
    by simp_all
  from assms(5) have "TcpWrite n bs \<in> set (fst (tcp_transport_loop now connects a
      (us_session_id s) (us_seq s - 1) pl 0 (cc_servers (c_cfg c)) c2))"
    by (auto simp: outs')
  from tcp_loop_written [OF this] obtain ep :: endpoint and t :: tcp_session where
    t: "hm_get (c_tcp_sessions c') (session_key a (ep_address ep)) = Some t" "ts_writer t = n"
    by (auto simp: c' writer_of_def)
  have "\<not> c_cancelled c'"
    using assms(3) running tcp_transport_loop_frame unfolding c' by metis
  with tcp_invD(3) [OF inv' t(1)] t(2) obtain rd where
    rd: "hm_get (c_readers c') n = Some rd" "tr_key rd = session_key a (ep_address ep)"
    by auto
  then obtain ep' :: endpoint where "session_key (tr_source rd) (ep_address ep') = session_key a (ep_address ep)"
    using tcp_invD(1) [OF inv' rd(1)] by (auto simp: reader_ok_def)
  then have "show_socket_addr a = show_socket_addr (tr_source rd)"
    using split_pair_inject [of "CHR ''-''"] show_socket_addr_no_dash
    by (simp add: session_key_def) metis
  then have "without_flow (tr_source rd) = without_flow a"
    by (simp add: show_socket_addr_inject)
  with rd show ?thesis by (simp add: client_handle_def)
qed

definition demo_outs :: "client_output list" where
  "demo_outs = [UdpSend 100 (encode_udp 42 5 [1, 2, 3]),
                TcpWrite 0 (tcp_frame (encode_tcp 42 5 [1, 2, 3]))]"

lemma demo_handled:
  "handle_packet 1000000000 5 (\<lambda>_. True) demo_client demo_source [1, 2, 3] = (demo_outs, after_packet)"
proof -
  have "fst (handle_packet 1000000000 5 (\<lambda>_. True) demo_client demo_source [1, 2, 3]) = demo_outs"
    by code_simp
  then show ?thesis
    by (simp add: after_packet_def client_handle_def demo_packet_def prod_eq_iff)
qed

theorem packet_on_every_path_witness:
  "\<exists>s. hm_get (c_udp_sessions after_packet) demo_source = Some s \<and>
    list_all (\<lambda>out. carried out = Some (us_session_id s, us_seq s - 1, [1, 2, 3])) demo_outs \<and>
    demo_outs = map (\<lambda>sock. UdpSend sock (encode_udp (us_session_id s) (us_seq s - 1) [1, 2, 3]))
        (c_udp_senders demo_client) @
      map (\<lambda>i. TcpWrite
          (ts_writer (the (hm_get (c_tcp_sessions after_packet)
             (session_key demo_source (ep_address (cc_servers (c_cfg demo_client) ! i))))))
          (tcp_frame (encode_tcp (us_session_id s) (us_seq s - 1) [1, 2, 3])))
        (filter (tcp_reached demo_client (\<lambda>_. True) demo_source) [0..<length (cc_servers (c_cfg demo_client))])"
  using packet_on_every_path [OF demo_handled] by (elim exE) auto

theorem tcp_connection_own_source_witness:
  "\<exists>rd. hm_get (c_readers after_packet) 0 = Some rd \<and> tr_source rd = demo_source \<and>
    client_handle (TcpResponse 5 0 [1]) after_packet
      = process_tcp_response 5 after_packet demo_source [1]"
proof -
  have facts: "client_run (client_started 41 demo_config demo_sockets) [] [] demo_client"
    "length ([] :: client_event list) < event_limit" "\<not> c_cancelled demo_client"
    "TcpWrite 0 (tcp_frame (encode_tcp 42 5 [1, 2, 3])) \<in> set demo_outs"
    by (simp_all add: demo_client_def event_limit_def demo_outs_def)
  from tcp_connection_own_source [OF facts(1,2,3) demo_handled facts(4), of 5 "[1]"] obtain rd where
    rd: "hm_get (c_readers after_packet) 0 = Some rd"
      "without_flow (tr_source rd) = without_flow demo_source"
      "client_handle (TcpResponse 5 0 [1]) after_packet
         = process_tcp_response 5 after_packet (tr_source rd) [1]" by blast
  have "without_flow demo_source = SocketV4 10 0 0 7 4000"
    by (simp add: demo_source_def without_flow_def)
  with rd(2) have "without_flow (tr_source rd) = SocketV4 10 0 0 7 4000" by (rule trans)
  then have "tr_source rd = demo_source" unfolding without_flow_v4 demo_source_def .
  with rd(1,3) show ?thesis by metis
qed

section \<open>Expiry\<close>

lemma client_handle_cfg: "c_cfg (snd (client_handle e c)) = c_cfg c"
proof (cases e)
  case (Packet now r connects b pl)
  then show ?thesis
    by (simp add: client_handle_def handle_packet_def Let_def case_prod_beta
        handle_tcp_transport_frame get_or_create_udp_session_frame)
next
  case (UdpResponse now sock data)
  then show ?thesis
    by (simp add: client_handle_def process_udp_response_eq split: sum.split option.split)
next
  case (TcpResponse now n data)
  then show ?thesis
    by (simp add: client_handle_def process_tcp_response_eq split: sum.split option.split)
qed (simp_all add: client_handle_def end_reader_def client_stop_def cleanup_tcp_session_frame
       sweep_frame split: option.split)

lemma reachable_cfg:
  assumes "client_run (client_started r cfg os) es outs c" and "length es \<le> event_limit"
  shows "c_cfg c = cfg"
proof (rule client_ids.preserved_along [where P = "\<lambda>_ c. c_cfg c = cfg",
      OF assms(1) ids_inv_started])
  show "0 + length es \<le> event_limit" using assms(2) by simp
qed (simp_all add: client_handle_cfg)

text \<open>
  A tick of the cleanup timer removes a session exactly when its last activity lies more
  than the timeout back, from both maps at once; an active session keeps both entries, and a
  second tick at the same time removes nothing more.
\<close>

lemma client_expiry:
  assumes "client_run (client_started r cfg os) es outs c" and "length es \<le> event_limit"
    and "hm_get (c_udp_sessions c) a = Some s"
    and "c' = cleanup_expired_sessions now c"
  shows "(if us_last_activity s + cc_session_timeout cfg < now
          then hm_get (c_udp_sessions c') a = None \<and>
               hm_get (c_udp_session_addrs c') (us_session_id s) = None
          else hm_get (c_udp_sessions c') a = Some s \<and>
               hm_get (c_udp_session_addrs c') (us_session_id s) = Some a) \<and>
         hm_get (c_udp_sessions (cleanup_expired_sessions now c')) = hm_get (c_udp_sessions c')"
proof -
  have inv: "ids_inv r (length es) c"
    by (rule reachable_ids_inv [OF assms(1,2)])
  have cfg: "c_cfg c = cfg" by (rule reachable_cfg [OF assms(1,2)])
  have idle: "hm_get (c_udp_sessions c') a = None"
    if "us_last_activity s + cc_session_timeout cfg < now"
    unfolding assms(4) by (rule udp_table.idle_removed [OF assms(3)]) (simp add: cfg that)
  have lost: "hm_get (c_udp_session_addrs c') (us_session_id s) = None"
    if "us_last_activity s + cc_session_timeout cfg < now"
  proof -
    have "expired now (cc_session_timeout (c_cfg c)) (us_last_activity s)"
      using that by (simp add: cfg expired_def duration_since_def)
    with assms(3) show ?thesis
      unfolding assms(4) sweep_addrs by auto
  qed
  have kept: "hm_get (c_udp_sessions c') a = Some s"
    if "\<not> us_last_activity s + cc_session_timeout cfg < now"
    unfolding assms(4) by (rule udp_table.active_survives [OF assms(3)]) (use that cfg in simp)
  have "hm_get (c_udp_session_addrs c') (us_session_id s) = Some a"
    if "hm_get (c_udp_sessions c') a = Some s"
    using ids_invD(1) [OF ids_inv_sweep [OF inv, of now], of a s] that by (simp add: assms(4))
  with idle lost kept udp_table.sweep_idem [of now c] show ?thesis
    by (auto simp: assms(4))
qed

lemma client_expiry_example:
  "hm_get (c_udp_sessions (cleanup_expired_sessions 61000000001 after_packet)) demo_source = None \<and>
   hm_get (c_udp_session_addrs (cleanup_expired_sessions 61000000001 after_packet)) 42 = None \<and>
   hm_get (c_udp_sessions (cleanup_expired_sessions 61000000000 after_packet)) demo_source
     = Some demo_session1"
  using client_expiry [OF demo_run_started short_run demo_sessions(1) refl, of 61000000001]
    client_expiry [OF demo_run_started short_run demo_sessions(1) refl, of 61000000000]
  by (simp add: demo_session1_def demo_config_def)

text \<open>
  Claim C38: a response over TCP does not keep its TCP session alive. Only the source's shared
  session is refreshed (\<open>process_tcp_response\<close>), so if no packet has gone out on the TCP session for
  longer than the timeout, the next tick drops it and cancels its connection, even when the tick
  comes right after a response on that very connection.
\<close>

theorem receiving_tcp_session_expires:
  assumes "hm_get (c_tcp_sessions c) key = Some t"
    and "ts_last_activity t + cc_session_timeout (c_cfg c) < now"
  shows "(let c' = cleanup_expired_sessions now (snd (process_tcp_response now c a data))
          in hm_get (c_tcp_sessions c') key = None \<and> ts_writer t \<in> c_cancelled_conns c')"
proof -
  let ?c = "snd (process_tcp_response now c a data)"
  have c: "hm_get (c_tcp_sessions ?c) key = Some t" "c_cfg ?c = c_cfg c"
    using assms(1) by (auto simp: process_tcp_response_eq split: sum.split)
  have "hm_get (c_tcp_sessions (cleanup_expired_sessions now ?c)) key = None"
    using assms(2) c by (intro tcp_table.idle_removed) simp_all
  moreover have "expired now (cc_session_timeout (c_cfg ?c)) (ts_last_activity t)"
    using assms(2) c(2) by (simp add: expired_def duration_since_def)
  with c(1) have "ts_writer t \<in> c_cancelled_conns (cleanup_expired_sessions now ?c)"
    by (auto simp: sweep_cancelled_conns)
  ultimately show ?thesis by (simp add: Let_def)
qed

definition demo_key :: string where
  "demo_key = ''10.0.0.7:4000->10.0.0.1:8002''"

lemma demo_tcp_session:
  "hm_get (c_tcp_sessions after_packet) demo_key
     = Some \<lparr>ts_writer = 0, ts_last_activity = 1000000000\<rparr>"
  by code_simp

theorem receiving_tcp_session_expires_witness:
  "(let c' = cleanup_expired_sessions 61000000001
         (snd (process_tcp_response 61000000001 after_packet demo_source (encode_tcp 42 0 [8])))
    in hm_get (c_tcp_sessions c') demo_key = None \<and> 0 \<in> c_cancelled_conns c')"
  using receiving_tcp_session_expires [OF demo_tcp_session, of 61000000001]
    reachable_cfg [OF demo_run_started short_run]
  by (simp add: demo_config_def)

section \<open>Starting and stopping\<close>

lemma open_senders_tasks:
  assumes "open_senders os i eps c = (res, c')"
  shows "\<exists>socks. c_udp_senders c' = c_udp_senders c @ socks \<and>
    c_tasks c' = c_tasks c @ map UdpServerResponse socks \<and>
    length socks \<le> length (filter (\<lambda>ep. ep_protocol ep = Udp) eps) \<and>
    (res = Inr () \<longrightarrow> length socks = length (filter (\<lambda>ep. ep_protocol ep = Udp) eps))"
  using assms
proof (induction eps arbitrary: i c)
  case Nil
  then show ?case by simp
next
  case (Cons ep eps)
  show ?case
  proof (cases "ep_protocol ep = Udp")
    case False
    with Cons show ?thesis by simp
  next
    case udp: True
    show ?thesis
    proof (cases "bind_sender os i")
      case (Inl e)
      with udp Cons.prems show ?thesis by auto
    next
      case (Inr sock)
      show ?thesis
      proof (cases "connect_sender os i")
        case (Inl e)
        with udp Inr Cons.prems show ?thesis by auto
      next
        case conn: (Inr u)
        from Cons.prems udp Inr conn Cons.IH show ?thesis
          by fastforce
      qed
    qed
  qed
qed


lemma client_start_result:
  "client_start os c = (r, c') \<Longrightarrow> \<exists>res c1. open_senders os 0 (cc_servers (c_cfg c)) c = (res, c1) \<and>
     (case res of Inl e \<Rightarrow> r = Inl e \<and> c' = c1
      | Inr _ \<Rightarrow>
          (case bind_listener os of Inl e \<Rightarrow> r = Inl e \<and> c' = c1
           | Inr sock \<Rightarrow>
               (case local_addr os of Inl e \<Rightarrow> r = Inl e \<and> c' = c1
                | Inr addr \<Rightarrow> r = Inr addr \<and>
                    c' = c1\<lparr>c_listener := Some sock, c_listen_addr := Some addr,
                            c_tasks := c_tasks c1 @ [Listener sock, SessionCleanup]\<rparr>)))"
  by (auto simp: client_start_def split: prod.splits sum.splits)

text \<open>
  When \<open>start\<close> succeeds, the client has one sender and one response receiver per UDP
  endpoint, in the order of the configuration, then one listener and one cleanup loop, and
  nothing more. When it fails there is no listener and no cleanup loop, so no packet is ever
  taken, but the senders made before the failure and their receivers remain.
\<close>

theorem client_start_tasks:
  assumes "client_start os (client_new random cfg) = (res, c)"
  shows "\<exists>socks. c_udp_senders c = socks \<and>
    length socks \<le> length (filter (\<lambda>ep. ep_protocol ep = Udp) (cc_servers cfg)) \<and>
    (case res of
       Inr addr \<Rightarrow> length socks = length (filter (\<lambda>ep. ep_protocol ep = Udp) (cc_servers cfg)) \<and>
         (\<exists>l. bind_listener os = Inr l \<and> c_listener c = Some l \<and> c_listen_addr c = Some addr \<and>
           c_tasks c = map UdpServerResponse socks @ [Listener l, SessionCleanup])
     | Inl e \<Rightarrow> c_listener c = None \<and> c_tasks c = map UdpServerResponse socks)"
proof -
  from client_start_result [OF assms] obtain r1 c1 where
    o: "open_senders os 0 (cc_servers cfg) (client_new random cfg) = (r1, c1)"
    and rest: "case r1 of Inl e \<Rightarrow> res = Inl e \<and> c = c1
      | Inr _ \<Rightarrow>
          (case bind_listener os of Inl e \<Rightarrow> res = Inl e \<and> c = c1
           | Inr sock \<Rightarrow>
               (case local_addr os of Inl e \<Rightarrow> res = Inl e \<and> c = c1
                | Inr addr \<Rightarrow> res = Inr addr \<and>
                    c = c1\<lparr>c_listener := Some sock, c_listen_addr := Some addr,
                           c_tasks := c_tasks c1 @ [Listener sock, SessionCleanup]\<rparr>))"
    by (auto simp: client_new_def)
  from open_senders_tasks [OF o] obtain socks where
    "c_udp_senders c1 = socks" "c_tasks c1 = map UdpServerResponse socks"
    "length socks \<le> length (filter (\<lambda>ep. ep_protocol ep = Udp) (cc_servers cfg))"
    "r1 = Inr () \<longrightarrow> length socks = length (filter (\<lambda>ep. ep_protocol ep = Udp) (cc_servers cfg))"
    by (auto simp: client_new_def)
  moreover have "c_listener c1 = None"
    using open_senders_frame [of os 0 "cc_servers cfg" "client_new random cfg"] o
    by (simp add: client_new_def)
  ultimately show ?thesis
    using rest by (auto split: sum.splits)
qed

theorem client_start_tasks_witness:
  "c_tasks (snd (client_start demo_sockets (client_new 41 demo_config)))
     = [UdpServerResponse 100, Listener 7, SessionCleanup] \<and>
   length (c_udp_senders (snd (client_start demo_sockets (client_new 41 demo_config)))) \<le> 1"
proof -
  have tasks: "c_tasks (snd (client_start demo_sockets (client_new 41 demo_config)))
      = [UdpServerResponse 100, Listener 7, SessionCleanup]"
    by code_simp
  have "length (filter (\<lambda>ep. ep_protocol ep = Udp) (cc_servers demo_config)) = 1"
    by code_simp
  with tasks client_start_tasks [of demo_sockets 41 demo_config, OF prod.collapse [symmetric]]
  show ?thesis by auto
qed

lemma drain_tasks:
  "c_cancelled c \<Longrightarrow> client_run c (map TaskReturns (c_tasks c)) [] (c\<lparr>c_tasks := []\<rparr>)"
proof (induction "c_tasks c" arbitrary: c)
  case Nil
  then show ?case by (cases c) simp
next
  case (Cons t ts)
  let ?c = "c\<lparr>c_tasks := ts\<rparr>"
  have step: "client_handle (TaskReturns t) c = ([], ?c)"
    using Cons.hyps(2) by (simp add: client_handle_def flip: Cons.hyps(2))
  have "client_run ?c (map TaskReturns (c_tasks ?c)) [] (?c\<lparr>c_tasks := []\<rparr>)"
    using Cons.prems by (intro Cons.hyps(1)) simp_all
  then have "client_run c (TaskReturns t # map TaskReturns ts)
      (fst (client_handle (TaskReturns t) c) @ []) (c\<lparr>c_tasks := []\<rparr>)"
    using Cons.prems Cons.hyps(2)
    by (intro run_step) (simp_all add: client_enabled_def step flip: Cons.hyps(2))
  then show ?case by (simp add: step flip: Cons.hyps(2))
qed

lemma drain_readers:
  assumes "c_cancelled c" and "set ns \<subseteq> dom (hm_get (c_readers c))" and "distinct ns"
  shows "client_run c (map TcpReaderCancelled ns) []
    (c\<lparr>c_readers := hm_remove_all ns (c_readers c)\<rparr>)"
  using assms
proof (induction ns arbitrary: c)
  case Nil
  then show ?case by (cases c) simp
next
  case (Cons n ns)
  have step: "client_handle (TcpReaderCancelled n) c = ([], end_reader n c)"
    by (simp add: client_handle_def)
  have "client_run (end_reader n c) (map TcpReaderCancelled ns) []
      ((end_reader n c)\<lparr>c_readers := hm_remove_all ns (c_readers (end_reader n c))\<rparr>)"
    using Cons.prems by (intro Cons.IH) (auto simp: end_reader_def)
  then have "client_run c (TcpReaderCancelled n # map TcpReaderCancelled ns)
      (fst (client_handle (TcpReaderCancelled n) c) @ [])
      (c\<lparr>c_readers := hm_remove_all (n # ns) (c_readers c)\<rparr>)"
    using Cons.prems
    by (intro run_step) (auto simp: client_enabled_def step end_reader_def hm_remove_all_def)
  then show ?case by (simp add: step)
qed

lemma client_stays_cancelled:
  assumes "client_run c es outs c'" and "c_cancelled c"
  shows "c_cancelled c'"
  using assms
proof (induction rule: run.induct)
  case (run_Nil c)
  then show ?case .
next
  case (run_snoc c es os c1 e os' c2)
  then have "c_cancelled c1" and c2: "c2 = snd (client_handle e c1)" by simp_all
  then show ?case
  proof (cases e)
    case (Packet now r connects b pl)
    with \<open>c_cancelled c1\<close> show ?thesis
      by (simp add: c2 client_handle_def handle_packet_def Let_def case_prod_beta
          handle_tcp_transport_frame get_or_create_udp_session_frame)
  next
    case (UdpResponse now sock data)
    with \<open>c_cancelled c1\<close> show ?thesis
      by (simp add: c2 client_handle_def process_udp_response_eq split: sum.split option.split)
  next
    case (TcpResponse now n data)
    with \<open>c_cancelled c1\<close> show ?thesis
      by (simp add: c2 client_handle_def process_tcp_response_eq split: sum.split option.split)
  qed (simp_all add: c2 client_handle_def end_reader_def client_stop_def cleanup_tcp_session_frame
         sweep_frame split: option.split)
qed

text \<open>
  The returns of tasks and readers through a cancelled token, and how many are still to come.
\<close>

definition by_token :: "client_event \<Rightarrow> bool" where
  "by_token e = (case e of TaskReturns _ \<Rightarrow> True | TcpReaderCancelled _ \<Rightarrow> True | _ \<Rightarrow> False)"

definition still_running :: "client \<Rightarrow> nat" where
  "still_running c = length (c_tasks c) + hm_len (c_readers c)"

lemma still_running_card: "still_running c = length (c_tasks c) + card (dom (hm_get (c_readers c)))"
  by (simp add: still_running_def hm_len_card)

lemma token_return_counts:
  assumes "client_run c es outs c'" and "list_all by_token es"
  shows "outs = [] \<and> length es + still_running c' = still_running c"
  using assms
proof (induction rule: run.induct)
  case (run_Nil c)
  then show ?case by simp
next
  case (run_snoc c es os c1 e os' c2)
  then have IH: "os = []" "length es + still_running c1 = still_running c" by simp_all
  show ?case
  proof (cases e)
    case (TaskReturns t)
    with run_snoc.hyps(2,3) have "t \<in> set (c_tasks c1)" "os' = []" "c2 = c1\<lparr>c_tasks := remove1 t (c_tasks c1)\<rparr>"
      by (simp_all add: client_enabled_def client_handle_def)
    moreover from this(1) obtain k where "length (c_tasks c1) = Suc k" by (cases "c_tasks c1") auto
    ultimately show ?thesis using IH by (simp add: still_running_def length_remove1)
  next
    case (TcpReaderCancelled n)
    with run_snoc.hyps(2,3) have n: "n \<in> dom (hm_get (c_readers c1))" and "os' = []"
      and c2: "c_tasks c2 = c_tasks c1" "hm_get (c_readers c2) = (hm_get (c_readers c1))(n := None)"
      by (auto simp: client_enabled_def client_handle_def end_reader_def)
    have "card (dom (hm_get (c_readers c1))) = Suc (card (dom (hm_get (c_readers c1)) - {n}))"
      by (rule card.remove [OF finite_dom_hm_get n])
    with IH \<open>os' = []\<close> show ?thesis by (simp add: still_running_card c2)
  qed (use run_snoc.prems in \<open>simp_all add: by_token_def\<close>)
qed



section \<open>A reader that outlives its session\<close>

text \<open>
  Claim C39: an expired TCP session can take its successor with it. The reader of an expired
  connection that is in the middle of a frame waits for the data outside \<open>select!\<close> and does not
  see its token. If the source has a new session for the same server by then, whose connection works,
  the end of the old connection makes \<open>cleanup_tcp_session\<close> remove the new session and cancel
  the new connection, whose reader then returns without having failed; other sessions are untouched.
\<close>

theorem stale_reader_removes_new_session:
  assumes "client_run (client_started r cfg os) es outs c" and "length es \<le> event_limit"
    and "\<not> c_cancelled c"
    and "hm_get (c_readers c) n = Some rd" and "n \<in> c_cancelled_conns c"
    and "hm_get (c_tcp_sessions c) (tr_key rd) = Some t"
  shows "client_enabled c (TcpReaderEnds n) \<and> \<not> client_enabled c (TcpReaderCancelled (ts_writer t)) \<and>
    (let c' = snd (client_handle (TcpReaderEnds n) c)
     in hm_get (c_tcp_sessions c') = (hm_get (c_tcp_sessions c))(tr_key rd := None) \<and>
        c_cancelled_conns c' = insert (ts_writer t) (c_cancelled_conns c) \<and>
        client_enabled c' (TcpReaderCancelled (ts_writer t)))"
proof -
  have inv: "tcp_inv c" by (rule reachable_tcp_inv [OF assms(1,2)])
  have works: "ts_writer t \<notin> c_cancelled_conns c" using tcp_invD(2) [OF inv assms(6)] by simp
  with assms(5) have other: "ts_writer t \<noteq> n" by auto
  from tcp_invD(3) [OF inv assms(6,3)] obtain rd' where "hm_get (c_readers c) (ts_writer t) = Some rd'"
    by blast
  with works other assms(3,4,6) show ?thesis
    by (simp add: client_enabled_def client_handle_def end_reader_def cleanup_tcp_session_def Let_def)
qed

definition stale_events :: "client_event list" where
  "stale_events =
     [demo_packet, CleanupTick 62000000000, Packet 63000000000 0 (\<lambda>_. True) demo_source [6]]"

definition stale_client :: client where
  "stale_client = snd (the (exec client_enabled client_handle stale_events demo_client))"

definition stale_outs :: "client_output list" where
  "stale_outs = fst (the (exec client_enabled client_handle stale_events demo_client))"

lemma stale_run: "client_run (client_started 41 demo_config demo_sockets) stale_events stale_outs stale_client"
proof -
  have "exec client_enabled client_handle stale_events demo_client \<noteq> None" by code_simp
  then have "exec client_enabled client_handle stale_events demo_client = Some (stale_outs, stale_client)"
    unfolding stale_client_def stale_outs_def by auto
  then show ?thesis unfolding demo_client_def by (rule exec_run)
qed

lemma stale_facts:
  "\<not> c_cancelled stale_client"
  "hm_get (c_readers stale_client) 0 = Some \<lparr>tr_source = demo_source, tr_key = demo_key\<rparr>"
  "0 \<in> c_cancelled_conns stale_client"
  "hm_get (c_tcp_sessions stale_client) demo_key = Some \<lparr>ts_writer = 1, ts_last_activity = 63000000000\<rparr>"
  by code_simp+

theorem stale_reader_removes_new_session_witness:
  "(let c' = snd (client_handle (TcpReaderEnds 0) stale_client)
    in hm_get (c_tcp_sessions c') demo_key = None \<and> client_enabled c' (TcpReaderCancelled 1))"
proof -
  have "length stale_events \<le> event_limit" by (simp add: stale_events_def event_limit_def)
  from stale_reader_removes_new_session [OF stale_run this stale_facts(1-3), unfolded tcp_reader.simps,
      OF stale_facts(4)]
  show ?thesis by (simp add: Let_def)
qed

end
