(* ===== verification/Server_Props.thy ===== *)
theory Server_Props
  imports Server_Correct
begin

text \<open>
  The properties of the server, over the invariants of theory \<open>Server_Correct\<close>, each with a
  concrete instance.
\<close>

section \<open>A concrete server\<close>

definition demo_server_config :: server_config where
  "demo_server_config = \<lparr>sc_listen_addrs = [\<lparr>ep_address = ''0.0.0.0:8001'', ep_protocol = Udp\<rparr>,
                                             \<lparr>ep_address = ''0.0.0.0:8002'', ep_protocol = Tcp\<rparr>],
     sc_target_addr = ''10.0.0.9:80'', sc_dedup_window = 4, sc_session_timeout = 60000000000\<rparr>"

definition demo_listeners :: server_sockets where
  "demo_listeners = \<lparr>bind_endpoint = (\<lambda>i. Inr (200 + i)),
     endpoint_addr = (\<lambda>i. Inr (SocketV4 0 0 0 0 (of_nat (8001 + i))))\<rparr>"

definition demo_server :: server where
  "demo_server = server_started demo_server_config demo_listeners"

definition client_a :: socket_addr where
  "client_a = SocketV4 10 0 0 7 40000"

definition first_arrival :: server_event where
  "first_arrival = UdpArrives 1000000000 TargetOpens 200 client_a (encode_udp 42 5 [1, 2, 3])"

definition after_first :: server where
  "after_first = snd (server_handle first_arrival demo_server)"

lemma demo_server_run:
  "server_run (server_started demo_server_config demo_listeners) [first_arrival]
     (fst (server_handle first_arrival demo_server)) after_first"
proof -
  have "server_enabled demo_server first_arrival" by code_simp
  then have "server_run demo_server [first_arrival]
      (fst (server_handle first_arrival demo_server)) after_first"
    unfolding after_first_def by (rule run_handle)
  then show ?thesis by (simp add: demo_server_def)
qed

definition first_session :: target_session where
  "first_session = \<lparr>tg_target_conn = 0,
     tg_dedup_window = \<lparr>dw_seen = {5}, dw_min_seq = 5, dw_max_seq = 5, dw_size = 4, dw_started = True\<rparr>,
     tg_response_seq = 0, tg_last_activity = 1000000000\<rparr>"

lemma demo_window: "sc_dedup_window demo_server_config \<noteq> 0"
  by (simp add: demo_server_config_def)

lemma after_first_session: "hm_get (s_sessions after_first) 42 = Some first_session"
  by code_simp

section \<open>Sessions and paths\<close>

text \<open>
  Along every run of handlers that do not overlap, paths belong to live sessions only, a session
  has at most one path per listening socket and at most one per TCP connection, and no two
  sessions share a socket to the target. What is left of this when handlers interleave is
  \<open>interleaved_paths_consistent\<close>.
\<close>

lemma server_paths_consistent:
  assumes "sc_dedup_window cfg \<noteq> 0" and "server_run (server_started cfg os) es outs s"
  shows "(hm_get (s_client_paths s) sid = Some ps \<longrightarrow>
            hm_get (s_sessions s) sid \<noteq> None \<and> distinct (map path_key ps)) \<and>
         (hm_get (s_sessions s) sid = Some g \<and> hm_get (s_sessions s) sid' = Some g' \<and>
            tg_target_conn g = tg_target_conn g' \<longrightarrow> sid = sid') \<and>
         (hm_get (s_sessions s) sid = Some g \<and>
            hm_get (s_responders s) (tg_target_conn g) = Some sid' \<longrightarrow> sid' = sid)"
proof -
  have "sess_inv s" "paths_inv s"
    using reachable_server_inv [OF assms] by (simp_all add: server_inv_def)
  then show ?thesis using sess_invD(3,4) paths_invD by blast
qed

lemma server_paths_consistent_example:
  "hm_get (s_sessions after_first) 42 \<noteq> None \<and> distinct (map path_key [UdpPath client_a 200])"
proof -
  have paths: "hm_get (s_client_paths after_first) 42 = Some [UdpPath client_a 200]" by code_simp
  from server_paths_consistent [OF demo_window demo_server_run, of 42 "[UdpPath client_a 200]"] paths
  show ?thesis by blast
qed

section \<open>A session until it expires\<close>

lemma server_session_step:
  fixes e
  assumes g: "hm_get (s_sessions s) sid = Some g"
  defines "s' \<equiv> snd (server_handle e s)"
  shows "hm_get (s_sessions s') sid = None \<or>
    (\<exists>g'. hm_get (s_sessions s') sid = Some g' \<and> tg_target_conn g' = tg_target_conn g \<and>
      (tg_dedup_window g' = tg_dedup_window g \<or>
       (\<exists>q. tg_dedup_window g' = snd (is_duplicate (tg_dedup_window g) q))))"
proof -
  have admit: "\<exists>g'. hm_get (s_sessions (snd (admit now target s k q))) sid = Some g' \<and>
      tg_target_conn g' = tg_target_conn g \<and>
      (tg_dedup_window g' = tg_dedup_window g \<or>
       (\<exists>q. tg_dedup_window g' = snd (is_duplicate (tg_dedup_window g) q)))" for now target k q
    using g by (cases rule: get_or_create_session_cases [of s k now target])
      (auto simp: admit_def)
  show ?thesis
  proof (cases e)
    case (UdpArrives now target sock a data)
    have "s_sessions s' = s_sessions s \<or>
        (\<exists>k q. s_sessions s' = s_sessions (snd (admit now target s k q)))"
      by (auto simp: s'_def server_handle_def UdpArrives handle_udp_packet_eq
          split: sum.split prod.split option.split) (metis snd_conv)+
    with g admit show ?thesis by auto
  next
    case (TcpArrives now target n data)
    have "s_sessions s' = s_sessions s \<or>
        (\<exists>k q. s_sessions s' = s_sessions (snd (admit now target s k q)))"
      by (auto simp: s'_def server_handle_def TcpArrives handle_tcp_packet_eq
          split: sum.split prod.split option.split) (metis snd_conv)+
    with g admit show ?thesis by auto
  next
    case (TargetResponse now n pl)
    with g show ?thesis
      by (auto simp: s'_def server_handle_def send_response_state split: option.split)
  next
    case (ServerTick now)
    with g show ?thesis
      by (simp add: s'_def server_handle_def server_sweep_sessions unless_expired_def)
  qed (use g in \<open>simp_all add: s'_def server_handle_def server_stop_def Let_def split: option.split\<close>)
qed

text \<open>A target socket that has been handed out and belongs to no session any more.\<close>

definition closed :: "socket \<Rightarrow> server \<Rightarrow> bool" where
  "closed n s \<longleftrightarrow> n < s_next_socket s \<and>
     (\<forall>sid g. hm_get (s_sessions s) sid = Some g \<longrightarrow> tg_target_conn g \<noteq> n)"

text \<open>A step makes at most one session, on the next socket.\<close>

lemma server_new_session:
  fixes e s
  defines "s' \<equiv> snd (server_handle e s)"
  shows "s_next_socket s \<le> s_next_socket s'"
    and "hm_get (s_sessions s') sid = Some g \<Longrightarrow>
      tg_target_conn g = s_next_socket s \<or>
      (\<exists>h. hm_get (s_sessions s) sid = Some h \<and> tg_target_conn h = tg_target_conn g)"
    and "hm_get (s_responders s') n = Some k \<Longrightarrow>
      n = s_next_socket s \<or> hm_get (s_responders s) n = Some k"
proof -
  define A where "A t \<longleftrightarrow> s_next_socket s \<le> s_next_socket t \<and>
      (\<forall>sid g. hm_get (s_sessions t) sid = Some g \<longrightarrow> tg_target_conn g = s_next_socket s \<or>
        (\<exists>h. hm_get (s_sessions s) sid = Some h \<and> tg_target_conn h = tg_target_conn g)) \<and>
      (\<forall>n k. hm_get (s_responders t) n = Some k \<longrightarrow>
        n = s_next_socket s \<or> hm_get (s_responders s) n = Some k)" for t :: server
  have same: "A s" by (auto simp: A_def)
  have admit: "A (snd (admit now target s k q))" for now target k q
    by (cases rule: get_or_create_session_cases [of s k now target])
      (auto simp: A_def admit_def split: if_splits)
  have frame: "A t \<Longrightarrow> s_next_socket t' = s_next_socket t \<Longrightarrow> s_sessions t' = s_sessions t \<Longrightarrow>
      s_responders t' = s_responders t \<Longrightarrow> A t'" for t t' :: server
    by (simp add: A_def)
  have "A s'"
  proof (cases e)
    case (UdpArrives now target sock a data)
    show ?thesis
      using same admit frame
      by (auto simp: s'_def server_handle_def UdpArrives handle_udp_packet_eq
          split: sum.split prod.split option.split)
        (metis snd_conv add_path_frame(2,3,5))+
  next
    case (TcpArrives now target n data)
    show ?thesis
      using same admit frame
      by (auto simp: s'_def server_handle_def TcpArrives handle_tcp_packet_eq
          split: sum.split prod.split option.split)
        (metis snd_conv add_path_frame(8,9,11))+
  next
    case (TargetResponse now n pl)
    show ?thesis
      using same
      by (auto simp: s'_def server_handle_def TargetResponse send_response_state A_def
          split: option.split)
  next
    case (ServerTick now)
    show ?thesis
      by (auto simp: s'_def server_handle_def ServerTick A_def server_sweep_sessions
          server_sweep_frame)
  qed (auto simp: s'_def server_handle_def server_stop_def A_def Let_def split: option.split if_splits)
  then show "s_next_socket s \<le> s_next_socket s'"
    "hm_get (s_sessions s') sid = Some g \<Longrightarrow> tg_target_conn g = s_next_socket s \<or>
      (\<exists>h. hm_get (s_sessions s) sid = Some h \<and> tg_target_conn h = tg_target_conn g)"
    "hm_get (s_responders s') n = Some k \<Longrightarrow>
      n = s_next_socket s \<or> hm_get (s_responders s) n = Some k"
    unfolding A_def by blast+
qed

lemma closed_step:
  assumes "closed n s"
  shows "closed n (snd (server_handle e s))"
  unfolding closed_def
proof (intro conjI allI impI)
  show "n < s_next_socket (snd (server_handle e s))"
    using assms server_new_session(1) [of s e] by (simp add: closed_def)
next
  fix sid g assume "hm_get (s_sessions (snd (server_handle e s))) sid = Some g"
  from server_new_session(2) [OF this] assms show "tg_target_conn g \<noteq> n"
    by (auto simp: closed_def)
qed

lemma removed_closed:
  assumes inv: "server_inv s" and g: "hm_get (s_sessions s) sid = Some g"
    and gone: "hm_get (s_sessions (snd (server_handle e s))) sid = None"
  shows "closed (tg_target_conn g) (snd (server_handle e s))"
  unfolding closed_def
proof (intro conjI allI impI)
  have si: "sess_inv s" using inv by (simp add: server_inv_def)
  note low = sess_invD(2) [OF si g]
  then show "tg_target_conn g < s_next_socket (snd (server_handle e s))"
    using server_new_session(1) [of s e] by simp
  fix k h assume h: "hm_get (s_sessions (snd (server_handle e s))) k = Some h"
  from server_new_session(2) [OF this] low show "tg_target_conn h \<noteq> tg_target_conn g"
    using sess_invD(4) [OF si g] gone h by (metis less_irrefl option.distinct(1))
qed

text \<open>What checks of the window preserve holds of a session as long as it keeps its socket.\<close>

lemma server_session_along:
  assumes run: "server_run s es outs s'" and inv: "server_inv s"
    and g: "hm_get (s_sessions s) sid = Some g" and "Q (tg_dedup_window g)"
    and step: "\<And>w q. dw_inv w \<Longrightarrow> Q w \<Longrightarrow> Q (snd (is_duplicate w q))"
    and g': "hm_get (s_sessions s') sid = Some g'" "tg_target_conn g' = tg_target_conn g"
  shows "Q (tg_dedup_window g')"
proof -
  define P where "P s \<longleftrightarrow> closed (tg_target_conn g) s \<or>
      (\<exists>h. hm_get (s_sessions s) sid = Some h \<and> tg_target_conn h = tg_target_conn g
         \<and> Q (tg_dedup_window h))" for s :: server
  have "P s'"
  proof (rule server_runs.preserved_along [where P = "\<lambda>_. P" and limit = "length es" and n = 0,
        OF run inv])
    show "0 + length es \<le> length es" by simp
    show "P s" using g assms(4) by (auto simp: P_def)
  next
    fix s e assume inv: "server_inv s" and "P s"
    then consider "closed (tg_target_conn g) s"
      | h where "hm_get (s_sessions s) sid = Some h" "tg_target_conn h = tg_target_conn g"
          "Q (tg_dedup_window h)"
      by (auto simp: P_def)
    then show "P (snd (server_handle e s))"
    proof cases
      case 1
      then show ?thesis by (simp add: P_def closed_step)
    next
      case (2 h)
      have "dw_inv (tg_dedup_window h)"
        using sess_invD(2) [of s sid h] inv 2(1) by (simp add: server_inv_def)
      note checked = step [OF this 2(3)]
      from server_session_step [OF 2(1), of e] show ?thesis
      proof (elim disjE exE conjE)
        assume "hm_get (s_sessions (snd (server_handle e s))) sid = None"
        from removed_closed [OF inv 2(1) this] 2(2) show ?thesis by (simp add: P_def)
      qed (use 2 checked in \<open>auto simp: P_def\<close>)
    qed
  qed
  then show ?thesis using g' by (auto simp: P_def closed_def)
qed

section \<open>Each packet is forwarded once\<close>

text \<open>What \<open>admit\<close> does to a session that is there.\<close>

lemma admit_known:
  "hm_get (s_sessions s) sid = Some g \<Longrightarrow>
     admit now target s sid q =
       (Some (tg_target_conn g, fst (is_duplicate (tg_dedup_window g) q)),
        s\<lparr>s_sessions := hm_insert sid
            (g\<lparr>tg_last_activity := now, tg_dedup_window := snd (is_duplicate (tg_dedup_window g) q)\<rparr>)
            (s_sessions s)\<rparr>)"
  by (simp add: admit_def get_or_create_session_def)

lemma admit_refused:
  assumes "server_inv s" and "admit now target s sid q = (Some (n, dup), s')"
  shows "\<exists>g. hm_get (s_sessions s') sid = Some g \<and> tg_target_conn g = n \<and>
    q \<in> dw_refused (tg_dedup_window g)"
proof -
  have si: "sess_inv s" using assms(1) by (simp add: server_inv_def)
  show ?thesis
  proof (cases rule: get_or_create_session_cases [of s sid now target])
    case (found g)
    with assms(2) sess_invD(2) [OF si found(1)] show ?thesis
      by (auto simp: admit_def dw.checked_refused)
  next
    case failed
    with assms(2) show ?thesis by (simp add: admit_def)
  next
    case (opened g)
    have "dw_inv (tg_dedup_window g)"
      using sess_invD(1) [OF si] by (simp add: opened(3) dw_inv_new)
    with assms(2) opened(4) show ?thesis
      by (auto simp: admit_def dw.checked_refused)
  qed
qed

text \<open>The outcome of a packet, by either transport.\<close>

definition packet_handled ::
    "instant \<Rightarrow> server \<Rightarrow> u64 \<Rightarrow> u32 \<Rightarrow> bytes \<Rightarrow> server_output list \<Rightarrow> server \<Rightarrow> bool" where
  "packet_handled now s sid q pl outs s' \<longleftrightarrow>
     (\<exists>target sock a. handle_udp_packet now target s sock a (encode_udp sid q pl) = (outs, s')) \<or>
     (\<exists>target cid w. handle_tcp_packet now target s cid w (encode_tcp sid q pl) = (outs, s'))"

lemma packet_handled_admit:
  assumes "packet_handled now s sid q pl outs s'"
  shows "\<exists>target r s1. admit now target s sid q = (r, s1) \<and> s_sessions s' = s_sessions s1 \<and>
    outs = (case r of Some (n, False) \<Rightarrow> [TargetSend n pl] | _ \<Rightarrow> []) \<and>
    (server_inv s \<longrightarrow> server_inv s')"
proof -
  have "\<exists>r s1. admit now target s sid q = (r, s1) \<and> s_sessions s' = s_sessions s1 \<and>
      outs = (case r of Some (n, False) \<Rightarrow> [TargetSend n pl] | _ \<Rightarrow> [])"
    if "handle_udp_packet now target s sock a (encode_udp sid q pl) = (outs, s')" for target sock a
    using that by (auto simp: handle_udp_packet_eq udp.dec_enc split: prod.splits option.splits if_splits)
  moreover have "\<exists>r s1. admit now target s sid q = (r, s1) \<and> s_sessions s' = s_sessions s1 \<and>
      outs = (case r of Some (n, False) \<Rightarrow> [TargetSend n pl] | _ \<Rightarrow> [])"
    if "handle_tcp_packet now target s cid w (encode_tcp sid q pl) = (outs, s')" for target cid w
    using that by (auto simp: handle_tcp_packet_eq tcp.dec_enc split: prod.splits option.splits if_splits)
  ultimately show ?thesis
    using assms server_inv_handle_udp_packet server_inv_handle_tcp_packet
    unfolding packet_handled_def by (metis snd_conv)
qed

lemma udp_packet_handled:
  "packet_handled now s sid q pl
     (fst (handle_udp_packet now target s sock a (encode_udp sid q pl)))
     (snd (handle_udp_packet now target s sock a (encode_udp sid q pl)))"
  unfolding packet_handled_def by (metis prod.collapse)

lemma tcp_packet_handled:
  "packet_handled now s sid q pl
     (fst (handle_tcp_packet now target s cid w (encode_tcp sid q pl)))
     (snd (handle_tcp_packet now target s cid w (encode_tcp sid q pl)))"
  unfolding packet_handled_def by (metis prod.collapse)

text \<open>
  Claim C4: the target never gets a packet of a session twice. Once the packet with number \<open>q\<close> has
  been forwarded over the session's socket \<open>n\<close>, by whichever transport, then after any further
  events no copy of it, over UDP or TCP, from any address or connection, is forwarded, as long
  as the session lives.
\<close>

theorem packet_forwarded_once:
  assumes "sc_dedup_window cfg \<noteq> 0" and "server_run (server_started cfg os) es1 outs1 s"
    and "packet_handled now s sid q pl [TargetSend n pl] s1"
    and "server_run s1 es2 outs2 s2"
    and "hm_get (s_sessions s2) sid = Some g" and "tg_target_conn g = n"
    and "packet_handled now' s2 sid q pl' outs s3"
  shows "outs = []"
proof -
  have inv: "server_inv s" by (rule reachable_server_inv [OF assms(1,2)])
  from packet_handled_admit [OF assms(3)] inv obtain target r t where
    first: "admit now target s sid q = (r, t)" "s_sessions s1 = s_sessions t"
      "[TargetSend n pl] = (case r of Some (n, False) \<Rightarrow> [TargetSend n pl] | _ \<Rightarrow> [])"
    and inv1: "server_inv s1" by blast
  then have "r = Some (n, False)" by (auto split: option.splits prod.splits bool.splits)
  with admit_refused [OF inv, of now target sid q n False t] first obtain h where
    h: "hm_get (s_sessions s1) sid = Some h" "tg_target_conn h = n"
      "q \<in> dw_refused (tg_dedup_window h)" by auto
  have "q \<in> dw_refused (tg_dedup_window g)"
    using assms(6) h(2) dw.refused_grows
    by (intro server_session_along [OF assms(4) inv1 h(1), where Q = "\<lambda>w. q \<in> dw_refused w",
          OF h(3) _ assms(5)]) auto
  moreover have "server_inv s2"
    using server_runs.inv_along [where n = 0 and limit = "length es2", OF assms(4) inv1] by simp
  then have "dw_inv (tg_dedup_window g)"
    using sess_invD(2) [of s2 sid g] assms(5) by (simp add: server_inv_def)
  ultimately have "fst (is_duplicate (tg_dedup_window g) q)" by (simp add: dw.verdict)
  moreover from packet_handled_admit [OF assms(7)] obtain target' r' t' where
    "admit now' target' s2 sid q = (r', t')"
    "outs = (case r' of Some (n, False) \<Rightarrow> [TargetSend n pl'] | _ \<Rightarrow> [])" by blast
  ultimately show ?thesis by (auto simp: admit_known [OF assms(5)])
qed

theorem packet_forwarded_once_witness:
  "fst (handle_tcp_packet 2000000000 TargetOpens after_first 77 3 (encode_tcp 42 5 [1, 2, 3])) = []"
proof (rule packet_forwarded_once [OF demo_window, where ?es1.0 = "[]" and ?es2.0 = "[]"])
  show "server_run (server_started demo_server_config demo_listeners) [] [] demo_server"
    by (simp add: demo_server_def)
  have "handle_udp_packet 1000000000 TargetOpens demo_server 200 client_a (encode_udp 42 5 [1, 2, 3])
      = ([TargetSend 0 [1, 2, 3]], after_first)"
  proof -
    have "fst (server_handle first_arrival demo_server) = [TargetSend 0 [1, 2, 3]]" by code_simp
    then show ?thesis
      by (simp add: after_first_def prod_eq_iff server_handle_def first_arrival_def)
  qed
  then show "packet_handled 1000000000 demo_server 42 5 [1, 2, 3] [TargetSend 0 [1, 2, 3]] after_first"
    unfolding packet_handled_def by blast
  show "server_run after_first [] [] after_first" by simp
  show "hm_get (s_sessions after_first) 42 = Some first_session" by (rule after_first_session)
  show "tg_target_conn first_session = 0" by (simp add: first_session_def)
qed (rule tcp_packet_handled)

lemma update_udp_path_filter:
  assumes "update_udp_path a sock ps = Some ps'" and "distinct (map path_key ps)"
  shows "filter (\<lambda>p. path_key p \<noteq> Inl sock) ps' = filter (\<lambda>p. path_key p \<noteq> Inl sock) ps \<and>
    filter (\<lambda>p. path_key p = Inl sock) ps' = [UdpPath a sock]"
  using assms
proof (induction ps arbitrary: ps')
  case Nil
  then show ?case by simp
next
  case (Cons p ps)
  show ?case
  proof (cases "path_key p = Inl sock")
    case True
    then obtain b where p: "p = UdpPath b sock"
      by (cases p) simp_all
    have "filter (\<lambda>p. path_key p = Inl sock) ps = []"
      using Cons.prems(2) True by (force simp: filter_empty_conv)
    with Cons.prems(1) p show ?thesis by (auto split: if_splits)
  next
    case False
    then obtain qs where "update_udp_path a sock ps = Some qs" "ps' = p # qs"
      using Cons.prems(1) by (cases p) (auto split: if_splits)
    with Cons False show ?thesis by simp
  qed
qed

lemma add_udp_path_paths:
  assumes "paths_inv s"
  shows "\<exists>ps. hm_get (s_client_paths (add_udp_path s sid a sock)) sid = Some ps \<and>
    filter (\<lambda>p. path_key p = Inl sock) ps = [UdpPath a sock] \<and>
    filter (\<lambda>p. path_key p \<noteq> Inl sock) ps =
      filter (\<lambda>p. path_key p \<noteq> Inl sock) (unwrap_or (hm_get (s_client_paths s) sid) [])"
proof -
  let ?ps = "unwrap_or (hm_get (s_client_paths s) sid) []"
  note dist = known_paths_distinct [OF assms, of sid]
  show ?thesis
  proof (cases "update_udp_path a sock ?ps")
    case None
    then have "filter (\<lambda>p. path_key p = Inl sock) ?ps = []"
      by (force simp: update_udp_path_None filter_empty_conv)
    with None show ?thesis by (simp add: add_udp_path_def)
  next
    case (Some ps')
    with update_udp_path_filter [OF Some dist] show ?thesis by (simp add: add_udp_path_def)
  qed
qed

text \<open>
  What a packet that is not a duplicate does, from a live session: its payload goes to
  the session's target, once and unchanged; the session is active now; and the path back through
  the listening socket has the packet's source address, replacing an older one (a client may
  change its address), while all other paths stay.
\<close>

lemma udp_packet_accepted:
  assumes "paths_inv s" and "hm_get (s_sessions s) sid = Some g"
    and "\<not> fst (is_duplicate (tg_dedup_window g) q)"
    and "handle_udp_packet now target s sock a (encode_udp sid q pl) = (outs, s')"
  shows "outs = [TargetSend (tg_target_conn g) pl] \<and>
    map_option tg_last_activity (hm_get (s_sessions s') sid) = Some now \<and>
    (\<exists>ps. hm_get (s_client_paths s') sid = Some ps \<and>
       filter (\<lambda>p. path_key p = Inl sock) ps = [UdpPath a sock] \<and>
       filter (\<lambda>p. path_key p \<noteq> Inl sock) ps =
         filter (\<lambda>p. path_key p \<noteq> Inl sock) (unwrap_or (hm_get (s_client_paths s) sid) []))"
proof -
  obtain t where t: "t = snd (admit now target s sid q)" by simp
  then have admit: "admit now target s sid q = (Some (tg_target_conn g, False), t)"
    using assms(3) by (simp add: admit_known [OF assms(2)])
  have outs: "outs = [TargetSend (tg_target_conn g) pl]" and s': "s' = add_udp_path t sid a sock"
    using assms(4) admit by (auto simp: handle_udp_packet_eq udp.dec_enc)
  have "paths_inv t"
    unfolding t by (rule paths_inv_mono [OF assms(1)]) (auto simp: admit_known [OF assms(2)])
  moreover have "s_client_paths t = s_client_paths s"
    by (simp add: t)
  ultimately have "\<exists>ps. hm_get (s_client_paths s') sid = Some ps \<and>
       filter (\<lambda>p. path_key p = Inl sock) ps = [UdpPath a sock] \<and>
       filter (\<lambda>p. path_key p \<noteq> Inl sock) ps =
         filter (\<lambda>p. path_key p \<noteq> Inl sock) (unwrap_or (hm_get (s_client_paths s) sid) [])"
    using add_udp_path_paths [of t sid a sock] by (simp add: s')
  moreover have "map_option tg_last_activity (hm_get (s_sessions s') sid) = Some now"
    by (simp add: s' t admit_known [OF assms(2)])
  ultimately show ?thesis using outs by blast
qed

definition client_moved :: socket_addr where
  "client_moved = SocketV4 10 0 0 8 40001"

lemma reachable_after_first: "server_inv after_first"
  by (rule reachable_server_inv [OF demo_window demo_server_run])

lemma udp_packet_accepted_example:
  "\<exists>outs s' ps. handle_udp_packet 2000000000 TargetOpens after_first 200 client_moved
       (encode_udp 42 6 [7]) = (outs, s') \<and> outs = [TargetSend 0 [7]] \<and>
     hm_get (s_client_paths s') 42 = Some ps \<and>
     filter (\<lambda>p. path_key p = Inl 200) ps = [UdpPath client_moved 200]"
proof -
  have "paths_inv after_first" using reachable_after_first by (simp add: server_inv_def)
  moreover have "\<not> fst (is_duplicate (tg_dedup_window first_session) 6)" by code_simp
  ultimately show ?thesis
    using udp_packet_accepted [OF _ after_first_session, where q = 6 and a = client_moved
        and sock = 200 and pl = "[7]" and target = TargetOpens and now = 2000000000]
    by (cases "handle_udp_packet 2000000000 TargetOpens after_first 200 client_moved
        (encode_udp 42 6 [7])") (auto simp: first_session_def)
qed

text \<open>A duplicate leaves everything but the time of activity.\<close>

lemma admit_duplicate:
  assumes "hm_get (s_sessions s) sid = Some g" and "fst (is_duplicate (tg_dedup_window g) q)"
  shows "admit now target s sid q = (Some (tg_target_conn g, True),
      s\<lparr>s_sessions := hm_insert sid (g\<lparr>tg_last_activity := now\<rparr>) (s_sessions s)\<rparr>)"
  using assms(2) dw.duplicate_stable [OF assms(2)] by (simp add: admit_known [OF assms(1)])

lemma duplicate_handled:
  assumes "hm_get (s_sessions s) sid = Some g" and "fst (is_duplicate (tg_dedup_window g) q)"
    and "packet_handled now s sid q pl outs s'"
  shows "outs = [] \<and>
    s' = s\<lparr>s_sessions := hm_insert sid (g\<lparr>tg_last_activity := now\<rparr>) (s_sessions s)\<rparr>"
  using assms(3) admit_duplicate [OF assms(1,2)]
  by (auto simp: packet_handled_def handle_udp_packet_eq handle_tcp_packet_eq udp.dec_enc
      tcp.dec_enc)

text \<open>
  Claim C35: a duplicate changes nothing but the session's time of activity: nothing is sent, the
  window stays, and the path it came on is not registered. So a path whose copies always
  arrive second never becomes a path for responses, although its packets arrive.
\<close>

theorem duplicate_registers_no_path:
  assumes "hm_get (s_sessions s) sid = Some g" and "fst (is_duplicate (tg_dedup_window g) q)"
    and "packet_handled now s sid q pl outs s'"
  shows "outs = [] \<and>
    s' = s\<lparr>s_sessions := hm_insert sid (g\<lparr>tg_last_activity := now\<rparr>) (s_sessions s)\<rparr>"
  by (rule duplicate_handled [OF assms])

theorem duplicate_registers_no_path_witness:
  "snd (handle_tcp_packet 2000000000 TargetOpens after_first 77 3 (encode_tcp 42 5 [1, 2, 3]))
     = after_first\<lparr>s_sessions := hm_insert 42 (first_session\<lparr>tg_last_activity := 2000000000\<rparr>)
         (s_sessions after_first)\<rparr>"
proof -
  have "fst (is_duplicate (tg_dedup_window first_session) 5)" by code_simp
  from duplicate_registers_no_path [OF after_first_session this tcp_packet_handled]
  show ?thesis by blast
qed

text \<open>
  Claim C37: numbers below the window are refused for ever, and refused packets keep the session
  alive. After the client's 32-bit counter has wrapped around, its numbers lie below the
  window's lower end: nothing it sends is forwarded, and as long as it sends at least once per
  timeout the session does not expire, so that a new window is never made.
\<close>

theorem wrapped_session_stays_silent:
  assumes "server_inv s" and "hm_get (s_sessions s) sid = Some g"
    and "dw_started (tg_dedup_window g)" and "q < dw_min_seq (tg_dedup_window g)"
    and "packet_handled now s sid q pl outs s'"
    and "now \<le> tick" and "tick \<le> now + sc_session_timeout (s_cfg s)"
  shows "outs = [] \<and> (\<exists>g'. hm_get (s_sessions (server_cleanup_expired_sessions tick s')) sid = Some g' \<and>
    tg_dedup_window g' = tg_dedup_window g)"
proof -
  have "fst (is_duplicate (tg_dedup_window g) q)"
    using assms(3,4) by (simp add: is_duplicate_refused dw_refused_def)
  from duplicate_handled [OF assms(2) this assms(5)] have outs: "outs = []"
    and s': "s' = s\<lparr>s_sessions := hm_insert sid (g\<lparr>tg_last_activity := now\<rparr>) (s_sessions s)\<rparr>"
    by simp_all
  have "hm_get (s_sessions (server_cleanup_expired_sessions tick s')) sid
      = Some (g\<lparr>tg_last_activity := now\<rparr>)"
    using assms(7) by (intro server_table.active_survives) (simp_all add: s')
  with outs show ?thesis by simp
qed

theorem wrapped_session_stays_silent_witness:
  "fst (handle_udp_packet 61000000000 TargetOpens after_first 200 client_a (encode_udp 42 0 [9])) = []"
proof -
  have "packet_handled 61000000000 after_first 42 0 [9]
      (fst (handle_udp_packet 61000000000 TargetOpens after_first 200 client_a (encode_udp 42 0 [9])))
      (snd (handle_udp_packet 61000000000 TargetOpens after_first 200 client_a (encode_udp 42 0 [9])))"
    by (rule udp_packet_handled)
  from wrapped_session_stays_silent [OF reachable_after_first after_first_session _ _ this,
      where tick = 61000000000]
  show ?thesis by (simp add: first_session_def)
qed

section \<open>Responses\<close>

definition response_carried :: "server_output \<Rightarrow> packet option" where
  "response_carried out =
     (case out of
        TargetSend _ _ \<Rightarrow> None
      | ClientSend _ bs _ \<Rightarrow> datagram_packet bs
      | ClientWrite _ bs \<Rightarrow> frame_packet bs)"

definition sent_on :: "client_path \<Rightarrow> server_output \<Rightarrow> bool" where
  "sent_on p out =
     (case (p, out) of
        (UdpPath a sock, ClientSend sock' _ a') \<Rightarrow> sock' = sock \<and> a' = a
      | (TcpPath _ w, ClientWrite w' _) \<Rightarrow> w' = w
      | _ \<Rightarrow> False)"

text \<open>
  Claim C22: a response of the target goes out once on every path of its session, in the order in
  which the paths were registered, and nowhere else; all copies decode to the same session,
  number and payload, so the client can tell that they are one; and the next response has the
  next number, whether or not there was a path.
\<close>

theorem response_on_every_path:
  assumes "hm_get (s_sessions s) sid = Some g" and "length pl \<le> 65523"
    and "send_response_to_all_paths now s sid pl = (outs, s')"
  shows "list_all2 sent_on (unwrap_or (hm_get (s_client_paths s) sid) []) outs \<and>
    list_all (\<lambda>out. response_carried out = Some (sid, tg_response_seq g, pl)) outs \<and>
    hm_get (s_sessions s') sid
      = Some (g\<lparr>tg_last_activity := now, tg_response_seq := tg_response_seq g + 1\<rparr>) \<and>
    s_client_paths s' = s_client_paths s"
proof -
  let ?ps = "unwrap_or (hm_get (s_client_paths s) sid) []"
  have outs: "outs = map (response_on_path sid (tg_response_seq g) pl) ?ps"
    using assms(1,3)
    by (auto simp: send_response_to_all_paths_def Let_def split: option.splits if_splits)
  have "list_all2 sent_on ps (map (response_on_path sid (tg_response_seq g) pl) ps)" for ps
    by (induction ps) (auto simp: sent_on_def response_on_path_def split: client_path.splits)
  moreover have "response_carried (response_on_path sid (tg_response_seq g) pl p)
      = Some (sid, tg_response_seq g, pl)" for p
    using assms(2)
    by (cases p) (simp_all add: response_carried_def response_on_path_def frame_packet_frame
        flip: payload_fits)
  ultimately show ?thesis
    using assms(1,3) send_response_state [of now s sid pl] by (simp add: outs list_all_iff)
qed

theorem response_on_every_path_witness:
  "list_all2 sent_on [UdpPath client_a 200]
     (fst (send_response_to_all_paths 2000000000 after_first 42 [8, 8])) \<and>
   list_all (\<lambda>out. response_carried out = Some (42, 0, [8, 8]))
     (fst (send_response_to_all_paths 2000000000 after_first 42 [8, 8]))"
proof -
  have paths: "hm_get (s_client_paths after_first) 42 = Some [UdpPath client_a 200]" by code_simp
  from response_on_every_path [OF after_first_session _ prod.collapse [symmetric],
      of "[8, 8]" 2000000000] paths
  show ?thesis by (simp add: first_session_def)
qed

text \<open>
  Claim C36: one failed \<open>recv\<close> on the target socket (an ICMP error is enough) silences a session
  for as long as it lives. \<open>handle_target_response\<close> returns, nothing restarts it, and the session
  is kept: no later response is taken from that socket, while packets from the client are still
  forwarded and keep the session from expiring.
\<close>

theorem target_error_silences_session:
  assumes "server_inv s" and "hm_get (s_sessions s) sid = Some g"
    and "server_run (snd (server_handle (TargetError (tg_target_conn g)) s)) es outs s'"
  shows "\<not> server_enabled s' (TargetResponse now (tg_target_conn g) pl) \<and>
    hm_get (s_sessions (snd (server_handle (TargetError (tg_target_conn g)) s))) sid = Some g"
proof -
  let ?n = "tg_target_conn g"
  let ?s1 = "snd (server_handle (TargetError ?n) s)"
  define P where "P s \<longleftrightarrow> ?n < s_next_socket s \<and> hm_get (s_responders s) ?n = None" for s :: server
  have inv1: "server_inv ?s1" by (rule server_inv_handle [OF assms(1)])
  have "P s'"
  proof (rule server_runs.preserved_along [where P = "\<lambda>_. P" and limit = "length es" and n = 0,
        OF assms(3) inv1])
    show "0 + length es \<le> length es" by simp
    have "?n < s_next_socket s"
      using sess_invD(2) [OF _ assms(2)] assms(1) by (simp add: server_inv_def)
    then show "P ?s1" by (simp add: P_def server_handle_def)
  next
    fix s e assume "P s"
    then show "P (snd (server_handle e s))"
      using server_new_session(1) [of s e] server_new_session(3) [where s = s and e = e and n = ?n]
      by (cases "hm_get (s_responders (snd (server_handle e s))) ?n") (auto simp: P_def)
  qed
  with assms(2) show ?thesis by (simp add: P_def server_enabled_def server_handle_def)
qed

theorem target_error_silences_session_witness:
  "\<not> server_enabled (snd (server_handle (TargetError 0) after_first)) (TargetResponse 5 0 [1])"
proof -
  have "tg_target_conn first_session = 0" by (simp add: first_session_def)
  with target_error_silences_session [OF reachable_after_first after_first_session,
      where es = "[]" and outs = "[]"]
  show ?thesis by simp
qed

section \<open>The end of a connection, expiry, start\<close>

text \<open>
  When a TCP connection ends, its path disappears from the session it last carried a new
  packet for, and nothing else is touched: the session, its other paths and all other sessions
  stay, so the client keeps the paths that still work.
\<close>

lemma tcp_end_removes_path:
  assumes "hm_get (s_conns s) n = Some cid" and "hm_get (s_tcp_conn_to_session s) cid = Some sid"
    and "hm_get (s_client_paths s) sid = Some ps"
    and "server_handle (TcpConnEnds n) s = (outs, s')"
  shows "outs = [] \<and> hm_get (s_conns s') n = None \<and> s_sessions s' = s_sessions s \<and>
    hm_get (s_client_paths s') =
      (hm_get (s_client_paths s))(sid \<mapsto> filter (\<lambda>p. path_key p \<noteq> Inr cid) ps)"
proof -
  have "(\<not> matches_conn cid p) = (path_key p \<noteq> Inr cid)" for p
    by (simp add: matches_conn_def path_key_def split: client_path.split)
  with assms show ?thesis
    by (auto simp: server_handle_def cleanup_tcp_conn_def Let_def)
qed

text \<open>A server with one connection, number 3 at address 77, and two paths of session 42.\<close>

definition after_tcp :: server where
  "after_tcp = (server_new demo_server_config)
     \<lparr>s_conns := hm_insert 3 77 hm_new, s_tcp_conn_to_session := hm_insert 77 42 hm_new,
      s_client_paths := hm_insert 42 [UdpPath client_a 200, TcpPath 77 3] hm_new\<rparr>"

lemma after_tcp_facts:
  "hm_get (s_conns after_tcp) 3 = Some 77"
  "hm_get (s_tcp_conn_to_session after_tcp) 77 = Some 42"
  "hm_get (s_client_paths after_tcp) 42 = Some [UdpPath client_a 200, TcpPath 77 3]"
  by (simp_all add: after_tcp_def)

lemma tcp_end_removes_path_example:
  "hm_get (s_client_paths (snd (server_handle (TcpConnEnds 3) after_tcp))) 42
     = Some [UdpPath client_a 200]"
  using tcp_end_removes_path [OF after_tcp_facts prod.collapse [symmetric]] by simp

text \<open>
  A tick removes a session exactly when its last activity lies more than the timeout
  back; its paths go with it and its response task is told to stop, while an active session
  keeps its paths, its window and its socket.
\<close>

lemma server_expiry:
  assumes "sc_dedup_window cfg \<noteq> 0" and "server_run (server_started cfg os) es outs s"
    and "hm_get (s_sessions s) sid = Some g" and "s' = server_cleanup_expired_sessions now s"
  shows "if tg_last_activity g + sc_session_timeout (s_cfg s) < now
         then hm_get (s_sessions s') sid = None \<and> hm_get (s_client_paths s') sid = None \<and>
              tg_target_conn g \<in> s_cancelled_sockets s'
         else hm_get (s_sessions s') sid = Some g \<and>
              hm_get (s_client_paths s') sid = hm_get (s_client_paths s) sid \<and>
              tg_target_conn g \<notin> s_cancelled_sockets s'"
proof (cases "tg_last_activity g + sc_session_timeout (s_cfg s) < now")
  case True
  then have "expired now (sc_session_timeout (s_cfg s)) (tg_last_activity g)"
    by (simp add: expired_def duration_since_def)
  with True assms(3) show ?thesis
    using server_table.idle_removed [OF assms(3) True]
    by (auto simp: assms(4) server_sweep_paths server_sweep_cancelled)
next
  case False
  then have kept: "hm_get (s_sessions s') sid = Some g"
    unfolding assms(4) by (intro server_table.active_survives [OF assms(3)]) simp
  have "\<not> expired now (sc_session_timeout (s_cfg s)) (tg_last_activity g)"
    using False by (simp add: expired_def duration_since_def)
  moreover have "sess_inv s'"
    using reachable_server_inv [OF assms(1,2)] sess_inv_sweep by (simp add: assms(4) server_inv_def)
  ultimately show ?thesis
    using False kept sess_invD(2) [of s' sid g] assms(3)
    by (auto simp: assms(4) server_sweep_paths)
qed

lemma server_expiry_example:
  "hm_get (s_sessions (server_cleanup_expired_sessions 61000000001 after_first)) 42 = None \<and>
   hm_get (s_sessions (server_cleanup_expired_sessions 61000000000 after_first)) 42
     = Some first_session"
proof -
  have cfg: "s_cfg after_first = demo_server_config" by code_simp
  show ?thesis
    using server_expiry [OF demo_window demo_server_run after_first_session refl, of 61000000001]
      server_expiry [OF demo_window demo_server_run after_first_session refl, of 61000000000]
    by (simp add: cfg first_session_def demo_server_config_def)
qed

lemma open_listeners_result:
  "open_listeners os i eps addrs s = (r, s') \<Longrightarrow>
     \<exists>socks. length socks \<le> length eps \<and>
       s_tasks s' = s_tasks s @ map (\<lambda>(ep, sock). case ep_protocol ep of
           Udp \<Rightarrow> UdpListener sock | Tcp \<Rightarrow> TcpListener sock) (zip eps socks) \<and>
       (case r of Inl e \<Rightarrow> length socks < length eps
        | Inr addrs' \<Rightarrow> length socks = length eps \<and> length addrs' = length addrs + length eps)"
proof (induction os i eps addrs s rule: open_listeners.induct)
  case (1 os i addrs s)
  then show ?case by (intro exI [of _ "[]"]) auto
next
  case (2 os i ep eps addrs s)
  show ?case
  proof (cases "bind_endpoint os i")
    case (Inl e)
    with 2(2) show ?thesis by (intro exI [of _ "[]"]) auto
  next
    case sock: (Inr sock)
    show ?thesis
    proof (cases "endpoint_addr os i")
      case (Inl e)
      with sock 2(2) show ?thesis by (intro exI [of _ "[]"]) auto
    next
      case (Inr addr)
      from 2(2) sock Inr have "open_listeners os (Suc i) eps (addrs @ [addr])
          (s\<lparr>s_tasks := s_tasks s @ [case ep_protocol ep of Udp \<Rightarrow> UdpListener sock
             | Tcp \<Rightarrow> TcpListener sock]\<rparr>) = (r, s')"
        by (simp add: Let_def)
      from 2(1) [OF sock Inr refl this] obtain socks where
        "length socks \<le> length eps"
        "s_tasks s' = s_tasks s @ [case ep_protocol ep of Udp \<Rightarrow> UdpListener sock
             | Tcp \<Rightarrow> TcpListener sock] @ map (\<lambda>(ep, sock). case ep_protocol ep of
           Udp \<Rightarrow> UdpListener sock | Tcp \<Rightarrow> TcpListener sock) (zip eps socks)"
        "case r of Inl e \<Rightarrow> length socks < length eps
          | Inr addrs' \<Rightarrow> length socks = length eps
              \<and> length addrs' = length (addrs @ [addr]) + length eps"
        by auto
      then show ?thesis
        by (intro exI [of _ "sock # socks"]) (auto split: sum.splits)
    qed
  qed
qed

text \<open>
  When \<open>start\<close> succeeds it has one listener of the right kind per configured endpoint, in
  order, returns one address for each, and runs the cleanup loop; when an endpoint cannot be
  bound it fails before the cleanup loop, and the listeners before it go on serving.
\<close>

theorem server_start_tasks:
  assumes "server_start os (server_new cfg) = (r, s)"
  shows "\<exists>socks. length socks \<le> length (sc_listen_addrs cfg) \<and>
    (let listeners = map (\<lambda>(ep, sock). case ep_protocol ep of
           Udp \<Rightarrow> UdpListener sock | Tcp \<Rightarrow> TcpListener sock) (zip (sc_listen_addrs cfg) socks)
     in case r of
          Inl e \<Rightarrow> length socks < length (sc_listen_addrs cfg) \<and> s_tasks s = listeners
        | Inr addrs \<Rightarrow> length addrs = length (sc_listen_addrs cfg) \<and>
            length socks = length (sc_listen_addrs cfg) \<and> s_tasks s = listeners @ [ServerCleanup])"
proof -
  obtain r1 s1 where o: "open_listeners os 0 (sc_listen_addrs cfg) [] (server_new cfg) = (r1, s1)"
    by (cases "open_listeners os 0 (sc_listen_addrs cfg) [] (server_new cfg)")
  have tasks: "s_tasks (server_new cfg) = []" by (simp add: server_new_def)
  from open_listeners_result [OF o] assms o tasks show ?thesis
    by (cases r1) (auto simp: server_start_def server_new_def Let_def)
qed

theorem server_start_tasks_witness:
  "\<exists>socks. length socks = 2 \<and>
     s_tasks (snd (server_start demo_listeners (server_new demo_server_config)))
       = map (\<lambda>(ep, sock). case ep_protocol ep of
           Udp \<Rightarrow> UdpListener sock | Tcp \<Rightarrow> TcpListener sock)
           (zip (sc_listen_addrs demo_server_config) socks) @ [ServerCleanup]"
proof -
  have "fst (server_start demo_listeners (server_new demo_server_config))
      = Inr [SocketV4 0 0 0 0 8001, SocketV4 0 0 0 0 8002]"
    by code_simp
  then have r: "server_start demo_listeners (server_new demo_server_config)
      = (Inr [SocketV4 0 0 0 0 8001, SocketV4 0 0 0 0 8002],
         snd (server_start demo_listeners (server_new demo_server_config)))"
    by (simp add: prod_eq_iff)
  have len: "length (sc_listen_addrs demo_server_config) = 2"
    by (simp add: demo_server_config_def)
  from server_start_tasks [OF r] show ?thesis
    by (auto simp: Let_def len)
qed

end
