(* ===== verification/Expiry.thy ===== *)
theory Expiry
  imports Client_Props Server_Props
begin

text \<open>
  The cleanup loops of client and server (\<open>session_cleanup_loop\<close>) with the ticks of their timer,
  and how long an idle session can stay. The timer is \<open>tokio\<close>'s: a sequence of instants of which
  only the gaps are known.
\<close>

section \<open>The loops\<close>

text \<open>A loop sweeps at every tick that comes before its token is cancelled.\<close>

fun client_session_cleanup_loop :: "instant list \<Rightarrow> client \<Rightarrow> client" where
  "client_session_cleanup_loop [] c = c"
| "client_session_cleanup_loop (now # ticks) c =
     client_session_cleanup_loop ticks (cleanup_expired_sessions now c)"

fun server_session_cleanup_loop :: "instant list \<Rightarrow> server \<Rightarrow> server" where
  "server_session_cleanup_loop [] s = s"
| "server_session_cleanup_loop (now # ticks) s =
     server_session_cleanup_loop ticks (server_cleanup_expired_sessions now s)"

lemma cleanup_loops_fold:
  "client_session_cleanup_loop ticks c = fold cleanup_expired_sessions ticks c"
  "server_session_cleanup_loop ticks s = fold server_cleanup_expired_sessions ticks s"
  by (induction ticks arbitrary: c s) simp_all

section \<open>Ticks\<close>

text \<open>Ticks go on for ever and are never more than \<open>gap\<close> apart.\<close>

definition ticks_every :: "duration \<Rightarrow> (nat \<Rightarrow> instant) \<Rightarrow> bool" where
  "ticks_every gap tick \<longleftrightarrow> (\<forall>n. tick (Suc n) \<le> tick n + gap) \<and> (\<forall>t. \<exists>n. t < tick n)"

lemma first_tick_after:
  assumes "ticks_every gap tick" and "tick 0 \<le> t"
  shows "\<exists>n. (\<forall>m < n. tick m \<le> t) \<and> t < tick n \<and> tick n \<le> t + gap"
proof -
  define n where "n = (LEAST n. t < tick n)"
  from assms(1) obtain n0 where "t < tick n0" unfolding ticks_every_def by blast
  then have after: "t < tick n" unfolding n_def by (rule LeastI)
  have before: "tick m \<le> t" if "m < n" for m
    using not_less_Least [OF that [unfolded n_def]] by simp
  from after assms(2) obtain m where m: "n = Suc m" by (cases n) auto
  have "tick n \<le> tick m + gap" unfolding m using assms(1) by (simp add: ticks_every_def)
  also have "\<dots> \<le> t + gap" using before [of m] m by simp
  finally show ?thesis using after before by blast
qed

context expiring_table begin

lemma kept_through:
  assumes "find s k = Some v" and "\<forall>now \<in> set ticks. now \<le> last_activity v + timeout s"
  shows "find (fold sweep ticks s) k = Some v \<and> timeout (fold sweep ticks s) = timeout s"
  using assms
proof (induction ticks arbitrary: s)
  case Nil
  then show ?case by simp
next
  case (Cons now ticks)
  then have "find (sweep now s) k = Some v" by (intro active_survives) simp_all
  with Cons.IH [of "sweep now s"] Cons.prems(2) show ?case by (simp add: timeout_sweep)
qed

text \<open>A session stays at every tick up to its timeout and is gone at the next one.\<close>

lemma removed_in_time:
  assumes ticks: "ticks_every gap tick" and v: "find s k = Some v"
    and first: "tick 0 \<le> last_activity v + timeout s"
  shows "\<exists>n. last_activity v + timeout s < tick n \<and> tick n \<le> last_activity v + timeout s + gap \<and>
    (\<forall>m \<le> n. find (fold sweep (map tick [0..<m]) s) k = Some v) \<and>
    find (fold sweep (map tick [0..<Suc n]) s) k = None"
proof -
  from first_tick_after [OF ticks first] obtain n where
    n: "\<forall>m < n. tick m \<le> last_activity v + timeout s" "last_activity v + timeout s < tick n"
      "tick n \<le> last_activity v + timeout s + gap" by blast
  have kept: "find (fold sweep (map tick [0..<m]) s) k = Some v \<and>
      timeout (fold sweep (map tick [0..<m]) s) = timeout s" if "m \<le> n" for m
    using n(1) that by (intro kept_through [OF v]) auto
  with n(2) have "find (sweep (tick n) (fold sweep (map tick [0..<n]) s)) k = None"
    by (intro idle_removed) simp_all
  with kept n(2,3) show ?thesis by (intro exI [of _ n]) simp
qed

end

section \<open>How long an idle session stays\<close>

lemma intervals_bounded:
  "cleanup_interval timeout \<le> from_secs 10" "server_cleanup_interval timeout \<le> from_secs 10"
  by (simp_all add: cleanup_interval_def server_cleanup_interval_def from_secs_def from_millis_def)

lemma client_session_leaves_in_time:
  assumes "ticks_every (cleanup_interval (cc_session_timeout (c_cfg c)) + lag) tick"
    and "hm_get (c_udp_sessions c) a = Some us"
    and "tick 0 \<le> us_last_activity us + cc_session_timeout (c_cfg c)"
  shows "\<exists>n. us_last_activity us + cc_session_timeout (c_cfg c) < tick n \<and>
    tick n \<le> us_last_activity us + cc_session_timeout (c_cfg c) + from_secs 10 + lag \<and>
    (\<forall>m \<le> n. hm_get (c_udp_sessions (client_session_cleanup_loop (map tick [0..<m]) c)) a = Some us) \<and>
    hm_get (c_udp_sessions (client_session_cleanup_loop (map tick [0..<Suc n]) c)) a = None"
proof -
  from udp_table.removed_in_time [OF assms] obtain n where n:
    "us_last_activity us + cc_session_timeout (c_cfg c) < tick n"
    "tick n \<le> us_last_activity us + cc_session_timeout (c_cfg c) +
      (cleanup_interval (cc_session_timeout (c_cfg c)) + lag)"
    "\<forall>m \<le> n. hm_get (c_udp_sessions (fold cleanup_expired_sessions (map tick [0..<m]) c)) a = Some us"
    "hm_get (c_udp_sessions (fold cleanup_expired_sessions (map tick [0..<Suc n]) c)) a = None" by blast
  with intervals_bounded(1) [of "cc_session_timeout (c_cfg c)"] show ?thesis
    unfolding cleanup_loops_fold by (intro exI [of _ n] conjI) linarith+
qed

text \<open>
  Claim C29: an idle session leaves the server in time, and not before. If the timer of the cleanup
  loop ticks at least once in every interval plus a lag, a session that nothing refreshes outlives
  every tick up to its timeout and is removed at the first tick after it; that tick comes after the
  timeout, and at most ten seconds and the lag after it, whatever the timeout is.
\<close>

theorem server_session_leaves_in_time:
  assumes "ticks_every (server_cleanup_interval (sc_session_timeout (s_cfg s)) + lag) tick"
    and "hm_get (s_sessions s) sid = Some g"
    and "tick 0 \<le> tg_last_activity g + sc_session_timeout (s_cfg s)"
  shows "\<exists>n. tg_last_activity g + sc_session_timeout (s_cfg s) < tick n \<and>
    tick n \<le> tg_last_activity g + sc_session_timeout (s_cfg s) + from_secs 10 + lag \<and>
    (\<forall>m \<le> n. hm_get (s_sessions (server_session_cleanup_loop (map tick [0..<m]) s)) sid = Some g) \<and>
    hm_get (s_sessions (server_session_cleanup_loop (map tick [0..<Suc n]) s)) sid = None"
proof -
  from server_table.removed_in_time [OF assms] obtain n where n:
    "tg_last_activity g + sc_session_timeout (s_cfg s) < tick n"
    "tick n \<le> tg_last_activity g + sc_session_timeout (s_cfg s) +
      (server_cleanup_interval (sc_session_timeout (s_cfg s)) + lag)"
    "\<forall>m \<le> n. hm_get (s_sessions (fold server_cleanup_expired_sessions (map tick [0..<m]) s)) sid = Some g"
    "hm_get (s_sessions (fold server_cleanup_expired_sessions (map tick [0..<Suc n]) s)) sid = None" by blast
  with intervals_bounded(2) [of "sc_session_timeout (s_cfg s)"] show ?thesis
    unfolding cleanup_loops_fold by (intro exI [of _ n] conjI) linarith+
qed

text \<open>A timer that is never late, ticking every ten seconds from the start.\<close>

definition punctual :: "nat \<Rightarrow> instant" where
  "punctual n = n * from_secs 10"

theorem server_session_leaves_in_time_witness:
  "\<exists>n. 1000000000 + 60000000000 < punctual n \<and> punctual n \<le> 1000000000 + 60000000000 + from_secs 10 \<and>
    (\<forall>m \<le> n. hm_get (s_sessions (server_session_cleanup_loop (map punctual [0..<m]) after_first)) 42
       = Some first_session) \<and>
    hm_get (s_sessions (server_session_cleanup_loop (map punctual [0..<Suc n]) after_first)) 42 = None"
proof -
  have timeout: "sc_session_timeout (s_cfg after_first) = 60000000000" by code_simp
  have "t < punctual (Suc t)" for t by (simp add: punctual_def from_secs_def)
  moreover have "punctual (Suc n) \<le> punctual n + server_cleanup_interval 60000000000" for n
    by (simp add: punctual_def server_cleanup_interval_def from_secs_def from_millis_def)
  ultimately have "ticks_every (server_cleanup_interval (sc_session_timeout (s_cfg after_first)) + 0) punctual"
    unfolding ticks_every_def timeout add_0_right by blast
  from server_session_leaves_in_time [OF this after_first_session] show ?thesis
    by (simp add: timeout first_session_def punctual_def del: upt_Suc)
qed

end
