(* ===== verification/System.thy ===== *)
theory System
  imports Client_Props Server_Props
begin

text \<open>
  Client and server together: what becomes of the copies of one packet, and of one response, when
  any of them arrive, in any order, on any path, with any other events in between.
\<close>

section \<open>The outputs of some events\<close>

text \<open>What a system puts out while it handles the selected events of a sequence.\<close>

fun outputs_of ::
    "('s \<Rightarrow> 'e \<Rightarrow> bool) \<Rightarrow> ('e \<Rightarrow> 's \<Rightarrow> 'o list \<times> 's) \<Rightarrow> 'e list \<Rightarrow> 's \<Rightarrow> 'o list" where
  "outputs_of select handle [] s = []"
| "outputs_of select handle (e # es) s =
     (let (outs, s1) = handle e s
      in (if select s e then outs else []) @ outputs_of select handle es s1)"

lemma outputs_of_Cons:
  "outputs_of select handle (e # es) s =
     (if select s e then fst (handle e s) else []) @ outputs_of select handle es (snd (handle e s))"
  by (simp add: case_prod_beta)

declare outputs_of.simps(2) [simp del]

text \<open>Times that lie in an interval; events without a time are not restricted.\<close>

definition within :: "instant \<Rightarrow> duration \<Rightarrow> instant option \<Rightarrow> bool" where
  "within t d r = (case r of None \<Rightarrow> True | Some now \<Rightarrow> t \<le> now \<and> now \<le> t + d)"

section \<open>Copies of a packet at the server\<close>

text \<open>A datagram of the client arrives as it was sent, a frame as what the reader takes from the stream.\<close>

definition packet_arrives :: "client_output \<Rightarrow> server_event \<Rightarrow> bool" where
  "packet_arrives out e =
     (case out of
        UdpSend _ bs \<Rightarrow> (case e of UdpArrives _ _ _ _ data \<Rightarrow> data = bs | _ \<Rightarrow> False)
      | TcpWrite _ bs \<Rightarrow>
          (case e of
             TcpArrives _ _ _ data \<Rightarrow> fst (read_frames (stream_of bs UnexpectedEof)) = [data]
           | _ \<Rightarrow> False)
      | SendTo _ _ _ \<Rightarrow> False)"

definition brings_packet :: "client_output list \<Rightarrow> server_event \<Rightarrow> bool" where
  "brings_packet outs e = list_ex (\<lambda>out. packet_arrives out e) outs"

definition server_time :: "server_event \<Rightarrow> instant option" where
  "server_time e =
     (case e of
        UdpArrives now _ _ _ _ \<Rightarrow> Some now
      | TcpArrives now _ _ _ \<Rightarrow> Some now
      | TargetResponse now _ _ \<Rightarrow> Some now
      | ServerTick now \<Rightarrow> Some now
      | _ \<Rightarrow> None)"

definition target_opens :: "server_event \<Rightarrow> bool" where
  "target_opens e =
     (case e of
        UdpArrives _ target _ _ _ \<Rightarrow> target = TargetOpens
      | TcpArrives _ target _ _ \<Rightarrow> target = TargetOpens
      | _ \<Rightarrow> False)"

lemma datagram_packet_Some: "datagram_packet bs = Some (sid, q, pl) \<longleftrightarrow> bs = encode_udp sid q pl"
proof
  assume "datagram_packet bs = Some (sid, q, pl)"
  then have "decode_udp bs = Inr (sid, q, pl)" by (simp add: datagram_packet_def split: sum.splits)
  then show "bs = encode_udp sid q pl" by (simp add: udp.dec_iff)
qed simp

lemma frame_packet_Some:
  assumes "frame_packet bs = Some (sid, q, pl)"
  shows "fst (read_frames (stream_of bs UnexpectedEof)) = [encode_tcp sid q pl]"
  using assms
  by (auto simp: frame_packet_def tcp.dec_iff split: prod.splits list.splits loop_exit.splits sum.splits)

text \<open>The events that bring the packet \<open>(sid, q, pl)\<close>.\<close>

definition packet_event :: "u64 \<Rightarrow> u32 \<Rightarrow> bytes \<Rightarrow> server_event \<Rightarrow> bool" where
  "packet_event sid q pl e =
     (case e of
        UdpArrives _ _ _ _ data \<Rightarrow> data = encode_udp sid q pl
      | TcpArrives _ _ _ data \<Rightarrow> data = encode_tcp sid q pl
      | _ \<Rightarrow> False)"

lemma packet_arrives_event:
  "packet_arrives out e \<Longrightarrow> carried out = Some (sid, q, pl) \<Longrightarrow> packet_event sid q pl e"
  by (auto simp: packet_arrives_def packet_event_def carried_def datagram_packet_Some
      split: client_output.splits server_event.splits dest: frame_packet_Some)

lemma packet_event_handled:
  assumes "packet_event sid q pl e"
  obtains (handled) now where "server_time e = Some now"
      "packet_handled now s sid q pl (fst (server_handle e s)) (snd (server_handle e s))"
  | (no_conn) "server_handle e s = ([], s)" "\<not> server_enabled s e"
proof (cases e)
  case (UdpArrives now target sock a data)
  with assms show ?thesis
    by (intro handled [of now])
      (simp_all add: packet_event_def server_time_def server_handle_def udp_packet_handled)
next
  case (TcpArrives now target n data)
  show ?thesis
  proof (cases "hm_get (s_conns s) n")
    case None
    with TcpArrives show ?thesis by (intro no_conn) (simp_all add: server_handle_def server_enabled_def)
  next
    case (Some cid)
    with assms TcpArrives show ?thesis
      by (intro handled [of now])
        (simp_all add: packet_event_def server_time_def server_handle_def tcp_packet_handled)
  qed
qed (use assms in \<open>simp_all add: packet_event_def\<close>)

text \<open>
  A session that has been active at \<open>t\<close> stays while nothing happens later than the timeout after \<open>t\<close>.
\<close>

lemma server_handle_cfg: "s_cfg (snd (server_handle e s)) = s_cfg s"
proof -
  have admit: "s_cfg (snd (admit now target s k q)) = s_cfg s" for now target k q
    by (cases rule: get_or_create_session_cases [of s k now target]) (auto simp: admit_def)
  show ?thesis
  proof (cases e)
    case (UdpArrives now target sock a data)
    show ?thesis
      using admit by (auto simp: UdpArrives server_handle_def handle_udp_packet_eq
          split: sum.split prod.split option.split) (metis snd_conv)+
  next
    case (TcpArrives now target n data)
    show ?thesis
      using admit by (auto simp: TcpArrives server_handle_def handle_tcp_packet_eq
          split: sum.split prod.split option.split) (metis snd_conv)+
  qed (auto simp: server_handle_def send_response_state server_sweep_frame server_stop_def Let_def
         split: option.split)
qed

lemma server_session_kept:
  fixes e
  assumes g: "hm_get (s_sessions s) sid = Some g" "t \<le> tg_last_activity g"
    and e: "within t (sc_session_timeout (s_cfg s)) (server_time e)"
  defines "s' \<equiv> snd (server_handle e s)"
  shows "\<exists>g'. hm_get (s_sessions s') sid = Some g' \<and> t \<le> tg_last_activity g' \<and>
    (tg_dedup_window g' = tg_dedup_window g \<or>
     (\<exists>q. tg_dedup_window g' = snd (is_duplicate (tg_dedup_window g) q)))"
proof -
  have admit: "\<exists>g'. hm_get (s_sessions (snd (admit now target s k q))) sid = Some g' \<and>
      t \<le> tg_last_activity g' \<and>
      (tg_dedup_window g' = tg_dedup_window g \<or>
       (\<exists>q. tg_dedup_window g' = snd (is_duplicate (tg_dedup_window g) q)))" if "t \<le> now" for now target k q
    using g that by (cases rule: get_or_create_session_cases [of s k now target])
      (auto simp: admit_def)
  show ?thesis
  proof (cases e)
    case (UdpArrives now target sock a data)
    have "s_sessions s' = s_sessions s \<or>
        (\<exists>k q. s_sessions s' = s_sessions (snd (admit now target s k q)))"
      by (auto simp: s'_def server_handle_def UdpArrives handle_udp_packet_eq
          split: sum.split prod.split option.split) (metis snd_conv)+
    moreover have "t \<le> now" using e by (simp add: UdpArrives within_def server_time_def)
    ultimately show ?thesis using g admit by auto
  next
    case (TcpArrives now target n data)
    have "s_sessions s' = s_sessions s \<or>
        (\<exists>k q. s_sessions s' = s_sessions (snd (admit now target s k q)))"
      by (auto simp: s'_def server_handle_def TcpArrives handle_tcp_packet_eq
          split: sum.split prod.split option.split) (metis snd_conv)+
    moreover have "t \<le> now" using e by (simp add: TcpArrives within_def server_time_def)
    ultimately show ?thesis using g admit by auto
  next
    case (TargetResponse now n pl)
    with g e show ?thesis
      by (auto simp: s'_def server_handle_def send_response_state within_def server_time_def
          split: option.split)
  next
    case (ServerTick now)
    with g e have "now \<le> tg_last_activity g + sc_session_timeout (s_cfg s)"
      by (simp add: within_def server_time_def)
    from recent_not_expired [OF this] g ServerTick show ?thesis
      by (simp add: s'_def server_handle_def server_sweep_sessions unless_expired_def)
  qed (use g in \<open>simp_all add: s'_def server_handle_def server_stop_def Let_def split: option.split\<close>)
qed

text \<open>Copies of a packet that has been seen do nothing.\<close>

lemma copies_dropped:
  assumes "server_inv s" and "hm_get (s_sessions s) sid = Some g" and "t \<le> tg_last_activity g"
    and "q \<in> dw_refused (tg_dedup_window g)"
    and "list_all (\<lambda>e. within t (sc_session_timeout (s_cfg s)) (server_time e)) es"
    and sel: "\<And>e. select e \<Longrightarrow> packet_event sid q pl e"
  shows "outputs_of (\<lambda>_. select) server_handle es s = []"
  using assms(1-5)
proof (induction es arbitrary: s g)
  case Nil
  then show ?case by simp
next
  case (Cons e es)
  have inv: "dw_inv (tg_dedup_window g)"
    using sess_invD(2) [OF _ Cons.prems(2)] Cons.prems(1) by (simp add: server_inv_def)
  from server_session_kept [OF Cons.prems(2,3), of e] Cons.prems(5) obtain g' where
    g': "hm_get (s_sessions (snd (server_handle e s))) sid = Some g'" "t \<le> tg_last_activity g'"
      "tg_dedup_window g' = tg_dedup_window g \<or>
       (\<exists>q. tg_dedup_window g' = snd (is_duplicate (tg_dedup_window g) q))" by auto
  from g'(3) Cons.prems(4) subsetD [OF dw.refused_grows [OF inv] Cons.prems(4)] have "q \<in> dw_refused (tg_dedup_window g')" by auto
  with Cons.IH [OF server_inv_handle [OF Cons.prems(1)] g'(1,2)] Cons.prems(5)
  have "outputs_of (\<lambda>_. select) server_handle es (snd (server_handle e s)) = []"
    by (simp add: server_handle_cfg)
  moreover have "fst (server_handle e s) = []" if "select e"
    using sel [OF that]
  proof (cases rule: packet_event_handled [where s = s])
    case (handled now)
    have "fst (is_duplicate (tg_dedup_window g) q)" using Cons.prems(4) inv by (simp add: dw.verdict)
    from duplicate_handled [OF Cons.prems(2) this handled(2)] show ?thesis by simp
  next
    case no_conn
    then show ?thesis by simp
  qed
  ultimately show ?case by (simp add: outputs_of_Cons)
qed

text \<open>Whether the server would take the packet as new.\<close>

definition is_new :: "server \<Rightarrow> u64 \<Rightarrow> u32 \<Rightarrow> bool" where
  "is_new s sid q =
     (case hm_get (s_sessions s) sid of
        None \<Rightarrow> True
      | Some g \<Rightarrow> \<not> fst (is_duplicate (tg_dedup_window g) q))"

lemma dedup_window_new_admits: "\<not> fst (is_duplicate (dedup_window_new n) q)"
  by (simp add: is_duplicate_def dedup_window_new_def)

lemma admit_opens:
  assumes "hm_get (s_sessions s) sid = None"
  shows "\<exists>n u g. admit t TargetOpens s sid q = (Some (n, False), u) \<and>
    hm_get (s_sessions u) sid = Some g \<and> tg_response_seq g = 0"
  using assms
  by (cases rule: get_or_create_session_cases [of s sid t TargetOpens])
    (auto simp: admit_def dedup_window_new_admits)

lemma add_udp_path_not_empty:
  "\<exists>ps. hm_get (s_client_paths (add_udp_path s sid b sock)) sid = Some ps \<and> ps \<noteq> []"
proof (cases "update_udp_path b sock (unwrap_or (hm_get (s_client_paths s) sid) [])")
  case None
  then show ?thesis by (simp add: add_udp_path_def)
next
  case (Some ps)
  with update_udp_path_Some [OF Some] show ?thesis by (auto simp: add_udp_path_def)
qed

lemma first_copy_forwarded:
  assumes inv: "server_inv s" and new: "is_new s sid q" and "packet_event sid q pl e"
    and "server_enabled s e" and "server_time e = Some t"
    and "hm_get (s_sessions s) sid \<noteq> None \<or> target_opens e"
  shows "\<exists>n g. fst (server_handle e s) = [TargetSend n pl] \<and>
    hm_get (s_sessions (snd (server_handle e s))) sid = Some g \<and> tg_last_activity g = t \<and>
    q \<in> dw_refused (tg_dedup_window g)"
proof -
  define target where "target = (case e of UdpArrives _ target _ _ _ \<Rightarrow> target | TcpArrives _ target _ _ \<Rightarrow> target | _ \<Rightarrow> TargetOpens)"
  have opens: "hm_get (s_sessions s) sid \<noteq> None \<or> target = TargetOpens"
    using assms(6) by (auto simp: target_def target_opens_def split: server_event.splits)
  have "\<exists>n u g. admit t target s sid q = (Some (n, False), u) \<and>
      hm_get (s_sessions u) sid = Some g \<and> tg_last_activity g = t"
    using new opens
    by (cases rule: get_or_create_session_cases [of s sid t target])
      (auto simp: admit_def is_new_def dedup_window_new_admits)
  then obtain n u g where admit: "admit t target s sid q = (Some (n, False), u)"
    and g: "hm_get (s_sessions u) sid = Some g" "tg_last_activity g = t" by blast
  have outs: "fst (server_handle e s) = [TargetSend n pl] \<and>
      s_sessions (snd (server_handle e s)) = s_sessions u"
  proof (cases e)
    case (UdpArrives now target' sock a data)
    with assms(3,5) admit show ?thesis
      by (simp add: target_def packet_event_def server_time_def server_handle_def handle_udp_packet_eq udp.dec_enc)
  next
    case (TcpArrives now target' m data)
    with assms(4) obtain cid where "hm_get (s_conns s) m = Some cid" by (auto simp: server_enabled_def)
    with TcpArrives assms(3,5) admit show ?thesis
      by (simp add: target_def packet_event_def server_time_def server_handle_def handle_tcp_packet_eq tcp.dec_enc)
  qed (use assms(3) in \<open>simp_all add: packet_event_def\<close>)
  from admit_refused [OF inv admit] g outs show ?thesis by auto
qed

lemma handle_packet_carried:
  assumes "handle_packet now r connects c a pl = (outs, c')"
  shows "\<exists>us. hm_get (c_udp_sessions c') a = Some us \<and>
    (\<forall>out \<in> set outs. carried out = Some (us_session_id us, us_seq us - 1, pl))"
proof -
  from handle_packet_parts [where now = now and r = r and c = c and a = a and pl = pl
      and connects = connects] assms obtain us :: udp_session and c2 :: client where
    "hm_get (c_udp_sessions c') a = Some us"
    "outs = map (\<lambda>sock. UdpSend sock (encode_udp (us_session_id us) (us_seq us - 1) pl))
         (c_udp_senders c) @
       fst (tcp_transport_loop now connects a (us_session_id us) (us_seq us - 1) pl 0
              (cc_servers (c_cfg c)) c2)"
    by auto
  then show ?thesis by (auto simp: carried_udp dest: tcp_loop_outputs)
qed

section \<open>Copies of a response at the client\<close>

text \<open>
  A datagram of the server arrives as it was sent; a frame arrives on a connection whose reader was
  started for source \<open>a\<close>.
\<close>

definition response_arrives :: "client \<Rightarrow> socket_addr \<Rightarrow> server_output \<Rightarrow> client_event \<Rightarrow> bool" where
  "response_arrives c a out e =
     (case out of
        ClientSend _ bs _ \<Rightarrow> (case e of UdpResponse _ _ data \<Rightarrow> data = bs | _ \<Rightarrow> False)
      | ClientWrite _ bs \<Rightarrow>
          (case e of
             TcpResponse _ n data \<Rightarrow>
               reader_source c n = Some a \<and> fst (read_frames (stream_of bs UnexpectedEof)) = [data]
           | _ \<Rightarrow> False)
      | TargetSend _ _ \<Rightarrow> False)"

definition brings_response :: "client \<Rightarrow> socket_addr \<Rightarrow> server_output list \<Rightarrow> client_event \<Rightarrow> bool" where
  "brings_response c a outs e = list_ex (\<lambda>out. response_arrives c a out e) outs"

definition client_time :: "client_event \<Rightarrow> instant option" where
  "client_time e =
     (case e of
        Packet now _ _ _ _ \<Rightarrow> Some now
      | UdpResponse now _ _ \<Rightarrow> Some now
      | TcpResponse now _ _ \<Rightarrow> Some now
      | CleanupTick now \<Rightarrow> Some now
      | _ \<Rightarrow> None)"

lemma response_copy_delivered:
  assumes "response_arrives c a out e" and "response_carried out = Some (sid, q, pl)"
    and "hm_get (c_udp_session_addrs c) sid = Some a"
  shows "\<exists>now. client_time e = Some now \<and> client_handle e c = deliver now c a q pl"
proof (cases out)
  case (TargetSend n bs)
  with assms(1) show ?thesis by (simp add: response_arrives_def)
next
  case (ClientSend sock bs b)
  with assms(2) have "bs = encode_udp sid q pl"
    by (simp add: response_carried_def datagram_packet_Some)
  with ClientSend assms(1,3) show ?thesis
    by (auto simp: response_arrives_def client_time_def udp_copy_delivered split: client_event.splits)
next
  case (ClientWrite w bs)
  with assms(2) have "fst (read_frames (stream_of bs UnexpectedEof)) = [encode_tcp sid q pl]"
    by (simp add: response_carried_def frame_packet_Some)
  with ClientWrite assms(1) show ?thesis
    by (auto simp: response_arrives_def client_time_def tcp_copy_delivered split: client_event.splits)
qed

text \<open>
  A session that has been active at \<open>t\<close> stays while nothing happens later than the timeout after \<open>t\<close>.
\<close>

lemma client_session_kept:
  fixes e
  assumes s: "hm_get (c_udp_sessions c) a = Some s" "t \<le> us_last_activity s"
    and e: "within t (cc_session_timeout (c_cfg c)) (client_time e)"
  defines "c' \<equiv> snd (client_handle e c)"
  shows "\<exists>s'. hm_get (c_udp_sessions c') a = Some s' \<and> us_session_id s' = us_session_id s \<and>
    t \<le> us_last_activity s' \<and>
    (us_response_dedup s' = us_response_dedup s \<or>
     (\<exists>q. us_response_dedup s' = snd (response_is_duplicate (us_response_dedup s) q)))"
proof -
  have deliver: "\<exists>s'. hm_get (c_udp_sessions (snd (deliver now c b q pl))) a = Some s' \<and>
      us_session_id s' = us_session_id s \<and> t \<le> us_last_activity s' \<and>
      (us_response_dedup s' = us_response_dedup s \<or>
       (\<exists>q. us_response_dedup s' = snd (response_is_duplicate (us_response_dedup s) q)))"
    if "t \<le> now" for now b q pl
    using s that by (cases "b = a") (auto simp: deliver_sessions case_prod_beta split: option.split)
  show ?thesis
  proof (cases e)
    case (Packet now r connects b pl)
    with e have "t \<le> now" by (simp add: within_def client_time_def)
    show ?thesis
    proof (cases "b = a")
      case True
      with s Packet \<open>t \<le> now\<close> show ?thesis
        by (simp add: c'_def client_handle_def handle_packet_sessions get_or_create_udp_session_known)
    next
      case False
      with s Packet show ?thesis
        by (simp add: c'_def client_handle_def handle_packet_sessions case_prod_beta get_or_create_other)
    qed
  next
    case (UdpResponse now sock data)
    with e have "t \<le> now" by (simp add: within_def client_time_def)
    with s deliver UdpResponse show ?thesis
      by (simp add: c'_def client_handle_def process_udp_response_eq split: sum.split option.split)
  next
    case (TcpResponse now n data)
    with e have "t \<le> now" by (simp add: within_def client_time_def)
    with s deliver TcpResponse show ?thesis
      by (simp add: c'_def client_handle_def process_tcp_response_eq split: sum.split option.split)
  next
    case (CleanupTick now)
    with s e have "now \<le> us_last_activity s + cc_session_timeout (c_cfg c)"
      by (simp add: within_def client_time_def)
    from recent_not_expired [OF this] s CleanupTick show ?thesis
      by (simp add: c'_def client_handle_def sweep_udp_sessions unless_expired_def)
  qed (use s in \<open>simp_all add: c'_def client_handle_def end_reader_def client_stop_def
         cleanup_tcp_session_frame split: option.split\<close>)
qed

lemma deliver_refused:
  assumes "hm_get (c_udp_sessions c) a = Some us"
    and "fst (response_is_duplicate (us_response_dedup us) q)"
  shows "fst (deliver now c a q pl) = []"
    and "hm_get (c_udp_sessions (snd (deliver now c a q pl))) a = Some us"
  using assms rw.duplicate_stable [OF assms(2)]
  by (simp_all add: deliver_def Let_def)

lemma response_copies_dropped:
  assumes "ids_inv base m c" and "m + length es \<le> event_limit"
    and "hm_get (c_udp_sessions c) a = Some us" and "us_session_id us = sid" and "t \<le> us_last_activity us"
    and "q \<in> rw_refused (us_response_dedup us)"
    and "list_all (\<lambda>e. within t (cc_session_timeout (c_cfg c)) (client_time e)) es"
    and outs: "\<And>out. out \<in> set outs \<Longrightarrow> response_carried out = Some (sid, q, pl)"
  shows "outputs_of (\<lambda>c. brings_response c a outs) client_handle es c = []"
  using assms(1-7)
proof (induction es arbitrary: c us m)
  case Nil
  then show ?case by simp
next
  case (Cons e es)
  have m: "m < event_limit" "Suc m + length es \<le> event_limit" using Cons.prems(2) by simp_all
  have us: "rw_inv (us_response_dedup us)" "hm_get (c_udp_session_addrs c) sid = Some a"
    using ids_invD(1) [OF Cons.prems(1,3)] Cons.prems(4) by (simp_all add: session_ok_def)
  from client_session_kept [OF Cons.prems(3,5), of e] Cons.prems(4,7) obtain us' where
    us': "hm_get (c_udp_sessions (snd (client_handle e c))) a = Some us'" "us_session_id us' = sid"
      "t \<le> us_last_activity us'"
      "us_response_dedup us' = us_response_dedup us \<or>
       (\<exists>q. us_response_dedup us' = snd (response_is_duplicate (us_response_dedup us) q))" by auto
  from us'(4) Cons.prems(6) subsetD [OF rw.refused_grows [OF us(1)] Cons.prems(6)] have "q \<in> rw_refused (us_response_dedup us')" by auto
  with Cons.IH [OF ids_inv_handle [OF Cons.prems(1) m(1)] m(2) us'(1-3)] Cons.prems(7)
  have "outputs_of (\<lambda>c. brings_response c a outs) client_handle es (snd (client_handle e c)) = []"
    by (simp add: client_handle_cfg)
  moreover have "fst (client_handle e c) = []" if brings: "brings_response c a outs e"
  proof -
    from brings obtain out where "out \<in> set outs" "response_arrives c a out e"
      by (auto simp: brings_response_def list_ex_iff)
    with response_copy_delivered [OF _ outs us(2)] obtain now where "client_handle e c = deliver now c a q pl"
      by blast
    moreover have "fst (response_is_duplicate (us_response_dedup us) q)"
      using Cons.prems(6) us(1) by (simp add: rw.verdict)
    ultimately show ?thesis using deliver_refused(1) [OF Cons.prems(3)] by simp
  qed
  ultimately show ?case by (simp add: outputs_of_Cons)
qed

lemma first_response_delivered:
  assumes "hm_get (c_udp_sessions c) a = Some us" and "session_ok us"
    and "\<not> fst (response_is_duplicate (us_response_dedup us) q)" and "c_listener c = Some l"
  shows "fst (deliver now c a q pl) = [SendTo l pl a] \<and>
    (\<exists>us'. hm_get (c_udp_sessions (snd (deliver now c a q pl))) a = Some us' \<and>
       us_session_id us' = us_session_id us \<and> us_last_activity us' = now \<and>
       q \<in> rw_refused (us_response_dedup us'))"
proof -
  have "rw_inv (us_response_dedup us)" using assms(2) by (simp add: session_ok_def)
  with assms show ?thesis by (simp add: deliver_def Let_def rw.checked_refused)
qed

lemma send_response_outputs:
  assumes "hm_get (s_sessions s) sid = Some g" and "length pl \<le> 65523"
    and "out \<in> set (fst (send_response_to_all_paths now s sid pl))"
  shows "response_carried out = Some (sid, tg_response_seq g, pl)"
proof -
  from assms(1,3) obtain p where "out = response_on_path sid (tg_response_seq g) pl p"
    by (auto simp: send_response_to_all_paths_def Let_def split: option.splits if_splits)
  with assms(2) show ?thesis
    by (cases p) (simp_all add: response_carried_def response_on_path_def frame_packet_frame
        flip: payload_fits)
qed

end
