(* ===== verification/Client_Async_Live.thy ===== *)
theory Client_Async_Live
  imports Client_Async_Correct
begin

text \<open>
  The interleaved client is a \<open>task_system\<close>: its handlers come to an end however they interleave,
  and its two locks exclude without keeping all tasks from going on.
\<close>

section \<open>What is left to do\<close>

text \<open>
  All work but the scan of the TCP sessions is bounded by what the handler holds, the number of
  senders and the number of servers; the scan counts only after its lock is taken.
\<close>

definition client_work :: "client \<Rightarrow> client_handler \<Rightarrow> nat" where
  "client_work c h =
     (let packet = length (c_udp_senders c) + 6 * length (cc_servers (c_cfg c)) in
      case h of
        FindSession _ _ \<Rightarrow> packet + 7 | NewSession _ _ \<Rightarrow> packet + 6 | AddSource _ _ \<Rightarrow> packet + 5
      | TakeNumber _ _ \<Rightarrow> packet + 4 | TouchSession _ _ _ \<Rightarrow> packet + 3
      | SendUdp _ _ _ senders \<Rightarrow> length senders + 6 * length (cc_servers (c_cfg c)) + 2
      | FindTcp _ _ _ eps \<Rightarrow> 6 * length eps + 1 | NewTcp _ _ _ _ eps \<Rightarrow> 6 * length eps + 6
      | OpenTcp _ _ _ _ eps \<Rightarrow> 6 * length eps + 5 | TouchTcp _ _ _ _ eps \<Rightarrow> 6 * length eps + 4
      | WriteTcp _ _ _ _ eps \<Rightarrow> 6 * length eps + 3
      | FindSource _ _ _ \<Rightarrow> 5 | FindReceiver _ _ _ \<Rightarrow> 4 | CheckResponse _ _ _ _ \<Rightarrow> 3
      | TouchReceiver _ _ _ \<Rightarrow> 2 | Deliver _ _ \<Rightarrow> 1 | CloseTcp _ \<Rightarrow> 1
      | ScanUdp _ todo dead \<Rightarrow> 3 * length todo + 2 * length dead + 4
      | SweepUdp _ dead \<Rightarrow> 2 * length dead + 3 | SweepSource _ _ dead \<Rightarrow> 2 * length dead + 4
      | LockTcp _ \<Rightarrow> 1 | ScanTcp _ _ _ \<Rightarrow> 0)"

definition tcp_scan_work :: "client_handler \<Rightarrow> nat" where
  "tcp_scan_work h = (case h of ScanTcp _ todo _ \<Rightarrow> Suc (length todo) | _ \<Rightarrow> 0)"

definition client_measures :: "async_client \<Rightarrow> nat \<times> nat" where
  "client_measures s =
     (total (client_work (ca_base s)) (hm_get (ca_pending s)), total tcp_scan_work (hm_get (ca_pending s)))"

lemma client_step_frame:
  assumes "client_step w now random connected h s = (os, s')"
  shows "c_cfg (ca_base s') = c_cfg (ca_base s) \<and> c_udp_senders (ca_base s') = c_udp_senders (ca_base s) \<and>
    c_listener (ca_base s') = c_listener (ca_base s)"
proof (cases h)
  case (SendUdp k q pl senders)
  with assms show ?thesis by (cases senders) (auto simp: client_step_defs split: option.splits)
next
  case (FindTcp k q pl eps)
  with assms show ?thesis by (cases eps) (auto simp: client_step_defs split: option.splits if_splits)
next
  case (ScanUdp t todo dead)
  with assms show ?thesis by (cases todo) (auto simp: client_step_defs Let_def)
next
  case (SweepUdp t dead)
  with assms show ?thesis by (cases dead) (auto simp: client_step_defs)
next
  case (ScanTcp t todo dead)
  with assms show ?thesis by (cases todo) (auto simp: client_step_defs Let_def)
next
  case (CloseTcp key)
  with assms show ?thesis by (cases w) (auto simp: client_step_defs Let_def)
next
  case (NewSession a pl)
  with assms show ?thesis
    by (cases "c_session_id_counter (ca_base s) + 1 = 0")
      (auto simp: client_step_defs Let_def split: option.splits)
qed (use assms in \<open>auto simp: client_step_defs Let_def case_prod_beta split: option.splits if_splits\<close>)

lemma client_work_same:
  assumes "c_cfg c' = c_cfg c" and "c_udp_senders c' = c_udp_senders c"
  shows "client_work c' = client_work c"
proof
  fix h
  show "client_work c' h = client_work c h"
    by (cases h) (simp_all add: client_work_def Let_def assms)
qed

text \<open>What a step does to its task: the next place has less to do, and a lock it holds was free.\<close>

definition advances :: "client \<Rightarrow> client_handler \<Rightarrow> client_handler option \<Rightarrow> bool" where
  "advances c h h' \<longleftrightarrow>
     (case h' of None \<Rightarrow> 0 < client_work c h \<or> 0 < tcp_scan_work h
      | Some k \<Rightarrow>
          (client_work c k < client_work c h \<or>
           client_work c k = client_work c h \<and> tcp_scan_work k < tcp_scan_work h) \<and>
          (\<forall>l. client_holds k l \<longrightarrow> client_holds h l \<or> client_needs h l))"

lemmas advances_defs =
  client_step_defs advances_def client_work_def tcp_scan_work_def client_holds_def client_needs_def

lemma client_step_moves:
  assumes h: "hm_get (ca_pending s) w = Some h"
    and step: "client_step w now random connected h s = (os, s')"
  shows "\<exists>h'. hm_get (ca_pending s') = (hm_get (ca_pending s))(w := h') \<and> advances (ca_base s) h h'"
proof -
  define h' where "h' = hm_get (ca_pending s') w"
  have "hm_get (ca_pending s') = (hm_get (ca_pending s))(w := h') \<and> advances (ca_base s) h h'"
    unfolding h'_def
  proof (cases h)
    case (SendUdp k q pl senders)
    with step show "hm_get (ca_pending s') = (hm_get (ca_pending s))(w := hm_get (ca_pending s') w) \<and>
        advances (ca_base s) h (hm_get (ca_pending s') w)"
      by (cases senders) (auto simp: advances_defs split: option.splits)
  next
    case (FindTcp k q pl eps)
    with step show "hm_get (ca_pending s') = (hm_get (ca_pending s))(w := hm_get (ca_pending s') w) \<and>
        advances (ca_base s) h (hm_get (ca_pending s') w)"
      by (cases eps) (auto simp: advances_defs split: option.splits if_splits)
  next
    case (ScanUdp t todo dead)
    with step show "hm_get (ca_pending s') = (hm_get (ca_pending s))(w := hm_get (ca_pending s') w) \<and>
        advances (ca_base s) h (hm_get (ca_pending s') w)"
      by (cases todo) (auto simp: advances_defs Let_def split: option.splits)
  next
    case (SweepUdp t dead)
    with step show "hm_get (ca_pending s') = (hm_get (ca_pending s))(w := hm_get (ca_pending s') w) \<and>
        advances (ca_base s) h (hm_get (ca_pending s') w)"
      by (cases dead) (auto simp: advances_defs)
  next
    case (ScanTcp t todo dead)
    with step show "hm_get (ca_pending s') = (hm_get (ca_pending s))(w := hm_get (ca_pending s') w) \<and>
        advances (ca_base s) h (hm_get (ca_pending s') w)"
      by (cases todo) (auto simp: advances_defs Let_def)
  next
    case (CloseTcp key)
    with step show "hm_get (ca_pending s') = (hm_get (ca_pending s))(w := hm_get (ca_pending s') w) \<and>
        advances (ca_base s) h (hm_get (ca_pending s') w)"
      by (cases w) (auto simp: advances_defs Let_def)
  next
    case (NewSession a pl)
    with step show "hm_get (ca_pending s') = (hm_get (ca_pending s))(w := hm_get (ca_pending s') w) \<and>
        advances (ca_base s) h (hm_get (ca_pending s') w)"
      by (cases "c_session_id_counter (ca_base s) + 1 = 0")
        (auto simp: advances_defs Let_def split: option.splits)
  qed (use step in \<open>auto simp: advances_defs Let_def case_prod_beta split: option.splits if_splits\<close>)
  then show ?thesis by blast
qed

section \<open>The contract holds\<close>

abbreviation client_busy :: "async_client \<Rightarrow> client_worker \<Rightarrow> client_handler option" where
  "client_busy s \<equiv> hm_get (ca_pending s)"

abbreviation client_step_of :: "client_worker \<Rightarrow> instant \<times> u32 \<times> bool \<Rightarrow> client_async_event" where
  "client_step_of w i \<equiv> Advance w (fst i) (fst (snd i)) (snd (snd i))"

lemma locked_client: "locked client_busy client_holds s l \<longleftrightarrow> client_locked s l"
  by (simp add: locked_def client_locked_iff)

lemma client_holder_goes_on: "client_holds h l \<Longrightarrow> \<not> client_needs h m"
  by (cases h) (simp_all add: client_holds_def client_needs_def)

lemma advance_enabled:
  "client_async_enabled s (Advance w now random connected) \<longleftrightarrow>
     (\<exists>h. client_busy s w = Some h \<and> (\<forall>l. client_needs h l \<longrightarrow> \<not> client_locked s l))"
proof -
  have "(\<forall>l. P l) \<longleftrightarrow> P UdpSessions \<and> P TcpSessions" for P :: "client_lock \<Rightarrow> bool"
    by (metis (full_types) client_lock.exhaust)
  then show ?thesis by (simp add: client_async_enabled_def split: option.split)
qed

lemma client_measures_decrease:
  assumes "client_async_enabled s (Advance w now random connected)"
  shows "(client_measures (snd (client_async_handle (Advance w now random connected) s)), client_measures s)
    \<in> less_than <*lex*> less_than"
proof -
  from assms obtain h where h: "client_busy s w = Some h" by (auto simp: advance_enabled)
  obtain os s' where step: "client_step w now random connected h s = (os, s')"
    by (cases "client_step w now random connected h s")
  from client_step_moves [OF h step] obtain h' where
    h': "client_busy s' = (client_busy s)(w := h')" "advances (ca_base s) h h'" by blast
  have fin: "finite (dom (client_busy s))" by simp
  have work: "client_work (ca_base s') = client_work (ca_base s)"
    using client_step_frame [OF step] by (intro client_work_same) simp_all
  note tw = total_update [OF fin h, of "client_work (ca_base s)" h']
  note ts = total_update [OF fin h, of tcp_scan_work h']
  have "(client_measures s', client_measures s) \<in> less_than <*lex*> less_than"
    using tw ts h'(2) unfolding client_measures_def work h'(1)
    by (cases h') (auto simp: advances_def)
  with step h show ?thesis by (simp add: client_async_handle_def)
qed

lemma begin_moves:
  assumes enabled: "client_async_enabled s (Begin e)"
  shows "\<exists>w. moves client_busy client_holds s w (begin_handler e s)"
proof -
  from begin_handler_began [OF enabled] consider
      "client_busy (begin_handler e s) = client_busy s"
    | w h where "client_busy s w = None" "client_busy (begin_handler e s) = (client_busy s)(w \<mapsto> h)"
    unfolding began_def by blast
  then show ?thesis
  proof cases
    case 1
    then show ?thesis by (auto simp: moves_def)
  next
    case (2 w h)
    have "\<not> client_locked s l" if holds: "client_holds h l" for l
    proof -
      have "client_busy (begin_handler e s) w = Some h" using 2(2) by simp
      with 2(1) holds have "(\<exists>t. e = CleanupTick t) \<and> l = UdpSessions"
        by (cases e) (auto simp: begin_handler_def Let_def client_holds_def split: sum.splits option.splits if_splits)
      with enabled show ?thesis by (auto simp: client_async_enabled_def)
    qed
    with 2 show ?thesis by (intro exI [of _ w]) (auto simp: moves_def locked_client)
  qed
qed

lemma client_async_moves:
  assumes "client_async_enabled s ev"
  shows "\<exists>w. moves client_busy client_holds s w (snd (client_async_handle ev s))"
proof (cases ev)
  case (Begin e)
  with begin_moves assms show ?thesis by (simp add: client_async_handle_def)
next
  case (Advance w now random connected)
  with assms obtain h where h: "client_busy s w = Some h"
      and free: "\<And>l. client_needs h l \<Longrightarrow> \<not> client_locked s l"
    by (auto simp: advance_enabled)
  obtain os s' where step: "client_step w now random connected h s = (os, s')"
    by (cases "client_step w now random connected h s")
  from client_step_moves [OF h step] obtain h' where
    h': "client_busy s' = (client_busy s)(w := h')" "advances (ca_base s) h h'" by blast
  have "\<exists>k. client_busy s w = Some k \<and> client_holds k l \<or> \<not> client_locked s l"
    if "h' = Some k'" "client_holds k' l" for k' l
    using h'(2) that h free [of l] unfolding advances_def by auto
  with h h'(1) step Advance show ?thesis
    by (intro exI [of _ w]) (auto simp: client_async_handle_def moves_def locked_client)
qed

interpretation client_tasks: task_system client_async_enabled client_async_handle client_busy
  client_step_of client_holds client_needs client_measures
proof (unfold_locales, goal_cases)
  case (1 s w i)
  show ?case by (simp add: advance_enabled locked_client)
next
  case (2 s w i)
  then show ?case by (rule client_measures_decrease)
next
  case (3 h l m)
  then show ?case by (rule client_holder_goes_on)
next
  case (4 s e)
  then show ?case by (rule client_async_moves)
qed

lemma client_reachable_exclusive:
  assumes "client_async_run (client_async_started r cfg os) es outs s"
  shows "exclusive client_busy client_holds s"
  by (rule client_tasks.exclusive_along [OF assms])
    (simp add: exclusive_def client_async_started_def client_async_new_def)

end
