(* ===== verification/Client_Async_Maps.thy ===== *)
theory Client_Async_Maps
  imports Client_Async_Live
begin

text \<open>
  The two maps of the interleaved client, from sources to sessions and from identifiers to
  sources. They are changed one after the other, so they disagree in between; whenever the lock
  of \<open>udp_sessions\<close> is free they are inverse to each other.
\<close>

section \<open>The invariant\<close>

text \<open>What the holder of the lock knows of the maps.\<close>

definition listed :: "('a \<Rightarrow> 'k option) \<Rightarrow> ('k \<Rightarrow> 'i option) \<Rightarrow> ('a \<times> 'i) list \<Rightarrow> bool" where
  "listed sess ids dead \<longleftrightarrow>
     distinct (map fst dead) \<and> (\<forall>(a, sid) \<in> set dead. \<exists>k. sess a = Some k \<and> ids k = Some sid)"

definition holder_ok ::
    "(socket_addr \<Rightarrow> session_name option) \<Rightarrow> (session_name \<Rightarrow> u64 option) \<Rightarrow> client_handler \<Rightarrow> bool" where
  "holder_ok sess ids h =
     (case h of
        AddSource k pl \<Rightarrow> sess (fst k) = Some k
      | ScanUdp t todo dead \<Rightarrow>
          distinct (map fst dead @ map fst todo) \<and> listed sess ids dead \<and>
          (\<forall>(a, k) \<in> set todo. sess a = Some k)
      | SweepUdp t dead \<Rightarrow> listed sess ids dead
      | SweepSource t sid dead \<Rightarrow>
          listed sess ids dead \<and> (\<forall>a k. sess a = Some k \<longrightarrow> ids k \<noteq> Some sid)
      | _ \<Rightarrow> True)"

text \<open>An entry that is missing from the second map, or still there, is the lock holder's business.\<close>

definition to_add :: "session_name \<Rightarrow> client_handler \<Rightarrow> bool" where
  "to_add k h = (case h of AddSource j pl \<Rightarrow> j = k | _ \<Rightarrow> False)"

definition to_drop :: "u64 \<Rightarrow> client_handler \<Rightarrow> bool" where
  "to_drop sid h = (case h of SweepSource t i dead \<Rightarrow> i = sid | _ \<Rightarrow> False)"

definition maps_inv ::
    "(socket_addr \<Rightarrow> session_name option) \<Rightarrow> (u64 \<Rightarrow> socket_addr option) \<Rightarrow> (session_name \<Rightarrow> u64 option)
       \<Rightarrow> (client_worker \<Rightarrow> client_handler option) \<Rightarrow> bool" where
  "maps_inv sess addrs ids busy \<longleftrightarrow>
     (\<forall>a k sid. sess a = Some k \<and> ids k = Some sid \<longrightarrow>
        addrs sid = Some a \<or> tasks_at busy (to_add k) \<noteq> {}) \<and>
     (\<forall>sid a. addrs sid = Some a \<longrightarrow>
        (\<exists>k. sess a = Some k \<and> ids k = Some sid) \<or> tasks_at busy (to_drop sid) \<noteq> {}) \<and>
     (\<forall>w h. busy w = Some h \<longrightarrow> holder_ok sess ids h)"

abbreviation client_maps_inv :: "async_client \<Rightarrow> bool" where
  "client_maps_inv s \<equiv>
     maps_inv (hm_get (ca_udp_sessions s)) (hm_get (c_udp_session_addrs (ca_base s)))
       (id_in (session_view s)) (client_busy s)"

lemma maps_invD:
  assumes "maps_inv sess addrs ids busy"
  shows "sess a = Some k \<Longrightarrow> ids k = Some sid \<Longrightarrow> addrs sid = Some a \<or> tasks_at busy (to_add k) \<noteq> {}"
    and "addrs sid = Some a \<Longrightarrow>
      (\<exists>k. sess a = Some k \<and> ids k = Some sid) \<or> tasks_at busy (to_drop sid) \<noteq> {}"
    and "busy w = Some h \<Longrightarrow> holder_ok sess ids h"
  using assms unfolding maps_inv_def by blast+

text \<open>Only a holder of the lock has anything to do with the maps.\<close>

definition about_maps :: "client_handler \<Rightarrow> bool" where
  "about_maps h =
     (case h of AddSource _ _ \<Rightarrow> True | ScanUdp _ _ _ \<Rightarrow> True | SweepUdp _ _ \<Rightarrow> True
      | SweepSource _ _ _ \<Rightarrow> True | _ \<Rightarrow> False)"

lemma about_maps_holds: "about_maps h \<longleftrightarrow> client_holds h UdpSessions"
  by (cases h) (simp_all add: about_maps_def client_holds_def)

lemma not_about_maps:
  assumes "\<not> about_maps h"
  shows "holder_ok sess ids h" "\<not> to_add k h" "\<not> to_drop sid h"
  using assms by (cases h; simp add: about_maps_def holder_ok_def to_add_def to_drop_def)+

lemma tasks_at_other:
  assumes "busy w = Some h" and "\<not> P h"
  shows "tasks_at busy P \<noteq> {} \<Longrightarrow> tasks_at (busy(w := h')) P \<noteq> {}"
proof -
  assume "tasks_at busy P \<noteq> {}"
  then obtain v k where "busy v = Some k" "P k" by (auto simp: tasks_at_def)
  moreover from this assms have "v \<noteq> w" by auto
  ultimately have "v \<in> tasks_at (busy(w := h')) P" by (simp add: tasks_at_def)
  then show ?thesis by blast
qed

text \<open>A step that leaves both maps alone.\<close>

lemma maps_inv_same:
  assumes inv: "maps_inv sess addrs ids busy" and h: "busy w = Some h"
    and "\<And>k. \<not> to_add k h" and "\<And>sid. \<not> to_drop sid h"
    and h': "\<And>g. h' = Some g \<Longrightarrow> holder_ok sess ids g"
  shows "maps_inv sess addrs ids (busy(w := h'))"
proof -
  have "addrs sid = Some a \<or> tasks_at (busy(w := h')) (to_add k) \<noteq> {}"
    if "sess a = Some k" "ids k = Some sid" for a k sid
    using maps_invD(1) [OF inv that] tasks_at_other [of busy w h "to_add k" h'] h assms(3) by blast
  moreover have "(\<exists>k. sess a = Some k \<and> ids k = Some sid) \<or> tasks_at (busy(w := h')) (to_drop sid) \<noteq> {}"
    if "addrs sid = Some a" for a sid
    using maps_invD(2) [OF inv that] tasks_at_other [of busy w h "to_drop sid" h'] h assms(4) by blast
  moreover have "holder_ok sess ids g" if "(busy(w := h')) u = Some g" for u g
    using that h' maps_invD(3) [OF inv, of u g] by (cases "u = w") auto
  ultimately show ?thesis unfolding maps_inv_def by blast
qed

lemma maps_inv_begin:
  assumes inv: "maps_inv sess addrs ids busy" and "busy w = None" and h: "holder_ok sess ids h"
  shows "maps_inv sess addrs ids (busy(w \<mapsto> h))"
proof -
  have "tasks_at busy P \<subseteq> tasks_at (busy(w \<mapsto> h)) P" for P
    using assms(2) by (auto simp: tasks_at_def)
  then have grow: "tasks_at busy P \<noteq> {} \<Longrightarrow> tasks_at (busy(w \<mapsto> h)) P \<noteq> {}" for P by blast
  have "holder_ok sess ids g" if "(busy(w \<mapsto> h)) u = Some g" for u g
    using that h maps_invD(3) [OF inv, of u g] by (cases "u = w") auto
  moreover have "addrs sid = Some a \<or> tasks_at (busy(w \<mapsto> h)) (to_add k) \<noteq> {}"
    if "sess a = Some k" "ids k = Some sid" for a k sid
    using maps_invD(1) [OF inv that] grow by blast
  moreover have "(\<exists>k. sess a = Some k \<and> ids k = Some sid) \<or> tasks_at (busy(w \<mapsto> h)) (to_drop sid) \<noteq> {}"
    if "addrs sid = Some a" for a sid
    using maps_invD(2) [OF inv that] grow by blast
  ultimately show ?thesis unfolding maps_inv_def by blast
qed

text \<open>With the lock free both maps agree; a new session is entered in the first one.\<close>

lemma maps_inv_free:
  assumes inv: "maps_inv sess addrs ids busy" and free: "\<forall>w h. busy w = Some h \<longrightarrow> \<not> about_maps h"
  shows "sess a = Some k \<Longrightarrow> ids k = Some sid \<Longrightarrow> addrs sid = Some a"
    and "addrs sid = Some a \<Longrightarrow> \<exists>k. sess a = Some k \<and> ids k = Some sid"
proof -
  have "tasks_at busy (to_add k) = {}" "tasks_at busy (to_drop sid) = {}" for k sid
    using free not_about_maps(2,3) by (auto simp: tasks_at_def)
  then show "sess a = Some k \<Longrightarrow> ids k = Some sid \<Longrightarrow> addrs sid = Some a"
      "addrs sid = Some a \<Longrightarrow> \<exists>k. sess a = Some k \<and> ids k = Some sid"
    using maps_invD(1,2) [OF inv] by blast+
qed

lemma maps_inv_new:
  assumes inv: "maps_inv sess addrs ids busy" and free: "\<forall>w h. busy w = Some h \<longrightarrow> \<not> about_maps h"
    and none: "sess a = None" and k: "fst k = a" "ids k = None"
  shows "maps_inv (sess(a \<mapsto> k)) addrs (ids(k \<mapsto> sid)) (busy(w \<mapsto> AddSource k pl))"
proof -
  note F = maps_inv_free [OF inv free]
  have "tasks_at (busy(w \<mapsto> AddSource k pl)) (to_add k) \<noteq> {}"
    by (auto simp: tasks_at_def to_add_def)
  then have "addrs i = Some b \<or> tasks_at (busy(w \<mapsto> AddSource k pl)) (to_add j) \<noteq> {}"
    if "(sess(a \<mapsto> k)) b = Some j" "(ids(k \<mapsto> sid)) j = Some i" for b j i
    using that F(1) [where a = b and k = j and sid = i] by (cases "j = k") (auto split: if_splits)
  moreover have "\<exists>j. (sess(a \<mapsto> k)) b = Some j \<and> (ids(k \<mapsto> sid)) j = Some i" if "addrs i = Some b" for b i
  proof -
    from F(2) [OF that] obtain j where "sess b = Some j" "ids j = Some i" by blast
    moreover from this none k(2) have "b \<noteq> a" "j \<noteq> k" by auto
    ultimately show ?thesis by (intro exI [of _ j]) simp
  qed
  moreover have "holder_ok (sess(a \<mapsto> k)) (ids(k \<mapsto> sid)) g"
    if "(busy(w \<mapsto> AddSource k pl)) u = Some g" for u g
  proof (cases "u = w")
    case True
    with that k(1) show ?thesis by (auto simp: holder_ok_def)
  next
    case False
    with that have "\<not> about_maps g" using free by simp
    then show ?thesis by (rule not_about_maps(1))
  qed
  ultimately show ?thesis unfolding maps_inv_def by blast
qed

text \<open>The holder enters the identifier in the second map.\<close>

lemma maps_inv_add:
  assumes inv: "maps_inv sess addrs ids busy" and h: "busy w = Some (AddSource k pl)"
    and only: "\<And>u g. u \<noteq> w \<Longrightarrow> busy u = Some g \<Longrightarrow> \<not> about_maps g"
    and id: "ids k = Some sid"
    and inj: "\<And>j j' i. ids j = Some i \<Longrightarrow> ids j' = Some i \<Longrightarrow> j = j'"
    and name: "\<And>a j. sess a = Some j \<Longrightarrow> fst j = a"
  shows "maps_inv sess (addrs(sid \<mapsto> fst k)) ids (busy(w \<mapsto> TakeNumber k pl))"
proof -
  have k: "sess (fst k) = Some k" using maps_invD(3) [OF inv h] by (simp add: holder_ok_def)
  have "(addrs(sid \<mapsto> fst k)) i = Some a"
    if "sess a = Some j" "ids j = Some i" for a j i
  proof (cases "j = k")
    case True
    with that id name [of a j] show ?thesis by simp
  next
    case False
    have "i \<noteq> sid" using False inj [of j i k] that(2) id by auto
    moreover have "tasks_at busy (to_add j) = {}"
    proof -
      have "\<not> to_add j g" if "busy u = Some g" for u g
        using that only [of u g] not_about_maps(2) [of g j] h False
        by (cases "u = w") (auto simp: to_add_def)
      then show ?thesis by (auto simp: tasks_at_def)
    qed
    ultimately show ?thesis using maps_invD(1) [OF inv that] by simp
  qed
  moreover have "(\<exists>j. sess a = Some j \<and> ids j = Some i) \<or> tasks_at (busy(w \<mapsto> TakeNumber k pl)) (to_drop i) \<noteq> {}"
    if "(addrs(sid \<mapsto> fst k)) i = Some a" for i a
  proof (cases "i = sid")
    case True
    with that k id show ?thesis by auto
  next
    case False
    with that have "addrs i = Some a" by simp
    have "\<not> to_drop i (AddSource k pl)" by (simp add: to_drop_def)
    from maps_invD(2) [OF inv \<open>addrs i = Some a\<close>]
      tasks_at_other [of busy w "AddSource k pl" "to_drop i" "Some (TakeNumber k pl)", OF h this]
    show ?thesis by blast
  qed
  moreover have "holder_ok sess ids g" if "(busy(w \<mapsto> TakeNumber k pl)) u = Some g" for u g
    using that maps_invD(3) [OF inv, of u g] by (cases "u = w") (auto simp: holder_ok_def)
  ultimately show ?thesis unfolding maps_inv_def by blast
qed

text \<open>The sweep drops an entry from the first map, then from the second.\<close>

lemma listed_drop:
  assumes "listed sess ids ((a, sid) # dead)"
  shows "listed (sess(a := None)) ids dead"
  using assms by (force simp: listed_def)

lemma maps_inv_drop_session:
  assumes inv: "maps_inv sess addrs ids busy" and h: "busy w = Some (SweepUdp t ((a, sid) # dead))"
    and only: "\<And>u g. u \<noteq> w \<Longrightarrow> busy u = Some g \<Longrightarrow> \<not> about_maps g"
    and inj: "\<And>j j' i. ids j = Some i \<Longrightarrow> ids j' = Some i \<Longrightarrow> j = j'"
    and name: "\<And>a j. sess a = Some j \<Longrightarrow> fst j = a"
  shows "maps_inv (sess(a := None)) addrs ids (busy(w \<mapsto> SweepSource t sid dead))"
proof -
  have dead: "listed sess ids ((a, sid) # dead)"
    using maps_invD(3) [OF inv h] by (simp add: holder_ok_def)
  then obtain k where k: "sess a = Some k" "ids k = Some sid" by (auto simp: listed_def)
  have others: "tasks_at busy (to_add j) = {}" "tasks_at busy (to_drop i) = {}" for j i
  proof -
    have "\<not> to_add j g \<and> \<not> to_drop i g" if "busy u = Some g" for u g
      using that only [of u g] not_about_maps(2,3) [of g] h
      by (cases "u = w") (auto simp: to_add_def to_drop_def)
    then show "tasks_at busy (to_add j) = {}" "tasks_at busy (to_drop i) = {}"
      by (auto simp: tasks_at_def)
  qed
  have "addrs i = Some b" if "(sess(a := None)) b = Some j" "ids j = Some i" for b j i
    using that maps_invD(1) [OF inv, of b j i] others(1) by (auto split: if_splits)
  moreover have "(\<exists>j. (sess(a := None)) b = Some j \<and> ids j = Some i) \<or>
      tasks_at (busy(w \<mapsto> SweepSource t sid dead)) (to_drop i) \<noteq> {}" if "addrs i = Some b" for b i
  proof (cases "b = a")
    case True
    with maps_invD(2) [OF inv that] others(2) k have "i = sid" by auto
    then show ?thesis by (auto simp: tasks_at_def to_drop_def)
  next
    case False
    with maps_invD(2) [OF inv that] others(2) show ?thesis by auto
  qed
  moreover have "holder_ok (sess(a := None)) ids g"
    if "(busy(w \<mapsto> SweepSource t sid dead)) u = Some g" for u g
  proof (cases "u = w")
    case True
    have "listed (sess(a := None)) ids dead" by (rule listed_drop [OF dead])
    moreover have "ids j \<noteq> Some sid" if "(sess(a := None)) b = Some j" for b j
    proof
      assume "ids j = Some sid"
      with k(2) inj have "j = k" by blast
      with that name [of b j] name [OF k(1)] show False by (auto split: if_splits)
    qed
    moreover have "g = SweepSource t sid dead" using that True by simp
    ultimately show ?thesis by (simp add: holder_ok_def)
  next
    case False
    with that have "\<not> about_maps g" using only [of u g] by simp
    then show ?thesis by (rule not_about_maps(1))
  qed
  ultimately show ?thesis unfolding maps_inv_def by blast
qed

lemma maps_inv_drop_source:
  assumes inv: "maps_inv sess addrs ids busy" and h: "busy w = Some (SweepSource t sid dead)"
  shows "maps_inv sess (addrs(sid := None)) ids (busy(w \<mapsto> SweepUdp t dead))"
proof -
  have dead: "listed sess ids dead" and gone: "\<And>a k. sess a = Some k \<Longrightarrow> ids k \<noteq> Some sid"
    using maps_invD(3) [OF inv h] by (auto simp: holder_ok_def)
  have "(addrs(sid := None)) i = Some a \<or> tasks_at (busy(w \<mapsto> SweepUdp t dead)) (to_add j) \<noteq> {}"
    if "sess a = Some j" "ids j = Some i" for a j i
  proof -
    have "i \<noteq> sid" using gone [OF that(1)] that(2) by auto
    moreover have "\<not> to_add j (SweepSource t sid dead)" by (simp add: to_add_def)
    ultimately show ?thesis
      using maps_invD(1) [OF inv that] tasks_at_other [of busy w "SweepSource t sid dead" "to_add j"] h
      by auto
  qed
  moreover have "(\<exists>j. sess a = Some j \<and> ids j = Some i) \<or>
      tasks_at (busy(w \<mapsto> SweepUdp t dead)) (to_drop i) \<noteq> {}"
    if "(addrs(sid := None)) i = Some a" for i a
  proof -
    have i: "i \<noteq> sid" "addrs i = Some a" using that by (auto split: if_splits)
    then have "\<not> to_drop i (SweepSource t sid dead)" by (simp add: to_drop_def)
    with maps_invD(2) [OF inv i(2)] tasks_at_other [of busy w "SweepSource t sid dead" "to_drop i"] h
    show ?thesis by auto
  qed
  moreover have "holder_ok sess ids g" if "(busy(w \<mapsto> SweepUdp t dead)) u = Some g" for u g
    using that dead maps_invD(3) [OF inv, of u g] by (cases "u = w") (auto simp: holder_ok_def)
  ultimately show ?thesis unfolding maps_inv_def by blast
qed

section \<open>Steps\<close>

text \<open>The steps that change a map.\<close>

definition changes_maps :: "client_handler \<Rightarrow> bool" where
  "changes_maps h =
     (case h of NewSession _ _ \<Rightarrow> True | AddSource _ _ \<Rightarrow> True | SweepUdp _ dead \<Rightarrow> dead \<noteq> []
      | SweepSource _ _ _ \<Rightarrow> True | _ \<Rightarrow> False)"

lemma other_steps_maps:
  assumes h: "client_busy s w = Some h" and "\<not> changes_maps h"
    and step: "client_step w now random connected h s = (os, s')"
  shows "ca_udp_sessions s' = ca_udp_sessions s \<and>
    c_udp_session_addrs (ca_base s') = c_udp_session_addrs (ca_base s) \<and>
    id_in (session_view s') = id_in (session_view s)"
proof (cases h)
  case (SendUdp k q pl senders)
  with step show ?thesis by (cases senders) (auto simp: client_step_defs split: option.splits)
next
  case (FindTcp k q pl eps)
  with step show ?thesis by (cases eps) (auto simp: client_step_defs split: option.splits if_splits)
next
  case (ScanUdp t todo dead)
  with step show ?thesis by (cases todo) (auto simp: client_step_defs Let_def)
next
  case (SweepUdp t dead)
  with step assms(2) show ?thesis by (cases dead) (auto simp: client_step_defs changes_maps_def)
next
  case (ScanTcp t todo dead)
  with step show ?thesis by (cases todo) (auto simp: client_step_defs Let_def)
next
  case (CloseTcp key)
  with step show ?thesis by (cases w) (auto simp: client_step_defs Let_def)
next
  case (TakeNumber k pl)
  with step show ?thesis
    by (auto simp: client_step_defs id_in_def session_view_def fun_eq_iff split: option.splits)
next
  case (CheckResponse a k q pl)
  with step show ?thesis
    by (auto simp: client_step_defs id_in_def session_view_def fun_eq_iff case_prod_beta Let_def
        split: option.splits if_splits)
qed (use step assms(2) in \<open>auto simp: client_step_defs changes_maps_def Let_def
    split: option.splits if_splits\<close>)

lemma listed_snoc:
  assumes "listed sess ids dead" and "a \<notin> fst ` set dead" and "sess a = Some k" and "ids k = Some sid"
  shows "listed sess ids (dead @ [(a, sid)])"
  using assms by (auto simp: listed_def)

lemma scan_keeps_holder:
  fixes timeout :: duration
  assumes "holder_ok sess (id_in (session_view s)) (ScanUdp t ((a, k) # todo) dead)"
  defines "idle \<equiv> (case hm_get (ca_udp_store s) k of None \<Rightarrow> []
      | Some us \<Rightarrow> if expired t timeout (us_last_activity us) then [(a, us_session_id us)] else [])"
  shows "holder_ok sess (id_in (session_view s)) (ScanUdp t todo (dead @ idle))"
proof -
  have "idle = [] \<or> (\<exists>us. hm_get (ca_udp_store s) k = Some us \<and> idle = [(a, us_session_id us)])"
    by (auto simp: idle_def split: option.split)
  then show ?thesis
  proof (elim disjE exE conjE)
    assume "idle = []"
    with assms(1) show ?thesis by (auto simp: holder_ok_def)
  next
    fix us assume us: "hm_get (ca_udp_store s) k = Some us" "idle = [(a, us_session_id us)]"
    then have "id_in (session_view s) k = Some (us_session_id us)"
      by (simp add: id_in_def session_view_def)
    with assms(1) have "listed sess (id_in (session_view s)) (dead @ [(a, us_session_id us)])"
      by (intro listed_snoc [of _ _ _ _ k]) (auto simp: holder_ok_def)
    with assms(1) us(2) show ?thesis by (auto simp: holder_ok_def)
  qed
qed

lemma other_steps_holder:
  assumes h: "client_busy s w = Some h" and plain: "\<not> changes_maps h"
    and step: "client_step w now random connected h s = (os, s')"
    and ok: "holder_ok (hm_get (ca_udp_sessions s)) (id_in (session_view s)) h"
    and h': "client_busy s' w = Some g"
  shows "holder_ok (hm_get (ca_udp_sessions s)) (id_in (session_view s)) g"
proof (cases h)
  case (ScanUdp t todo dead)
  show ?thesis
  proof (cases todo)
    case Nil
    with step h' have "g = SweepUdp t dead" by (auto simp: ScanUdp client_step_def)
    with ok Nil show ?thesis by (simp add: ScanUdp holder_ok_def)
  next
    case (Cons x todo')
    obtain a k where x: "x = (a, k)" by (cases x)
    from scan_keeps_holder [OF ok [unfolded ScanUdp Cons x]] step h' show ?thesis
      by (auto simp: ScanUdp Cons x client_step_def Let_def)
  qed
next
  case (SweepUdp t dead)
  with step h' plain show ?thesis
    by (cases dead) (auto simp: client_step_defs changes_maps_def holder_ok_def)
next
  case (SendUdp k q pl senders)
  with step h' show ?thesis
    by (cases senders) (auto simp: client_step_defs holder_ok_def split: option.splits)
next
  case (FindTcp k q pl eps)
  with step h' show ?thesis
    by (cases eps) (auto simp: client_step_defs holder_ok_def split: option.splits if_splits)
next
  case (ScanTcp t todo dead)
  with step h' show ?thesis by (cases todo) (auto simp: client_step_defs holder_ok_def Let_def)
next
  case (CloseTcp key)
  with step h' show ?thesis by (cases w) (auto simp: client_step_defs holder_ok_def Let_def)
qed (use step h' plain in \<open>auto simp: client_step_defs changes_maps_def holder_ok_def case_prod_beta Let_def
    split: option.splits if_splits\<close>)

lemma client_maps_step:
  assumes inv: "client_maps_inv s" and names: "client_names num got s"
    and ids: "ids_ok base n (id_in (session_view s)) (c_session_id_counter (ca_base s))"
    and excl: "exclusive client_busy client_holds s"
    and h: "client_busy s w = Some h" and free: "\<And>l. client_needs h l \<Longrightarrow> \<not> client_locked s l"
    and step: "client_step w now random connected h s = (os, s')"
  shows "client_maps_inv s'"
proof -
  from client_step_moves [OF h step] obtain h' where
    pending: "client_busy s' = (client_busy s)(w := h')" by blast
  note D = client_namesD [OF names]
  have only: "\<not> about_maps g" if "about_maps h" "u \<noteq> w" "client_busy s u = Some g" for u g
    using excl h that unfolding exclusive_def about_maps_holds by blast
  have inj: "j = j'" if "id_in (session_view s) j = Some i" "id_in (session_view s) j' = Some i" for j j' i
    using ids that unfolding ids_ok_def by blast
  have name: "fst j = a" if "hm_get (ca_udp_sessions s) a = Some j" for a j using D(1) [OF that] by simp
  consider "\<not> changes_maps h" | a pl where "h = NewSession a pl" | k pl where "h = AddSource k pl"
    | t a sid dead where "h = SweepUdp t ((a, sid) # dead)" | t sid dead where "h = SweepSource t sid dead"
    by (cases h) (auto simp: changes_maps_def neq_Nil_conv)
  then show ?thesis
  proof cases
    case 1
    from other_steps_maps [OF h 1 step] have same: "ca_udp_sessions s' = ca_udp_sessions s"
      "c_udp_session_addrs (ca_base s') = c_udp_session_addrs (ca_base s)"
      "id_in (session_view s') = id_in (session_view s)" by simp_all
    have "\<not> to_add k h" "\<not> to_drop sid h" for k sid
      using 1 by (cases h; simp add: changes_maps_def to_add_def to_drop_def)+
    moreover have "holder_ok (hm_get (ca_udp_sessions s)) (id_in (session_view s)) g" if "h' = Some g" for g
      using other_steps_holder [OF h 1 step maps_invD(3) [OF inv h], of g] that by (simp add: pending)
    ultimately show ?thesis
      unfolding same pending by (intro maps_inv_same [OF inv h]) blast+
  next
    case (2 a pl)
    show ?thesis
    proof (cases "hm_get (ca_udp_sessions s) a")
      case None
      have "\<not> client_locked s UdpSessions" using free [of UdpSessions] by (simp add: 2 client_needs_def)
      then have unlocked: "\<forall>u g. client_busy s u = Some g \<longrightarrow> \<not> about_maps g"
        by (auto simp: client_locked_iff about_maps_holds)
      from step 2 have s': "s' = new_session_step w now random a pl s" by (simp add: client_step_def)
      note M = new_session_makes [OF None, where w = w and now = now and random = random and pl = pl]
      have fresh: "id_in (session_view s) (a, ca_next_session s) = None"
        using fresh_session_name [OF names, of a] by (simp add: id_in_def)
      show ?thesis
        unfolding s' M(1,2,5,6) id_in_update
        by (rule maps_inv_new [OF inv unlocked None _ fresh]) simp
    next
      case (Some k)
      with step 2 have s': "s' = proceed w (TakeNumber k pl) s"
        by (simp add: client_step_def new_session_known)
      have "maps_inv (hm_get (ca_udp_sessions s)) (hm_get (c_udp_session_addrs (ca_base s)))
          (id_in (session_view s)) ((client_busy s)(w := Some (TakeNumber k pl)))"
        by (rule maps_inv_same [OF inv h]) (simp_all add: 2 to_add_def to_drop_def holder_ok_def)
      then show ?thesis by (simp add: s')
    qed
  next
    case (3 k pl)
    have "udp_known s k" using D(3) [OF h] by (simp add: 3 client_handler_ok_def)
    then obtain us where us: "hm_get (ca_udp_store s) k = Some us" by (auto simp: udp_known_def)
    then have id: "id_in (session_view s) k = Some (us_session_id us)"
      by (simp add: id_in_def session_view_def)
    have "about_maps h" by (simp add: 3 about_maps_def)
    then have "maps_inv (hm_get (ca_udp_sessions s)) ((hm_get (c_udp_session_addrs (ca_base s)))(us_session_id us \<mapsto> fst k))
        (id_in (session_view s)) ((client_busy s)(w \<mapsto> TakeNumber k pl))"
      by (intro maps_inv_add [OF inv h [unfolded 3] _ id]) (use only inj name in blast)+
    with step 3 us show ?thesis by (auto simp: client_step_def add_source_step_def)
  next
    case (4 t a sid dead)
    have "about_maps h" by (simp add: 4 about_maps_def)
    then have "maps_inv ((hm_get (ca_udp_sessions s))(a := None)) (hm_get (c_udp_session_addrs (ca_base s)))
        (id_in (session_view s)) ((client_busy s)(w \<mapsto> SweepSource t sid dead))"
      by (intro maps_inv_drop_session [OF inv h [unfolded 4]]) (use only inj name in blast)+
    moreover have "hm_get (hm_remove a m) = (hm_get m)(a := None)" for m :: "(socket_addr, session_name) hash_map"
      by (auto simp: lookup_delete fun_eq_iff)
    ultimately show ?thesis using step 4 by (auto simp: client_step_def)
  next
    case (5 t sid dead)
    have "hm_get (hm_remove sid m) = (hm_get m)(sid := None)" for m :: "(u64, socket_addr) hash_map"
      by (auto simp: lookup_delete fun_eq_iff)
    with maps_inv_drop_source [OF inv h [unfolded 5]] step 5 show ?thesis
      by (auto simp: client_step_def sweep_source_step_def)
  qed
qed

lemma client_maps_begin:
  assumes inv: "client_maps_inv s" and enabled: "client_async_enabled s (Begin e)"
  shows "client_maps_inv (begin_handler e s)"
proof -
  have idle: "client_busy s w = None" if "client_worker_of e = Some w" for w
    using enabled that by (simp add: client_async_enabled_def)
  let ?P = "\<lambda>busy. maps_inv (hm_get (ca_udp_sessions s)) (hm_get (c_udp_session_addrs (ca_base s)))
      (id_in (session_view s)) busy"
  have go: "?P ((client_busy s)(w \<mapsto> h))"
    if "client_worker_of e = Some w" "holder_ok (hm_get (ca_udp_sessions s)) (id_in (session_view s)) h" for w h
    using maps_inv_begin [OF inv idle [OF that(1)] that(2)] .
  show ?thesis
  proof (cases e)
    case (CleanupTick now)
    have "distinct (map fst (hm_iter (ca_udp_sessions s)))" by simp
    then have "?P ((client_busy s)(AtCleanup \<mapsto> ScanUdp now (hm_iter (ca_udp_sessions s)) []))"
      by (intro go) (auto simp: CleanupTick client_worker_of_def holder_ok_def listed_def)
    then show ?thesis by (simp add: CleanupTick begin_handler_def)
  qed (use inv in \<open>auto simp: begin_handler_def client_worker_of_def client_handle_def client_stop_def
      end_reader_def holder_ok_def Let_def intro!: go split: sum.split option.split\<close>)
qed

lemma client_maps_along:
  assumes "client_async_run (client_async_started r cfg os) es outs s" and "length es \<le> 2 ^ 32"
  shows "client_maps_inv s"
  using assms
proof (induction "client_async_started r cfg os" es outs s rule: run.induct)
  case run_Nil
  show ?case
    by (simp add: maps_inv_def client_async_started_def client_async_new_def client_started_def
        client_start_frame client_new_def)
next
  case (run_snoc es outs s e os' s')
  then have inv: "client_maps_inv s" by simp
  from reachable_client_async_inv [OF run_snoc.hyps(1)] run_snoc.prems obtain num init cnt where
    I: "client_async_inv r num init cnt es outs s" by auto
  show ?case
  proof (cases e)
    case (Begin ev)
    with run_snoc.hyps(3,4) client_maps_begin [OF inv, of ev] show ?thesis
      by (auto simp: client_async_handle_def)
  next
    case (Advance w now random connected)
    with run_snoc.hyps(3) obtain h where h: "client_busy s w = Some h"
        and free: "\<And>l. client_needs h l \<Longrightarrow> \<not> client_locked s l"
      by (auto simp: advance_enabled)
    with run_snoc.hyps(4) Advance have step: "client_step w now random connected h s = (os', s')"
      by (simp add: client_async_handle_def)
    show ?thesis
      by (rule client_maps_step [OF inv client_async_invD(1,2) [OF I]
            client_reachable_exclusive [OF run_snoc.hyps(1)] h free step])
  qed
qed

end
