(* ===== verification/Client_Async_Routes.thy ===== *)
theory Client_Async_Routes
  imports Client_Async_Live
begin

text \<open>
  Where the frames and the deliveries of the interleaved client belong: a frame that is written to a
  TCP connection carries the identifier of a session of the source the connection was made for,
  and what is delivered to a source has come under an identifier of that source over UDP, or on a
  TCP connection made for it.
\<close>

section \<open>The invariant\<close>

text \<open>What has come as a response: over UDP under an identifier, over TCP on a connection.\<close>

definition heard_udp :: "client_async_event list \<Rightarrow> u64 \<Rightarrow> bytes \<Rightarrow> bool" where
  "heard_udp es sid pl \<longleftrightarrow>
     (\<exists>now sock data q. Begin (UdpResponse now sock data) \<in> set es \<and> decode_udp data = Inr (sid, q, pl))"

definition heard_tcp :: "client_async_event list \<Rightarrow> conn \<Rightarrow> bytes \<Rightarrow> bool" where
  "heard_tcp es n pl \<longleftrightarrow>
     (\<exists>now data sid q. Begin (TcpResponse now n data) \<in> set es \<and> decode_tcp data = Inr (sid, q, pl))"

text \<open>\<open>ids\<close> are the identifiers of sessions, \<open>src n\<close> is the source connection \<open>n\<close> was made for.\<close>

definition id_of_source :: "(session_name \<Rightarrow> u64 option) \<Rightarrow> socket_addr \<Rightarrow> u64 \<Rightarrow> bool" where
  "id_of_source ids a sid \<longleftrightarrow> (\<exists>i. ids (a, i) = Some sid)"

definition response_for ::
    "(session_name \<Rightarrow> u64 option) \<Rightarrow> (conn \<Rightarrow> socket_addr) \<Rightarrow> client_async_event list
       \<Rightarrow> socket_addr \<Rightarrow> bytes \<Rightarrow> bool" where
  "response_for ids src es a pl \<longleftrightarrow>
     (\<exists>sid. id_of_source ids a sid \<and> heard_udp es sid pl) \<or> (\<exists>n. src n = a \<and> heard_tcp es n pl)"

definition belongs :: "(conn \<Rightarrow> socket_addr) \<Rightarrow> nat \<Rightarrow> conn \<Rightarrow> session_name \<Rightarrow> bool" where
  "belongs src next n k \<longleftrightarrow> n < next \<and> without_flow (src n) = without_flow (fst k)"

definition client_route_ok ::
    "(session_name \<Rightarrow> u64 option) \<Rightarrow> (conn \<Rightarrow> socket_addr) \<Rightarrow> nat \<Rightarrow> client_async_event list
       \<Rightarrow> client_handler \<Rightarrow> bool" where
  "client_route_ok ids src next es h =
     (case h of
        TouchTcp k q pl n eps \<Rightarrow> belongs src next n k
      | WriteTcp k q pl n eps \<Rightarrow> belongs src next n k
      | FindSource sid q pl \<Rightarrow> heard_udp es sid pl
      | FindReceiver a q pl \<Rightarrow> response_for ids src es a pl
      | CheckResponse a k q pl \<Rightarrow> response_for ids src es a pl
      | TouchReceiver a k pl \<Rightarrow> response_for ids src es a pl
      | Deliver a pl \<Rightarrow> response_for ids src es a pl
      | _ \<Rightarrow> True)"

definition client_routed_out ::
    "(session_name \<Rightarrow> u64 option) \<Rightarrow> (conn \<Rightarrow> socket_addr) \<Rightarrow> nat \<Rightarrow> client_async_event list
       \<Rightarrow> client_output \<Rightarrow> bool" where
  "client_routed_out ids src next es out =
     (case out of
        UdpSend sock bs \<Rightarrow> True
      | TcpWrite n bs \<Rightarrow>
          \<exists>k sid q pl. ids k = Some sid \<and> belongs src next n k \<and> bs = tcp_frame (encode_tcp sid q pl)
      | SendTo l pl a \<Rightarrow> response_for ids src es a pl)"

abbreviation session_ids :: "async_client \<Rightarrow> session_name \<Rightarrow> u64 option" where
  "session_ids s \<equiv> id_in (session_view s)"

text \<open>The tables: who reads a connection, under which key it is found, which sources are known.\<close>

definition client_tables_ok :: "(conn \<Rightarrow> socket_addr) \<Rightarrow> async_client \<Rightarrow> bool" where
  "client_tables_ok src s \<longleftrightarrow>
     (\<forall>k us. hm_get (ca_udp_store s) k = Some us \<longrightarrow> snd k < ca_next_session s) \<and>
     (\<forall>n r. hm_get (c_readers (ca_base s)) n = Some r \<longrightarrow>
        n < c_next_conn (ca_base s) \<and> tr_source r = src n) \<and>
     (\<forall>key n. hm_get (ca_tcp_sessions s) key = Some n \<longrightarrow>
        n < c_next_conn (ca_base s) \<and> (\<exists>server. key = session_key (src n) server)) \<and>
     (\<forall>n ts. hm_get (ca_tcp_store s) n = Some ts \<longrightarrow> ts_writer ts = n) \<and>
     (\<forall>sid a. hm_get (c_udp_session_addrs (ca_base s)) sid = Some a \<longrightarrow> id_of_source (session_ids s) a sid)"

definition client_routes_inv ::
    "(conn \<Rightarrow> socket_addr) \<Rightarrow> client_async_event list \<Rightarrow> client_output list \<Rightarrow> async_client \<Rightarrow> bool" where
  "client_routes_inv src es outs s \<longleftrightarrow>
     client_tables_ok src s \<and>
     (\<forall>n pl. heard_tcp es n pl \<longrightarrow> n < c_next_conn (ca_base s)) \<and>
     (\<forall>w h. hm_get (ca_pending s) w = Some h \<longrightarrow>
        client_route_ok (session_ids s) src (c_next_conn (ca_base s)) es h) \<and>
     list_all (client_routed_out (session_ids s) src (c_next_conn (ca_base s)) es) outs"

lemma client_tables_okD:
  assumes "client_tables_ok src s"
  shows "hm_get (ca_udp_store s) k = Some us \<Longrightarrow> snd k < ca_next_session s"
    and "hm_get (c_readers (ca_base s)) n = Some r \<Longrightarrow> n < c_next_conn (ca_base s) \<and> tr_source r = src n"
    and "hm_get (ca_tcp_sessions s) key = Some n \<Longrightarrow>
      n < c_next_conn (ca_base s) \<and> (\<exists>server. key = session_key (src n) server)"
    and "hm_get (ca_tcp_store s) n = Some ts \<Longrightarrow> ts_writer ts = n"
    and "hm_get (c_udp_session_addrs (ca_base s)) sid = Some a \<Longrightarrow> id_of_source (session_ids s) a sid"
  using assms unfolding client_tables_ok_def by blast+

lemma client_routes_invD:
  assumes "client_routes_inv src es outs s"
  shows "client_tables_ok src s"
    and "heard_tcp es n pl \<Longrightarrow> n < c_next_conn (ca_base s)"
    and "hm_get (ca_pending s) w = Some h \<Longrightarrow>
      client_route_ok (session_ids s) src (c_next_conn (ca_base s)) es h"
    and "list_all (client_routed_out (session_ids s) src (c_next_conn (ca_base s)) es) outs"
  using assms unfolding client_routes_inv_def by blast+

lemma session_key_source:
  "session_key a server = session_key a' server' \<Longrightarrow> without_flow a = without_flow a'"
proof -
  assume "session_key a server = session_key a' server'"
  then have "show_socket_addr a = show_socket_addr a'"
    using split_pair_inject [of "CHR ''-''"] show_socket_addr_no_dash
    by (simp add: session_key_def)
  then show ?thesis by (simp add: show_socket_addr_inject)
qed

section \<open>More sessions, connections and events\<close>

definition extends ::
    "(session_name \<Rightarrow> u64 option) \<Rightarrow> (conn \<Rightarrow> socket_addr) \<Rightarrow> nat
       \<Rightarrow> (session_name \<Rightarrow> u64 option) \<Rightarrow> (conn \<Rightarrow> socket_addr) \<Rightarrow> nat \<Rightarrow> bool" where
  "extends ids src next ids' src' next' \<longleftrightarrow>
     (\<forall>k sid. ids k = Some sid \<longrightarrow> ids' k = Some sid) \<and> (\<forall>n < next. src' n = src n) \<and> next \<le> next'"

lemma extends_refl [simp]: "extends ids src next ids src next"
  by (simp add: extends_def)

lemma heard_mono:
  "heard_udp es sid pl \<Longrightarrow> heard_udp (es @ fs) sid pl" "heard_tcp es n pl \<Longrightarrow> heard_tcp (es @ fs) n pl"
  unfolding heard_udp_def heard_tcp_def by (metis Un_iff set_append)+

lemma extends_mono:
  assumes "extends ids src next ids' src' next'" and "\<forall>n pl. heard_tcp es n pl \<longrightarrow> n < next"
  shows "id_of_source ids a sid \<Longrightarrow> id_of_source ids' a sid"
    and "belongs src next n k \<Longrightarrow> belongs src' next' n k"
    and "response_for ids src es a pl \<Longrightarrow> response_for ids' src' (es @ fs) a pl"
proof -
  show id: "id_of_source ids a sid \<Longrightarrow> id_of_source ids' a sid" for a sid
    using assms(1) unfolding id_of_source_def extends_def by blast
  show "belongs src next n k \<Longrightarrow> belongs src' next' n k"
    using assms(1) unfolding belongs_def extends_def by auto
  assume "response_for ids src es a pl"
  then consider sid where "id_of_source ids a sid" "heard_udp es sid pl"
    | n where "src n = a" "heard_tcp es n pl"
    unfolding response_for_def by blast
  then show "response_for ids' src' (es @ fs) a pl"
  proof cases
    case 1
    with id heard_mono(1) show ?thesis unfolding response_for_def by blast
  next
    case (2 n)
    with assms have "src' n = a" unfolding extends_def by auto
    with 2 heard_mono(2) show ?thesis unfolding response_for_def by blast
  qed
qed

lemma client_route_ok_mono:
  assumes "client_route_ok ids src next es h"
    and "extends ids src next ids' src' next'" and "\<forall>n pl. heard_tcp es n pl \<longrightarrow> n < next"
  shows "client_route_ok ids' src' next' (es @ fs) h"
  using assms(1) extends_mono [OF assms(2,3)] heard_mono(1)
  by (cases h) (auto simp: client_route_ok_def)

lemma client_routed_out_mono:
  assumes "client_routed_out ids src next es out"
    and "extends ids src next ids' src' next'" and "\<forall>n pl. heard_tcp es n pl \<longrightarrow> n < next"
  shows "client_routed_out ids' src' next' (es @ fs) out"
proof (cases out)
  case (TcpWrite n bs)
  with assms(1) obtain k sid q pl where "ids k = Some sid" "belongs src next n k"
      "bs = tcp_frame (encode_tcp sid q pl)"
    by (auto simp: client_routed_out_def)
  moreover from this assms(2) have "ids' k = Some sid" unfolding extends_def by blast
  ultimately show ?thesis
    using extends_mono(2) [where es = es, OF assms(2,3)] unfolding TcpWrite client_routed_out_def client_output.case
    by blast
qed (use assms(1) extends_mono(3) [OF assms(2,3)] in \<open>auto simp: client_routed_out_def\<close>)

section \<open>Steps\<close>

text \<open>A step that makes no session and no connection.\<close>

definition makes_none :: "client_handler \<Rightarrow> bool" where
  "makes_none h = (case h of NewSession _ _ \<Rightarrow> False | OpenTcp _ _ _ _ _ \<Rightarrow> False | _ \<Rightarrow> True)"

lemma udp_known_ids: "udp_known s k \<longleftrightarrow> session_ids s k \<noteq> None"
  by (auto simp: udp_known_view id_in_def split: option.split)

definition tables_follow :: "async_client \<Rightarrow> async_client \<Rightarrow> bool" where
  "tables_follow s s' \<longleftrightarrow>
     ca_next_session s' = ca_next_session s \<and> c_next_conn (ca_base s') = c_next_conn (ca_base s) \<and>
     session_ids s' = session_ids s \<and>
     (\<forall>n r. hm_get (c_readers (ca_base s')) n = Some r \<longrightarrow> hm_get (c_readers (ca_base s)) n = Some r) \<and>
     (\<forall>key n. hm_get (ca_tcp_sessions s') key = Some n \<longrightarrow> hm_get (ca_tcp_sessions s) key = Some n) \<and>
     (\<forall>n ts. hm_get (ca_tcp_store s') n = Some ts \<longrightarrow>
        (\<exists>ts0. hm_get (ca_tcp_store s) n = Some ts0 \<and> ts_writer ts0 = ts_writer ts)) \<and>
     (\<forall>sid a. hm_get (c_udp_session_addrs (ca_base s')) sid = Some a \<longrightarrow>
        hm_get (c_udp_session_addrs (ca_base s)) sid = Some a \<or> id_of_source (session_ids s) a sid)"

lemma tables_followD:
  assumes "tables_follow s s'"
  shows "ca_next_session s' = ca_next_session s" "c_next_conn (ca_base s') = c_next_conn (ca_base s)"
    "session_ids s' = session_ids s"
    "hm_get (c_readers (ca_base s')) n = Some r \<Longrightarrow> hm_get (c_readers (ca_base s)) n = Some r"
    "hm_get (ca_tcp_sessions s') key = Some n \<Longrightarrow> hm_get (ca_tcp_sessions s) key = Some n"
    "hm_get (ca_tcp_store s') n = Some ts \<Longrightarrow>
       \<exists>ts0. hm_get (ca_tcp_store s) n = Some ts0 \<and> ts_writer ts0 = ts_writer ts"
    "hm_get (c_udp_session_addrs (ca_base s')) sid = Some a \<Longrightarrow>
       hm_get (c_udp_session_addrs (ca_base s)) sid = Some a \<or> id_of_source (session_ids s) a sid"
  using assms unfolding tables_follow_def by blast+

lemma tables_follow_ok:
  assumes ok: "client_tables_ok src s" and "tables_follow s s'"
  shows "client_tables_ok src s'"
proof -
  note D = client_tables_okD [OF ok] and F = tables_followD [OF assms(2)]
  have "snd k < ca_next_session s'" if "hm_get (ca_udp_store s') k = Some us" for k us
  proof -
    from that have "udp_known s' k" by (simp add: udp_known_def)
    then have "udp_known s k" unfolding udp_known_ids F(3) .
    then show ?thesis unfolding udp_known_def F(1) using D(1) by blast
  qed
  moreover have "n < c_next_conn (ca_base s') \<and> tr_source r = src n"
    if "hm_get (c_readers (ca_base s')) n = Some r" for n r
    using D(2) [OF F(4) [OF that]] unfolding F(2) .
  moreover have "n < c_next_conn (ca_base s') \<and> (\<exists>server. key = session_key (src n) server)"
    if "hm_get (ca_tcp_sessions s') key = Some n" for key n
    using D(3) [OF F(5) [OF that]] unfolding F(2) .
  moreover have "ts_writer ts = n" if "hm_get (ca_tcp_store s') n = Some ts" for n ts
    using D(4) F(6) [OF that] by auto
  moreover have "id_of_source (session_ids s') a sid"
    if "hm_get (c_udp_session_addrs (ca_base s')) sid = Some a" for sid a
    using D(5) F(7) [OF that] unfolding F(3) by blast
  ultimately show ?thesis unfolding client_tables_ok_def by blast
qed

text \<open>Connections under a key, and the tables, when tasks close some.\<close>

lemma close_tcp_sub:
  "hm_get (ca_tcp_sessions (close_tcp key s)) k = Some n \<Longrightarrow> hm_get (ca_tcp_sessions s) k = Some n"
  "c_readers (ca_base (close_tcp key s)) = c_readers (ca_base s)"
  "c_next_conn (ca_base (close_tcp key s)) = c_next_conn (ca_base s)"
  by (auto simp: close_tcp_def lookup_delete split: option.splits if_splits)

lemma fold_close_tcp_sub:
  "hm_get (ca_tcp_sessions (fold close_tcp keys s)) k = Some n \<Longrightarrow> hm_get (ca_tcp_sessions s) k = Some n"
  "c_readers (ca_base (fold close_tcp keys s)) = c_readers (ca_base s)"
  "c_next_conn (ca_base (fold close_tcp keys s)) = c_next_conn (ca_base s)"
  by (induction keys arbitrary: s) (auto simp: close_tcp_sub(2,3) dest: close_tcp_sub(1))

lemma tables_follow_base:
  assumes "c_next_conn c = c_next_conn (ca_base s)" and "c_udp_session_addrs c = c_udp_session_addrs (ca_base s)"
    and "\<And>n r. hm_get (c_readers c) n = Some r \<Longrightarrow> hm_get (c_readers (ca_base s)) n = Some r"
  shows "tables_follow s (s\<lparr>ca_base := c\<rparr>)"
  using assms by (auto simp: tables_follow_def)

lemma tables_follow_task [simp]:
  "tables_follow s (proceed w h s') = tables_follow s s'" "tables_follow s (finish w s') = tables_follow s s'"
  by (simp_all add: tables_follow_def)

lemma tables_follow_refl [simp]: "tables_follow s s"
  unfolding tables_follow_def by blast

lemma tables_follow_modify:
  assumes "\<And>us. us_session_id (f us) = us_session_id us"
  shows "tables_follow s (modify_udp k f s)"
proof -
  have "session_ids (modify_udp k f s) j = session_ids s j" for j
    by (cases "hm_get (ca_udp_store s) k") (simp_all add: id_in_def session_view_def assms)
  then have "session_ids (modify_udp k f s) = session_ids s" by (rule ext)
  then show ?thesis unfolding tables_follow_def by auto
qed

lemma tables_follow_modify_tcp:
  assumes "\<And>ts. ts_writer (f ts) = ts_writer ts"
  shows "tables_follow s (modify_tcp n f s)"
proof -
  have "\<exists>ts0. hm_get (ca_tcp_store s) m = Some ts0 \<and> ts_writer ts0 = ts_writer ts"
    if "hm_get (ca_tcp_store (modify_tcp n f s)) m = Some ts" for m ts
    using that assms by (cases "m = n") auto
  then show ?thesis unfolding tables_follow_def by simp
qed

lemma id_of_stored:
  "hm_get (ca_udp_store s) k = Some us \<Longrightarrow> session_ids s k = Some (us_session_id us)"
  by (simp add: id_in_def session_view_def)

lemma other_step_routes:
  assumes h: "hm_get (ca_pending s) w = Some h" and makes: "makes_none h"
    and tables: "client_tables_ok src s"
    and ok: "client_route_ok (session_ids s) src (c_next_conn (ca_base s)) es h"
    and step: "client_step w now random connected h s = (os, s')"
  shows "(\<exists>h'. hm_get (ca_pending s') = (hm_get (ca_pending s))(w := h') \<and>
      (\<forall>k. h' = Some k \<longrightarrow> client_route_ok (session_ids s) src (c_next_conn (ca_base s)) es k)) \<and>
    tables_follow s s' \<and>
    list_all (client_routed_out (session_ids s) src (c_next_conn (ca_base s)) es) os"
proof -
  define h' where "h' = hm_get (ca_pending s') w"
  let ?ids = "session_ids s" and ?next = "c_next_conn (ca_base s)"
  note D = client_tables_okD [OF tables]
  let ?conclusion = "(hm_get (ca_pending s') = (hm_get (ca_pending s))(w := h') \<and>
      (\<forall>k. h' = Some k \<longrightarrow> client_route_ok ?ids src ?next es k)) \<and>
    tables_follow s s' \<and> list_all (client_routed_out ?ids src ?next es) os"
  have found: "belongs src ?next n k"
    if "hm_get (ca_tcp_sessions s) (session_key (fst k) server) = Some n" for k server n
    using D(3) [OF that] session_key_source unfolding belongs_def by metis
  have ?conclusion
  proof (cases h)
    case (AddSource k pl)
    have "tables_follow s (s\<lparr>ca_base := (ca_base s)\<lparr>c_udp_session_addrs :=
        hm_insert (us_session_id us) (fst k) (c_udp_session_addrs (ca_base s))\<rparr>\<rparr>)"
      if "hm_get (ca_udp_store s) k = Some us" for us
    proof -
      have "id_of_source ?ids (fst k) (us_session_id us)"
        using id_of_stored [OF that] unfolding id_of_source_def by (metis prod.collapse)
      then show ?thesis by (auto simp: tables_follow_def)
    qed
    with AddSource step show ?thesis
      by (cases "hm_get (ca_udp_store s) k")
        (auto simp: h'_def client_step_defs client_route_ok_def)
  next
    case (SendUdp k q pl senders)
    with step show ?thesis
      by (cases senders) (auto simp: h'_def client_step_def client_route_ok_def client_routed_out_def split: option.splits)
  next
    case (FindTcp k q pl eps)
    with step found [of k] show ?thesis
      by (cases eps) (auto simp: h'_def client_step_def client_route_ok_def split: option.splits if_splits)
  next
    case (NewTcp k q pl ep eps)
    with step found [of k] show ?thesis
      by (auto simp: h'_def client_step_defs client_route_ok_def split: option.splits)
  next
    case (WriteTcp k q pl n eps)
    have "client_routed_out ?ids src ?next es out"
      if "hm_get (ca_udp_store s) k = Some us" "hm_get (ca_tcp_store s) n = Some ts"
        "send_tcp_frame ts (encode_tcp (us_session_id us) q pl) = Inr out" for us ts out
    proof -
      have out: "out = TcpWrite n (tcp_frame (encode_tcp (us_session_id us) q pl))"
        using that(3) D(4) [OF that(2)] by (auto simp: send_tcp_frame_def split: if_splits)
      have "belongs src ?next n k" using ok by (simp add: WriteTcp client_route_ok_def)
      with id_of_stored [OF that(1)] show ?thesis
        unfolding out client_routed_out_def client_output.case by blast
    qed
    with WriteTcp step show ?thesis
      by (auto simp: h'_def client_step_defs client_route_ok_def split: option.splits sum.splits)
  next
    case (FindSource sid q pl)
    have "response_for ?ids src es a pl" if "hm_get (c_udp_session_addrs (ca_base s)) sid = Some a" for a
      using D(5) [OF that] ok unfolding response_for_def FindSource client_route_ok_def client_handler.case
      by blast
    with FindSource step show ?thesis
      by (auto simp: h'_def client_step_defs client_route_ok_def split: option.splits)
  next
    case (CheckResponse a k q pl)
    with step ok show ?thesis
      by (auto simp: h'_def client_step_defs client_route_ok_def tables_follow_modify case_prod_beta Let_def
          split: option.splits if_splits)
  next
    case (Deliver a pl)
    with step ok show ?thesis
      by (auto simp: h'_def client_step_defs client_route_ok_def client_routed_out_def split: option.splits)
  next
    case (CloseTcp key)
    have "tables_follow s (close_tcp key s)"
      by (auto simp: tables_follow_def close_tcp_sub(2,3) dest: close_tcp_sub(1))
    moreover have "tables_follow s ((close_tcp key s)\<lparr>ca_base := end_reader n (ca_base (close_tcp key s))\<rparr>)" for n
      by (auto simp: tables_follow_def close_tcp_sub(2,3) end_reader_def lookup_delete dest: close_tcp_sub(1) split: if_splits)
    ultimately show ?thesis
      using CloseTcp step by (cases w) (auto simp: h'_def client_step_defs client_route_ok_def Let_def)
  next
    case (ScanUdp t todo dead)
    with step show ?thesis
      by (cases todo) (auto simp: h'_def client_step_def client_route_ok_def Let_def)
  next
    case (SweepUdp t dead)
    with step show ?thesis
      by (cases dead) (auto simp: h'_def client_step_def client_route_ok_def tables_follow_def)
  next
    case (SweepSource t sid dead)
    with step show ?thesis
      by (auto simp: h'_def client_step_defs client_route_ok_def tables_follow_def lookup_delete split: if_splits)
  next
    case (ScanTcp t todo dead)
    have "tables_follow s (fold close_tcp dead s)"
      by (auto simp: tables_follow_def fold_close_tcp_sub(2,3) dest: fold_close_tcp_sub(1))
    with ScanTcp step show ?thesis
      by (cases todo) (auto simp: h'_def client_step_def client_route_ok_def Let_def)
  qed (use makes step ok in \<open>auto simp: h'_def client_step_defs makes_none_def client_route_ok_def
      tables_follow_modify tables_follow_modify_tcp lookup_delete intro!: tables_follow_base
      split: option.splits if_splits\<close>)
  then show ?thesis by blast
qed

text \<open>A new session, and a new connection.\<close>

lemma new_session_routes:
  assumes tables: "client_tables_ok src s" and none: "hm_get (ca_udp_sessions s) a = None"
    and s'_def: "s' = new_session_step w now random a pl s" and k_def: "k = (a, ca_next_session s)"
  shows "hm_get (ca_pending s') = (hm_get (ca_pending s))(w \<mapsto> AddSource k pl)"
    and "extends (session_ids s) src (c_next_conn (ca_base s)) (session_ids s') src (c_next_conn (ca_base s'))"
    and "client_tables_ok src s'"
proof -
  note D = client_tables_okD [OF tables]
  have "hm_get (ca_udp_store s) k = None"
    using D(1) [of k] unfolding k_def by (cases "hm_get (ca_udp_store s) (a, ca_next_session s)") auto
  then have fresh: "session_ids s k = None" by (simp add: id_in_def session_view_def)
  obtain session counter where s': "s' = proceed w (AddSource k pl)
      (s\<lparr>ca_base := (ca_base s)\<lparr>c_session_id_counter := counter\<rparr>,
         ca_next_session := Suc (ca_next_session s), ca_udp_sessions := hm_insert a k (ca_udp_sessions s),
         ca_udp_store := hm_insert k session (ca_udp_store s)\<rparr>)"
    unfolding s'_def k_def new_session_step_def by (auto simp: none Let_def case_prod_beta)
  have ids: "session_ids s' = (session_ids s)(k \<mapsto> us_session_id session)"
    by (simp add: s' fun_eq_iff id_in_def session_view_def)
  show "hm_get (ca_pending s') = (hm_get (ca_pending s))(w \<mapsto> AddSource k pl)" by (simp add: s')
  show ext: "extends (session_ids s) src (c_next_conn (ca_base s)) (session_ids s') src (c_next_conn (ca_base s'))"
    using fresh unfolding extends_def ids by (auto simp: s')
  have "id_of_source (session_ids s') b sid" if "id_of_source (session_ids s) b sid" for b sid
    using that ext unfolding id_of_source_def extends_def by blast
  then show "client_tables_ok src s'"
    using D unfolding client_tables_ok_def by (auto simp: s' k_def less_Suc_eq split: if_splits)
qed

lemma open_tcp_routes:
  assumes tables: "client_tables_ok src s"
    and s'_def: "s' = open_tcp_step w now True k q pl ep eps s" and n_def: "n = c_next_conn (ca_base s)"
  shows "hm_get (ca_pending s') = (hm_get (ca_pending s))(w \<mapsto> TouchTcp k q pl n eps)"
    and "extends (session_ids s) src n (session_ids s') (src(n := fst k)) (c_next_conn (ca_base s'))"
    and "client_tables_ok (src(n := fst k)) s'" and "belongs (src(n := fst k)) (c_next_conn (ca_base s')) n k"
proof -
  note D = client_tables_okD [OF tables]
  let ?key = "session_key (fst k) (ep_address ep)"
  obtain session where s': "s' = proceed w (TouchTcp k q pl n eps)
      (s\<lparr>ca_base := (ca_base s)\<lparr>c_next_conn := Suc n,
            c_readers := hm_insert n \<lparr>tr_source = fst k, tr_key = ?key\<rparr> (c_readers (ca_base s))\<rparr>,
         ca_tcp_sessions := hm_insert ?key n (ca_tcp_sessions s),
         ca_tcp_store := hm_insert n session (ca_tcp_store s)\<rparr>)" "ts_writer session = n"
    unfolding s'_def n_def open_tcp_step_def by (auto simp: Let_def)
  have ids: "session_ids s' = session_ids s" by (simp add: s' fun_eq_iff id_in_def session_view_def)
  show "hm_get (ca_pending s') = (hm_get (ca_pending s))(w \<mapsto> TouchTcp k q pl n eps)" by (simp add: s')
  show "extends (session_ids s) src n (session_ids s') (src(n := fst k)) (c_next_conn (ca_base s'))"
    unfolding extends_def ids by (simp add: s')
  show "belongs (src(n := fst k)) (c_next_conn (ca_base s')) n k" by (simp add: belongs_def s')
  have "m < c_next_conn (ca_base s') \<and> (\<exists>server. key = session_key ((src(n := fst k)) m) server)"
    if "hm_get (ca_tcp_sessions s') key = Some m" for key m
    using that D(3) [of key m] by (cases "key = ?key") (auto simp: s' n_def)
  moreover have "m < c_next_conn (ca_base s') \<and> tr_source r = (src(n := fst k)) m"
    if "hm_get (c_readers (ca_base s')) m = Some r" for m r
    using that D(2) [of m r] by (cases "m = n") (auto simp: s' n_def)
  ultimately show "client_tables_ok (src(n := fst k)) s'"
    using D(1,4,5) s'(2) unfolding client_tables_ok_def ids by (auto simp: s'(1) split: if_splits)
qed

text \<open>Taking up an event.\<close>

definition takes_response ::
    "(session_name \<Rightarrow> u64 option) \<Rightarrow> (conn \<Rightarrow> socket_addr) \<Rightarrow> nat \<Rightarrow> client_async_event list
       \<Rightarrow> (client_worker \<Rightarrow> client_handler option) \<Rightarrow> (client_worker \<Rightarrow> client_handler option) \<Rightarrow> bool" where
  "takes_response ids src next es pending pending' \<longleftrightarrow>
     pending' = pending \<or> (\<exists>w h. pending' = pending(w \<mapsto> h) \<and> client_route_ok ids src next es h)"

lemma takes_response_same [simp]: "takes_response ids src next es pending pending"
  by (simp add: takes_response_def)

lemma takes_response_proceed:
  "client_route_ok ids src next es h \<Longrightarrow> takes_response ids src next es pending (pending(w \<mapsto> h))"
  unfolding takes_response_def by blast

lemma takes_response_cases:
  assumes "takes_response ids src next es pending pending'" and "pending' w = Some h"
  shows "pending w = Some h \<or> client_route_ok ids src next es h"
  using assms by (auto simp: takes_response_def split: if_splits)

lemma begin_routes:
  assumes tables: "client_tables_ok src s" and enabled: "client_async_enabled s (Begin e)"
  shows "takes_response (session_ids s) src (c_next_conn (ca_base s)) (es @ [Begin e])
      (hm_get (ca_pending s)) (hm_get (ca_pending (begin_handler e s))) \<and>
    tables_follow s (begin_handler e s) \<and>
    (\<forall>now n data. e = TcpResponse now n data \<longrightarrow> hm_get (c_readers (ca_base s)) n \<noteq> None)"
proof (cases e)
  case (UdpResponse now sock data)
  have "heard_udp (es @ [Begin e]) sid pl" if "decode_udp data = Inr (sid, q, pl)" for sid q pl
  proof -
    have "Begin (UdpResponse now sock data) \<in> set (es @ [Begin e])" by (simp add: UdpResponse)
    with that show ?thesis unfolding heard_udp_def by blast
  qed
  then show ?thesis
    by (auto simp: UdpResponse begin_handler_def client_route_ok_def split: sum.split
        intro!: takes_response_proceed)
next
  case (TcpResponse now n data)
  from enabled TcpResponse obtain r where r: "hm_get (c_readers (ca_base s)) n = Some r"
    by (auto simp: client_async_enabled_def client_enabled_def)
  have "response_for ids src (es @ [Begin e]) (tr_source r) pl" if "decode_tcp data = Inr (sid, q, pl)" for ids sid q pl
  proof -
    have "Begin (TcpResponse now n data) \<in> set (es @ [Begin e])" by (simp add: TcpResponse)
    with that have "heard_tcp (es @ [Begin e]) n pl" unfolding heard_tcp_def by blast
    moreover have "src n = tr_source r" using client_tables_okD(2) [OF tables r] by simp
    ultimately show ?thesis unfolding response_for_def by blast
  qed
  with r show ?thesis
    by (auto simp: TcpResponse begin_handler_def client_route_ok_def split: sum.split
        intro!: takes_response_proceed)
next
  case (TcpReaderEnds n)
  then show ?thesis
    by (auto simp: begin_handler_def client_route_ok_def split: option.split intro!: takes_response_proceed)
qed (auto simp: begin_handler_def client_route_ok_def client_handle_def client_stop_def end_reader_def
    lookup_delete Let_def split: if_splits intro!: takes_response_proceed tables_follow_base)

section \<open>Along a run\<close>

lemma heard_tcp_snoc:
  "heard_tcp (es @ [ev]) n pl \<Longrightarrow> heard_tcp es n pl \<or> (\<exists>now data. ev = Begin (TcpResponse now n data))"
  unfolding heard_tcp_def by auto

text \<open>Whatever an event adds, the invariant goes on if tables, the task that moves and outputs are right.\<close>

lemma client_routes_next:
  assumes inv: "client_routes_inv src es outs s" and tables: "client_tables_ok src' s'"
    and ext: "extends (session_ids s) src (c_next_conn (ca_base s)) (session_ids s') src' (c_next_conn (ca_base s'))"
    and tasks: "\<And>w h. hm_get (ca_pending s') w = Some h \<Longrightarrow> hm_get (ca_pending s) w = Some h \<or>
      client_route_ok (session_ids s') src' (c_next_conn (ca_base s')) (es @ [ev]) h"
    and outs: "list_all (client_routed_out (session_ids s') src' (c_next_conn (ca_base s')) (es @ [ev])) os"
    and conn: "\<And>now n data. ev = Begin (TcpResponse now n data) \<Longrightarrow> n < c_next_conn (ca_base s)"
  shows "client_routes_inv src' (es @ [ev]) (outs @ os) s'"
proof -
  note D = client_routes_invD [OF inv]
  have heard: "\<forall>n pl. heard_tcp es n pl \<longrightarrow> n < c_next_conn (ca_base s)" using D(2) by blast
  have "client_route_ok (session_ids s') src' (c_next_conn (ca_base s')) (es @ [ev]) h"
    if "hm_get (ca_pending s') w = Some h" for w h
    using tasks [OF that] client_route_ok_mono [OF D(3) ext heard, of w h "[ev]"] by blast
  moreover have "client_routed_out (session_ids s') src' (c_next_conn (ca_base s')) (es @ [ev]) out"
    if "out \<in> set outs" for out
    using D(4) that by (intro client_routed_out_mono [OF _ ext heard]) (simp add: list_all_iff)
  moreover have "n < c_next_conn (ca_base s')" if "heard_tcp (es @ [ev]) n pl" for n pl
    using heard_tcp_snoc [OF that] heard conn [of _ n] ext unfolding extends_def by fastforce
  ultimately show ?thesis
    using tables outs unfolding client_routes_inv_def by (auto simp: list_all_iff)
qed

lemma tables_follow_extends:
  assumes "tables_follow s s'"
  shows "extends (session_ids s) src (c_next_conn (ca_base s)) (session_ids s') src (c_next_conn (ca_base s'))"
  using tables_followD(2,3) [OF assms] by simp

lemma client_routes_step:
  assumes inv: "client_routes_inv src es outs s" and enabled: "client_async_enabled s ev"
    and handle: "client_async_handle ev s = (os, s')"
  shows "\<exists>src'. client_routes_inv src' (es @ [ev]) (outs @ os) s'"
proof (cases ev)
  case (Begin e)
  note D = client_routes_invD [OF inv]
  have s': "os = []" "s' = begin_handler e s" using handle by (simp_all add: Begin client_async_handle_def)
  note B = begin_routes [OF D(1), of e es, OF enabled [unfolded Begin], folded s'(2)]
  then have follow: "tables_follow s s'" by blast
  have "client_routes_inv src (es @ [ev]) (outs @ os) s'"
  proof (rule client_routes_next [OF inv tables_follow_ok [OF D(1) follow] tables_follow_extends [OF follow]])
    show "hm_get (ca_pending s) w = Some h \<or>
        client_route_ok (session_ids s') src (c_next_conn (ca_base s')) (es @ [ev]) h"
      if "hm_get (ca_pending s') w = Some h" for w h
      using B that takes_response_cases tables_followD(2,3) [OF follow] unfolding Begin by metis
    show "n < c_next_conn (ca_base s)" if "ev = Begin (TcpResponse now n data)" for now n data
      using B D(1) that client_tables_okD(2) [OF D(1)] unfolding Begin by blast
  qed (simp add: s'(1))
  then show ?thesis by blast
next
  case (Advance w now random connected)
  note D = client_routes_invD [OF inv]
  from enabled obtain h where h: "hm_get (ca_pending s) w = Some h"
    by (auto simp: Advance client_async_enabled_def split: option.splits)
  with handle have step: "client_step w now random connected h s = (os, s')"
    by (simp add: Advance client_async_handle_def)
  have moved: "client_routes_inv src' (es @ [ev]) (outs @ os) s'"
    if "client_tables_ok src' s'"
      and ext: "extends (session_ids s) src (c_next_conn (ca_base s)) (session_ids s') src' (c_next_conn (ca_base s'))"
      and "hm_get (ca_pending s') = (hm_get (ca_pending s))(w := h')"
      and "\<And>k. h' = Some k \<Longrightarrow> client_route_ok (session_ids s') src' (c_next_conn (ca_base s')) es k"
      and "list_all (client_routed_out (session_ids s') src' (c_next_conn (ca_base s')) es) os"
    for src' h'
  proof (rule client_routes_next [OF inv that(1) ext])
    have heard: "\<forall>n pl. heard_tcp es n pl \<longrightarrow> n < c_next_conn (ca_base s')"
      using D(2) ext unfolding extends_def by fastforce
    show "hm_get (ca_pending s) v = Some k \<or>
        client_route_ok (session_ids s') src' (c_next_conn (ca_base s')) (es @ [ev]) k"
      if "hm_get (ca_pending s') v = Some k" for v k
      using that \<open>hm_get (ca_pending s') = _\<close> client_route_ok_mono [OF _ extends_refl heard]
        \<open>\<And>k. h' = Some k \<Longrightarrow> _ k\<close>
      by (cases "v = w") simp_all
    show "list_all (client_routed_out (session_ids s') src' (c_next_conn (ca_base s')) (es @ [ev])) os"
      using that(5) client_routed_out_mono [OF _ extends_refl heard] by (simp add: list_all_iff)
  qed (simp add: Advance)
  consider "makes_none h" | a pl where "h = NewSession a pl" | k q pl ep eps where "h = OpenTcp k q pl ep eps"
    by (cases h) (auto simp: makes_none_def)
  then show ?thesis
  proof cases
    case 1
    note O = other_step_routes [OF h 1 D(1) D(3) [OF h] step]
    then have follow: "tables_follow s s'" by blast
    from O obtain h' where "hm_get (ca_pending s') = (hm_get (ca_pending s))(w := h')"
      "\<forall>k. h' = Some k \<longrightarrow> client_route_ok (session_ids s) src (c_next_conn (ca_base s)) es k" by blast
    with moved [OF tables_follow_ok [OF D(1) follow] tables_follow_extends [OF follow]] O
    show ?thesis unfolding tables_followD(2,3) [OF follow] by blast
  next
    case (2 a pl)
    then have s': "os = []" "s' = new_session_step w now random a pl s"
      using step by (simp_all add: client_step_def)
    show ?thesis
    proof (cases "hm_get (ca_udp_sessions s) a")
      case (Some k)
      then have "s' = proceed w (TakeNumber k pl) s" by (simp add: s'(2) new_session_known)
      then have "client_routes_inv src (es @ [ev]) (outs @ os) s'"
        by (intro moved [where h' = "Some (TakeNumber k pl)"] tables_follow_ok [OF D(1)] tables_follow_extends)
          (auto simp: client_route_ok_def s'(1))
      then show ?thesis by blast
    next
      case None
      note N = new_session_routes [OF D(1) None s'(2) refl]
      have "client_routes_inv src (es @ [ev]) (outs @ os) s'"
        by (rule moved [OF N(3,2,1)]) (auto simp: client_route_ok_def s'(1))
      then show ?thesis by blast
    qed
  next
    case (3 k q pl ep eps)
    then have s': "os = []" "s' = open_tcp_step w now connected k q pl ep eps s"
      using step by (simp_all add: client_step_def)
    show ?thesis
    proof (cases connected)
      case False
      then have "s' = proceed w (FindTcp k q pl eps) s" by (simp add: s'(2) open_tcp_step_def)
      then have "client_routes_inv src (es @ [ev]) (outs @ os) s'"
        by (intro moved [where h' = "Some (FindTcp k q pl eps)"] tables_follow_ok [OF D(1)] tables_follow_extends)
          (auto simp: client_route_ok_def s'(1))
      then show ?thesis by blast
    next
      case True
      with s'(2) have "s' = open_tcp_step w now True k q pl ep eps s" by simp
      note T = open_tcp_routes [OF D(1) this refl]
      have "client_routes_inv (src(c_next_conn (ca_base s) := fst k)) (es @ [ev]) (outs @ os) s'"
        by (rule moved [OF T(3,2,1)]) (use T(4) in \<open>auto simp: client_route_ok_def s'(1)\<close>)
      then show ?thesis by blast
    qed
  qed
qed

lemma reachable_client_routes_inv:
  assumes "client_async_run (client_async_started r cfg os) es outs s"
  shows "\<exists>src. client_routes_inv src es outs s"
  using assms
proof (induction "client_async_started r cfg os" es outs s rule: run.induct)
  case run_Nil
  have "client_routes_inv src [] [] (client_async_started r cfg os)" for src
    by (simp add: client_routes_inv_def client_tables_ok_def heard_tcp_def client_async_started_def
        client_async_new_def client_started_def client_start_frame client_new_def)
  then show ?case by blast
next
  case (run_snoc es outs s e os' s')
  then show ?case using client_routes_step by blast
qed

end
