(* ===== verification/Server_Async_Live.thy ===== *)
theory Server_Async_Live
  imports Server_Async_Correct Tasks
begin

text \<open>
  The interleaved server is a \<open>task_system\<close>: its handlers come to an end however they interleave,
  and the lock of \<open>sessions\<close> excludes without ever keeping all of them from going on.
\<close>

section \<open>What is left to do\<close>

text \<open>
  Work that does not depend on the paths, and the work of responses, which goes over the paths
  there are. Only steps of the first kind add paths.
\<close>

definition own_work :: "handler \<Rightarrow> nat" where
  "own_work h =
     (case h of
        Lookup _ _ _ _ \<Rightarrow> 9 | Create _ _ _ _ \<Rightarrow> 8 | Connect _ _ _ _ \<Rightarrow> 7 | Touch _ _ _ _ _ \<Rightarrow> 6
      | Check _ _ _ _ _ \<Rightarrow> 5 | Track _ _ _ _ \<Rightarrow> 4 | AddPath _ _ _ _ \<Rightarrow> 3 | Forward _ _ \<Rightarrow> 2
      | ForgetConn _ \<Rightarrow> 2 | DropPath _ _ \<Rightarrow> 1
      | Scan _ todo dead \<Rightarrow> 3 * length todo + 2 * length dead + 3
      | Sweep dead \<Rightarrow> 2 * length dead + 2
      | SweepPaths _ dead \<Rightarrow> 2 * length dead + 3
      | _ \<Rightarrow> 0)"

definition path_count :: "server \<Rightarrow> u64 \<Rightarrow> nat" where
  "path_count s sid = length (unwrap_or (hm_get (s_client_paths s) sid) [])"

definition path_work :: "server \<Rightarrow> handler \<Rightarrow> nat" where
  "path_work s h =
     (case h of
        TouchResponse sid _ \<Rightarrow> path_count s sid + 4 | NextSeq sid _ \<Rightarrow> path_count s sid + 3
      | GetPaths sid _ _ \<Rightarrow> path_count s sid + 2 | SendPaths _ _ _ ps \<Rightarrow> length ps + 1
      | _ \<Rightarrow> 0)"

definition is_response :: "handler \<Rightarrow> bool" where
  "is_response h =
     (case h of TouchResponse _ _ \<Rightarrow> True | NextSeq _ _ \<Rightarrow> True | GetPaths _ _ _ \<Rightarrow> True
      | SendPaths _ _ _ _ \<Rightarrow> True | _ \<Rightarrow> False)"

lemma own_work_step:
  assumes h: "hm_get (a_pending a) w = Some h" and "\<not> is_response h"
    and step: "handler_step w now target h a = (os, a')"
  shows "\<exists>h'. hm_get (a_pending a') = (hm_get (a_pending a))(w := h') \<and>
    (case h' of None \<Rightarrow> 0 | Some k \<Rightarrow> own_work k) < own_work h"
proof -
  define h' where "h' = hm_get (a_pending a') w"
  have "hm_get (a_pending a') = (hm_get (a_pending a))(w := h') \<and>
    (case h' of None \<Rightarrow> 0 | Some k \<Rightarrow> own_work k) < own_work h"
    using assms unfolding h'_def
    by (cases h)
      (auto simp: step_defs own_work_def is_response_def case_prod_beta Let_def
        split: option.splits target_open.splits packet_source.splits worker.splits list.splits if_splits)
  then show ?thesis by blast
qed

lemma path_work_step:
  assumes h: "hm_get (a_pending a) w = Some h" and "is_response h"
    and step: "handler_step w now target h a = (os, a')"
  shows "\<exists>h'. hm_get (a_pending a') = (hm_get (a_pending a))(w := h') \<and> a_base a' = a_base a \<and>
    (case h' of None \<Rightarrow> 0 | Some k \<Rightarrow> path_work (a_base a) k) < path_work (a_base a) h \<and>
    (case h' of None \<Rightarrow> 0 | Some k \<Rightarrow> own_work k) = own_work h"
proof -
  define h' where "h' = hm_get (a_pending a') w"
  have "hm_get (a_pending a') = (hm_get (a_pending a))(w := h') \<and> a_base a' = a_base a \<and>
    (case h' of None \<Rightarrow> 0 | Some k \<Rightarrow> path_work (a_base a) k) < path_work (a_base a) h \<and>
    (case h' of None \<Rightarrow> 0 | Some k \<Rightarrow> own_work k) = own_work h"
  proof (cases h)
    case (SendPaths sid q pl ps)
    with step h show ?thesis
      unfolding h'_def by (cases ps) (auto simp: step_defs path_work_def own_work_def)
  qed (use assms in \<open>auto simp: h'_def step_defs path_work_def own_work_def is_response_def path_count_def
      split: option.splits if_splits\<close>)
  then show ?thesis by blast
qed

text \<open>One step of some busy task.\<close>

definition some_step :: "async_server \<Rightarrow> async_server \<Rightarrow> bool" where
  "some_step a a' \<longleftrightarrow>
     (\<exists>w now target. async_enabled a (Step w now target) \<and>
        a' = snd (async_handle (Step w now target) a))"

definition measures :: "async_server \<Rightarrow> nat \<times> nat" where
  "measures a = (total own_work (hm_get (a_pending a)), total (path_work (a_base a)) (hm_get (a_pending a)))"

lemma some_step_decreases:
  assumes "some_step a a'"
  shows "(measures a', measures a) \<in> less_than <*lex*> less_than"
proof -
  obtain w now target h where h: "hm_get (a_pending a) w = Some h"
      and "a' = snd (handler_step w now target h a)"
    using assms
    by (auto simp: some_step_def async_enabled_def async_handle_def split: option.splits)
  then obtain os where step: "handler_step w now target h a = (os, a')"
    by (metis prod.collapse)
  have fin: "finite (dom (hm_get (a_pending a)))" by simp
  show ?thesis
  proof (cases "is_response h")
    case False
    from own_work_step [OF h False step] obtain h' where
      h': "hm_get (a_pending a') = (hm_get (a_pending a))(w := h')"
        "(case h' of None \<Rightarrow> 0 | Some k \<Rightarrow> own_work k) < own_work h" by blast
    from total_update [OF fin h, of own_work h'] h'(2)
    have "total own_work (hm_get (a_pending a')) < total own_work (hm_get (a_pending a))"
      by (simp add: h'(1))
    then show ?thesis by (simp add: measures_def)
  next
    case True
    from path_work_step [OF h True step] obtain h' where
      h': "hm_get (a_pending a') = (hm_get (a_pending a))(w := h')" "a_base a' = a_base a"
        "(case h' of None \<Rightarrow> 0 | Some k \<Rightarrow> path_work (a_base a) k) < path_work (a_base a) h"
        "(case h' of None \<Rightarrow> 0 | Some k \<Rightarrow> own_work k) = own_work h" by blast
    from total_update [OF fin h, of own_work h'] h'(4)
    have "total own_work (hm_get (a_pending a')) = total own_work (hm_get (a_pending a))"
      by (simp add: h'(1))
    moreover from total_update [OF fin h, of "path_work (a_base a)" h'] h'(3)
    have "total (path_work (a_base a')) (hm_get (a_pending a'))
        < total (path_work (a_base a)) (hm_get (a_pending a))"
      by (simp add: h'(1,2))
    ultimately show ?thesis by (simp add: measures_def)
  qed
qed

section \<open>The lock\<close>

lemma holder_needs_nothing: "holds_sessions h \<Longrightarrow> \<not> needs_sessions h"
  by (cases h) (simp_all add: holds_sessions_def needs_sessions_def)

abbreviation busy :: "async_server \<Rightarrow> worker \<Rightarrow> handler option" where
  "busy a \<equiv> hm_get (a_pending a)"

abbreviation on_sessions :: "(handler \<Rightarrow> bool) \<Rightarrow> handler \<Rightarrow> unit \<Rightarrow> bool" where
  "on_sessions P h l \<equiv> P h"

lemma locked_sessions: "locked busy (on_sessions holds_sessions) a l \<longleftrightarrow> sessions_locked a"
  by (simp add: locked_def sessions_locked_iff)

lemma lock_step:
  assumes h: "hm_get (a_pending a) w = Some h" and step: "handler_step w now target h a = (os, a')"
  shows "(\<forall>v. v \<noteq> w \<longrightarrow> busy a' v = busy a v) \<and>
    (\<forall>k. busy a' w = Some k \<and> holds_sessions k \<longrightarrow> holds_sessions h \<or> needs_sessions h)"
proof (cases h)
  case (SendPaths sid q pl ps)
  with step h show ?thesis
    by (cases ps) (auto simp: step_defs holds_sessions_def needs_sessions_def split: if_splits)
qed (use assms in \<open>auto simp: step_defs holds_sessions_def needs_sessions_def case_prod_beta
    Let_def split: option.splits target_open.splits packet_source.splits worker.splits list.splits if_splits\<close>)

lemma start_moves:
  assumes enabled: "async_enabled a (Start e)"
  shows "\<exists>w. moves busy (on_sessions holds_sessions) a w (snd (start_handler e a))"
proof -
  obtain os a' where start: "start_handler e a = (os, a')" by (cases "start_handler e a")
  from start_step [OF enabled start] have "started_handler a a' (Start e)" by simp
  then have "\<exists>w. moves busy (on_sessions holds_sessions) a w a'"
  proof (cases rule: started_handler_cases)
    case same
    then show ?thesis by (auto simp: moves_def)
  next
    case (busy w h)
    have "holds_sessions h \<Longrightarrow> \<not> sessions_locked a"
    proof -
      assume "holds_sessions h"
      moreover have "h = the (hm_get (a_pending a') w)" using busy(2) by simp
      moreover have "hm_get (a_pending a') w \<noteq> None" using busy(2) by simp
      ultimately have "\<exists>t. e = ServerTick t"
        using start busy(1) by (cases e)
          (auto simp: start_handler_def Let_def holds_sessions_def split: sum.splits option.splits if_splits)
      with enabled show ?thesis by (auto simp: async_enabled_def)
    qed
    with busy(1,2) show ?thesis
      by (intro exI [of _ w]) (auto simp: moves_def locked_sessions)
  qed
  with start show ?thesis by simp
qed

lemma async_moves:
  assumes "async_enabled a ev"
  shows "\<exists>w. moves busy (on_sessions holds_sessions) a w (snd (async_handle ev a))"
proof (cases ev)
  case (Start e)
  with start_moves assms show ?thesis by (simp add: async_handle_def)
next
  case (Step w now target)
  with assms obtain h where h: "hm_get (a_pending a) w = Some h"
      and free: "needs_sessions h \<Longrightarrow> \<not> sessions_locked a"
    by (auto simp: async_enabled_def split: option.splits)
  obtain os a' where step: "handler_step w now target h a = (os, a')"
    by (cases "handler_step w now target h a")
  from lock_step [OF h step] free h step Step show ?thesis
    by (intro exI [of _ w]) (auto simp: async_handle_def moves_def locked_sessions)
qed

section \<open>The contract holds\<close>

abbreviation step_of :: "worker \<Rightarrow> instant \<times> target_open \<Rightarrow> async_event" where
  "step_of w i \<equiv> Step w (fst i) (snd i)"

interpretation async_tasks: task_system async_enabled async_handle busy step_of
  "on_sessions holds_sessions" "on_sessions needs_sessions" measures
proof (unfold_locales, goal_cases)
  case (1 s w i)
  show ?case by (auto simp: async_enabled_def locked_sessions split: option.split)
next
  case (2 s w i)
  then show ?case by (intro some_step_decreases) (auto simp: some_step_def)
next
  case (3 h l m)
  then show ?case by (rule holder_needs_nothing)
next
  case (4 s e)
  then show ?case by (rule async_moves)
qed

lemma some_step_wf: "wf {(a', a). some_step a a'}"
  by (rule wf_subset [OF async_tasks.steps_wf]) (auto simp: some_step_def)

definition all_idle :: "async_server \<Rightarrow> bool" where
  "all_idle a \<longleftrightarrow> hm_get (a_pending a) = (\<lambda>_. None)"

definition is_step :: "async_event \<Rightarrow> bool" where
  "is_step ev = (case ev of Step _ _ _ \<Rightarrow> True | Start _ \<Rightarrow> False)"

lemma drain: "\<exists>es outs a'. async_run a es outs a' \<and> list_all is_step es \<and> all_idle a'"
proof -
  obtain es outs a' where "async_run a es outs a'"
      "list_all (\<lambda>e. \<exists>w i. e = step_of w i) es" "busy a' = (\<lambda>_. None)"
    using async_tasks.steps_drain by blast
  moreover from this(2) have "list_all is_step es"
    by (auto simp: list_all_iff is_step_def)
  ultimately show ?thesis unfolding all_idle_def by blast
qed

lemma reachable_exclusive:
  assumes "async_run (async_started cfg os) es outs a"
  shows "exclusive busy (on_sessions holds_sessions) a"
  by (rule async_tasks.exclusive_along [OF assms])
    (simp add: exclusive_def async_started_def async_new_def)

end
