(* ===== verification/Server_Async_Answers.thy ===== *)
theory Server_Async_Answers
  imports Server_Async_Live
begin

text \<open>
  The responses of the interleaved server: every response of a target gets one number, and what
  goes out on the paths of a session carries the number and the payload of such a response.
\<close>

section \<open>The invariant\<close>

text \<open>The payloads that have come from targets.\<close>

definition responses_of :: "async_event list \<Rightarrow> bytes list" where
  "responses_of es =
     concat (map (\<lambda>ev. case ev of Start (TargetResponse _ _ pl) \<Rightarrow> [pl] | _ \<Rightarrow> []) es)"

lemma responses_of_simps [simp]:
  "responses_of [] = []" "responses_of (es @ fs) = responses_of es @ responses_of fs"
  "responses_of [Step w now target] = []"
  by (simp_all add: responses_of_def)

text \<open>A response without a number yet, and one with its number.\<close>

definition unanswered :: "bytes \<Rightarrow> handler \<Rightarrow> bool" where
  "unanswered pl h = (case h of TouchResponse _ p \<Rightarrow> p = pl | NextSeq _ p \<Rightarrow> p = pl | _ \<Rightarrow> False)"

definition answering :: "handler \<Rightarrow> packet option" where
  "answering h =
     (case h of GetPaths sid q pl \<Rightarrow> Some (sid, q, pl) | SendPaths sid q pl ps \<Rightarrow> Some (sid, q, pl)
      | _ \<Rightarrow> None)"

definition answer_sent :: "packet set \<Rightarrow> server_output \<Rightarrow> bool" where
  "answer_sent ans out =
     (case out of
        TargetSend n pl \<Rightarrow> True
      | ClientSend sock bs a \<Rightarrow> \<exists>(sid, q, pl) \<in> ans. bs = encode_udp sid q pl
      | ClientWrite n bs \<Rightarrow> \<exists>(sid, q, pl) \<in> ans. bs = tcp_frame (encode_tcp sid q pl))"

text \<open>\<open>ans\<close> are the numbered responses so far.\<close>

definition answered :: "bytes \<Rightarrow> packet list \<Rightarrow> nat" where
  "answered pl ans = length (filter (\<lambda>(sid, q, p). p = pl) ans)"

definition answers_inv ::
    "packet list \<Rightarrow> async_event list \<Rightarrow> server_output list \<Rightarrow> (worker \<Rightarrow> handler option) \<Rightarrow> bool" where
  "answers_inv ans es outs pending \<longleftrightarrow>
     (\<forall>w h p. pending w = Some h \<and> answering h = Some p \<longrightarrow> p \<in> set ans) \<and>
     (\<forall>pl. answered pl ans + card (tasks_at pending (unanswered pl)) \<le> count_list (responses_of es) pl) \<and>
     list_all (answer_sent (set ans)) outs"

lemma answers_invD:
  assumes "answers_inv ans es outs pending"
  shows "pending w = Some h \<Longrightarrow> answering h = Some p \<Longrightarrow> p \<in> set ans"
    and "answered pl ans + card (tasks_at pending (unanswered pl)) \<le> count_list (responses_of es) pl"
    and "list_all (answer_sent (set ans)) outs"
  using assms unfolding answers_inv_def by blast+

lemma answer_sent_mono: "answer_sent A out \<Longrightarrow> A \<subseteq> B \<Longrightarrow> answer_sent B out"
  by (auto simp: answer_sent_def split: server_output.splits)

lemma answer_sent_path: "(sid, q, pl) \<in> A \<Longrightarrow> answer_sent A (response_on_path sid q pl p)"
  by (auto simp: answer_sent_def response_on_path_def split: client_path.split)

section \<open>Steps\<close>

text \<open>The response that a step numbers, and what a step does to the task that takes it.\<close>

definition numbered :: "handler \<Rightarrow> handler option \<Rightarrow> packet list" where
  "numbered h h' =
     (case h of
        NextSeq _ _ \<Rightarrow> (case h' of Some (GetPaths sid q pl) \<Rightarrow> [(sid, q, pl)] | _ \<Rightarrow> [])
      | _ \<Rightarrow> [])"

definition answers_step :: "handler \<Rightarrow> handler option \<Rightarrow> server_output list \<Rightarrow> bool" where
  "answers_step h h' os \<longleftrightarrow>
     (\<forall>pl. answered pl (numbered h h') + (if \<exists>k. h' = Some k \<and> unanswered pl k then 1 else 0)
        \<le> (if unanswered pl h then 1 else 0)) \<and>
     (\<forall>k p. h' = Some k \<and> answering k = Some p \<longrightarrow> answering h = Some p \<or> p \<in> set (numbered h h')) \<and>
     (\<forall>out \<in> set os. (\<exists>n pl. out = TargetSend n pl) \<or>
        (\<exists>sid q pl p. answering h = Some (sid, q, pl) \<and> out = response_on_path sid q pl p))"

lemmas answers_defs = answers_step_def numbered_def answered_def unanswered_def answering_def

lemma handler_step_answers:
  assumes h: "hm_get (a_pending a) w = Some h" and step: "handler_step w now target h a = (os, a')"
  shows "\<exists>h'. hm_get (a_pending a') = (hm_get (a_pending a))(w := h') \<and> answers_step h h' os"
proof -
  define h' where "h' = hm_get (a_pending a') w"
  have "hm_get (a_pending a') = (hm_get (a_pending a))(w := h') \<and> answers_step h h' os"
  proof (cases h)
    case (SendPaths sid q pl ps)
    with step h show ?thesis
      unfolding h'_def by (cases ps) (auto simp: step_defs answers_defs split: if_splits)
  qed (use assms in \<open>auto simp: h'_def step_defs answers_defs case_prod_beta Let_def
      split: option.splits target_open.splits packet_source.splits worker.splits list.splits if_splits\<close>)
  then show ?thesis by blast
qed

lemma answers_inv_step:
  assumes inv: "answers_inv ans es outs pending" and fin: "finite (dom pending)"
    and w: "pending w = Some h" and step: "answers_step h h' os"
  shows "answers_inv (ans @ numbered h h') (es @ [Step v now target]) (outs @ os) (pending(w := h'))"
proof -
  note D = answers_invD [OF inv]
  have "p \<in> set (ans @ numbered h h')"
    if "(pending(w := h')) u = Some k" "answering k = Some p" for u k p
  proof (cases "u = w")
    case True
    with that(1) have "h' = Some k" by simp
    with that(2) step have "answering h = Some p \<or> p \<in> set (numbered h h')"
      unfolding answers_step_def by blast
    then show ?thesis unfolding set_append using D(1) [OF w] by blast
  next
    case False
    with that D(1) [of u k p] show ?thesis by simp
  qed
  moreover have "answered pl (ans @ numbered h h') + card (tasks_at (pending(w := h')) (unanswered pl))
      \<le> count_list (responses_of (es @ [Step v now target])) pl" for pl
  proof -
    have "answered pl (numbered h h') + (if \<exists>k. h' = Some k \<and> unanswered pl k then 1 else 0)
        \<le> (if unanswered pl h then 1 else 0)"
      using step by (simp add: answers_step_def)
    moreover have "answered pl (ans @ numbered h h') = answered pl ans + answered pl (numbered h h')"
      by (simp add: answered_def)
    ultimately show ?thesis
      using card_tasks_at [OF fin w, of h' "unanswered pl"] D(2) [of pl]
      by (cases h') (simp_all split: if_splits)
  qed
  moreover have "list_all (answer_sent (set (ans @ numbered h h'))) (outs @ os)"
  proof -
    have "answer_sent (set ans) out" if "out \<in> set os" for out
    proof -
      from step that consider n pl where "out = TargetSend n pl"
        | sid q pl p where "answering h = Some (sid, q, pl)" "out = response_on_path sid q pl p"
        unfolding answers_step_def by blast
      then show ?thesis
        using D(1) [OF w] by cases (auto simp: answer_sent_def [of _ "TargetSend _ _"] answer_sent_path)
    qed
    then show ?thesis
      using D(3) answer_sent_mono [of "set ans" _ "set (ans @ numbered h h')"]
      by (auto simp: list_all_iff)
  qed
  ultimately show ?thesis unfolding answers_inv_def by blast
qed

text \<open>Taking up an event.\<close>

definition takes_up :: "server_event \<Rightarrow> (worker \<Rightarrow> handler option) \<Rightarrow> (worker \<Rightarrow> handler option) \<Rightarrow> bool" where
  "takes_up e pending pending' \<longleftrightarrow>
     pending' = pending \<or>
     (\<exists>w h. pending w = None \<and> pending' = pending(w \<mapsto> h) \<and> answering h = None \<and>
        (\<forall>pl. unanswered pl h \<longrightarrow> (\<exists>now n. e = TargetResponse now n pl)))"

lemma takes_up_same [simp]: "takes_up e pending pending"
  by (simp add: takes_up_def)

lemma takes_up_goto:
  assumes "pending w = None" and "answering h = None"
    and "\<And>pl. unanswered pl h \<Longrightarrow> \<exists>now n. e = TargetResponse now n pl"
  shows "takes_up e pending (pending(w \<mapsto> h))"
  using assms unfolding takes_up_def by blast

lemma start_takes_up:
  assumes enabled: "async_enabled a (Start e)" and start: "start_handler e a = (os, a')"
  shows "os = [] \<and> takes_up e (hm_get (a_pending a)) (hm_get (a_pending a'))"
proof -
  have idle: "hm_get (a_pending a) w = None" if "worker_of e = Some w" for w
    using enabled that by (simp add: async_enabled_def)
  from start idle show ?thesis
    by (cases e)
      (auto simp: start_handler_def worker_of_def answering_def unanswered_def Let_def
        split: sum.splits option.splits intro!: takes_up_goto)
qed

lemma answers_inv_takes_up:
  assumes inv: "answers_inv ans es outs pending" and fin: "finite (dom pending)"
    and up: "takes_up e pending pending'"
  shows "answers_inv ans (es @ [Start e]) outs pending'"
proof -
  note D = answers_invD [OF inv]
  have grows: "count_list (responses_of es) pl \<le> count_list (responses_of (es @ [Start e])) pl" for pl
    by simp
  from up consider "pending' = pending"
    | w h where "pending w = None" "pending' = pending(w \<mapsto> h)" "answering h = None"
        "\<And>pl. unanswered pl h \<Longrightarrow> \<exists>now n. e = TargetResponse now n pl"
    unfolding takes_up_def by blast
  then show ?thesis
  proof cases
    case 1
    with D(1,3) le_trans [OF D(2) grows] show ?thesis unfolding answers_inv_def by blast
  next
    case (2 w h)
    have "count_list (responses_of es) pl + (if unanswered pl h then 1 else 0)
        \<le> count_list (responses_of (es @ [Start e])) pl" for pl
      using 2(4) [of pl] by (auto simp: responses_of_def)
    from add_le_mono [OF D(2) order_refl, THEN order_trans, OF this]
    have "answered pl ans + card (tasks_at pending' (unanswered pl))
        \<le> count_list (responses_of (es @ [Start e])) pl" for pl
      unfolding 2(2) card_tasks_at_start [of pending w h "unanswered pl", OF fin 2(1)] add.assoc .
    moreover have "p \<in> set ans" if "pending' u = Some k" "answering k = Some p" for u k p
      using that D(1) [of u k p] 2(3) by (auto simp: 2(2) split: if_splits)
    ultimately show ?thesis using D(3) unfolding answers_inv_def by blast
  qed
qed

section \<open>Along a run\<close>

lemma answers_inv_along:
  assumes "async_run (async_started cfg os) es outs a"
  shows "\<exists>ans. answers_inv ans es outs (hm_get (a_pending a))"
  using assms
proof (induction "async_started cfg os" es outs a rule: run.induct)
  case run_Nil
  show ?case
    by (intro exI [of _ "[]"]) (simp add: answers_inv_def answered_def tasks_at_def async_started_def async_new_def)
next
  case (run_snoc es outs a ev os' a')
  then obtain ans where inv: "answers_inv ans es outs (hm_get (a_pending a))" by blast
  show ?case
  proof (cases ev)
    case (Start e)
    with run_snoc.hyps have "os' = [] \<and> takes_up e (hm_get (a_pending a)) (hm_get (a_pending a'))"
      by (intro start_takes_up) (simp_all add: async_handle_def)
    with answers_inv_takes_up [OF inv] Start show ?thesis by auto
  next
    case (Step w now target)
    with run_snoc.hyps obtain h where h: "hm_get (a_pending a) w = Some h"
      by (auto simp: async_enabled_def split: option.splits)
    with run_snoc.hyps Step have "handler_step w now target h a = (os', a')"
      by (simp add: async_handle_def)
    from handler_step_answers [OF h this] obtain h' where
      "hm_get (a_pending a') = (hm_get (a_pending a))(w := h')" "answers_step h h' os'" by blast
    with answers_inv_step [OF inv _ h, of h' os' w now target] Step show ?thesis
      by (intro exI [of _ "ans @ numbered h h'"]) simp
  qed
qed

end
