(* ===== verification/Server_Async_Routes.thy ===== *)
theory Server_Async_Routes
  imports Server_Async_Answers
begin

text \<open>
  Where the responses of the interleaved server come from and where they go: a response that
  goes out for a session came from the target over a socket of that session, and it goes to a TCP
  connection only if a packet of the session has arrived on it.
\<close>

section \<open>The invariant\<close>

text \<open>What has come from the target over a socket, and sessions heard of on a connection.\<close>

definition responded :: "async_event list \<Rightarrow> socket \<Rightarrow> bytes \<Rightarrow> bool" where
  "responded es n pl \<longleftrightarrow> (\<exists>now. Start (TargetResponse now n pl) \<in> set es)"

definition arrived_on :: "async_event list \<Rightarrow> conn \<Rightarrow> u64 \<Rightarrow> bool" where
  "arrived_on es m sid \<longleftrightarrow>
     (\<exists>now target data q pl. Start (TcpArrives now target m data) \<in> set es \<and>
        decode_tcp data = Inr (sid, q, pl))"

definition answer_of :: "(socket \<Rightarrow> u64) \<Rightarrow> async_event list \<Rightarrow> u64 \<Rightarrow> bytes \<Rightarrow> bool" where
  "answer_of own es sid pl \<longleftrightarrow> (\<exists>n. own n = sid \<and> responded es n pl)"

definition path_ok :: "async_event list \<Rightarrow> u64 \<Rightarrow> client_path \<Rightarrow> bool" where
  "path_ok es sid p = (case p of UdpPath addr sock \<Rightarrow> True | TcpPath cid m \<Rightarrow> arrived_on es m sid)"

definition source_ok :: "async_event list \<Rightarrow> u64 \<Rightarrow> packet_source \<Rightarrow> bool" where
  "source_ok es sid src = (case src of FromUdp sock addr \<Rightarrow> True | FromTcp cid m \<Rightarrow> arrived_on es m sid)"

definition route_ok :: "(socket \<Rightarrow> u64) \<Rightarrow> async_event list \<Rightarrow> handler \<Rightarrow> bool" where
  "route_ok own es h =
     (case h of
        Lookup src sid q pl \<Rightarrow> source_ok es sid src
      | Create src sid q pl \<Rightarrow> source_ok es sid src
      | Connect src sid q pl \<Rightarrow> source_ok es sid src
      | Touch src sid q pl n \<Rightarrow> source_ok es sid src
      | Check src sid q pl n \<Rightarrow> source_ok es sid src
      | Track src sid pl n \<Rightarrow> source_ok es sid src
      | AddPath src sid pl n \<Rightarrow> source_ok es sid src
      | TouchResponse sid pl \<Rightarrow> answer_of own es sid pl
      | NextSeq sid pl \<Rightarrow> answer_of own es sid pl
      | GetPaths sid q pl \<Rightarrow> answer_of own es sid pl
      | SendPaths sid q pl ps \<Rightarrow> answer_of own es sid pl \<and> list_all (path_ok es sid) ps
      | _ \<Rightarrow> True)"

definition routed_out :: "(socket \<Rightarrow> u64) \<Rightarrow> async_event list \<Rightarrow> server_output \<Rightarrow> bool" where
  "routed_out own es out =
     (case out of
        TargetSend n pl \<Rightarrow> True
      | ClientSend sock bs addr \<Rightarrow> \<exists>sid q pl. bs = encode_udp sid q pl \<and> answer_of own es sid pl
      | ClientWrite m bs \<Rightarrow>
          \<exists>sid q pl. bs = tcp_frame (encode_tcp sid q pl) \<and> answer_of own es sid pl \<and> arrived_on es m sid)"

definition paths_ok :: "async_event list \<Rightarrow> (u64 \<Rightarrow> client_path list option) \<Rightarrow> bool" where
  "paths_ok es paths \<longleftrightarrow> (\<forall>sid ps. paths sid = Some ps \<longrightarrow> list_all (path_ok es sid) ps)"

definition routes_inv ::
    "(socket \<Rightarrow> u64) \<Rightarrow> async_event list \<Rightarrow> server_output list \<Rightarrow> async_server \<Rightarrow> bool" where
  "routes_inv own es outs a \<longleftrightarrow>
     (\<forall>n sid. hm_get (s_responders (a_base a)) n = Some sid \<longrightarrow> n < s_next_socket (a_base a) \<and> own n = sid) \<and>
     (\<forall>n pl. responded es n pl \<longrightarrow> n < s_next_socket (a_base a)) \<and>
     paths_ok es (hm_get (s_client_paths (a_base a))) \<and>
     (\<forall>w h. hm_get (a_pending a) w = Some h \<longrightarrow> route_ok own es h) \<and>
     list_all (routed_out own es) outs"

lemma routes_invD:
  assumes "routes_inv own es outs a"
  shows "hm_get (s_responders (a_base a)) n = Some sid \<Longrightarrow> n < s_next_socket (a_base a) \<and> own n = sid"
    and "responded es n pl \<Longrightarrow> n < s_next_socket (a_base a)"
    and "paths_ok es (hm_get (s_client_paths (a_base a)))"
    and "hm_get (a_pending a) w = Some h \<Longrightarrow> route_ok own es h"
    and "list_all (routed_out own es) outs"
  using assms unfolding routes_inv_def by blast+

section \<open>More events\<close>

lemma arrived_on_mono: "arrived_on es m sid \<Longrightarrow> arrived_on (es @ fs) m sid"
  unfolding arrived_on_def by (metis Un_iff set_append)

lemma path_ok_mono: "path_ok es sid p \<Longrightarrow> path_ok (es @ fs) sid p"
  by (auto simp: path_ok_def arrived_on_mono split: client_path.split)

lemma paths_ok_mono: "paths_ok es paths \<Longrightarrow> paths_ok (es @ fs) paths"
  by (auto simp: paths_ok_def list_all_iff path_ok_mono)

text \<open>New sockets get their session identifier when they are opened.\<close>

lemma answer_of_mono:
  assumes "answer_of own es sid pl"
    and "\<And>n pl. responded es n pl \<Longrightarrow> own' n = own n"
  shows "answer_of own' (es @ fs) sid pl"
  using assms unfolding answer_of_def responded_def by fastforce

lemma route_ok_mono:
  assumes "route_ok own es h" and "\<And>n pl. responded es n pl \<Longrightarrow> own' n = own n"
  shows "route_ok own' (es @ fs) h"
proof -
  have "source_ok es sid src \<Longrightarrow> source_ok (es @ fs) sid src" for sid src
    by (auto simp: source_ok_def arrived_on_mono split: packet_source.split)
  moreover have "answer_of own es sid pl \<Longrightarrow> answer_of own' (es @ fs) sid pl" for sid pl
    by (rule answer_of_mono [OF _ assms(2)])
  moreover have "list_all (path_ok es sid) ps \<Longrightarrow> list_all (path_ok (es @ fs) sid) ps" for sid ps
    by (auto simp: list_all_iff path_ok_mono)
  ultimately show ?thesis using assms(1) by (cases h) (auto simp: route_ok_def)
qed

lemma routed_out_mono:
  assumes "routed_out own es out" and "\<And>n pl. responded es n pl \<Longrightarrow> own' n = own n"
  shows "routed_out own' (es @ fs) out"
proof -
  have "answer_of own es sid pl \<Longrightarrow> answer_of own' (es @ fs) sid pl" for sid pl
    by (rule answer_of_mono [OF _ assms(2)])
  then show ?thesis
    using assms(1) arrived_on_mono [of es _ _ fs]
    by (cases out) (simp add: routed_out_def, simp add: routed_out_def, blast, simp add: routed_out_def, blast)
qed

section \<open>Steps\<close>

lemma session_paths_ok:
  assumes "paths_ok es paths"
  shows "list_all (path_ok es sid) (unwrap_or (paths sid) [])"
  using assms by (cases "paths sid") (auto simp: paths_ok_def)

lemma paths_ok_update:
  "paths_ok es paths \<Longrightarrow> list_all (path_ok es sid) ps \<Longrightarrow> paths_ok es (paths(sid \<mapsto> ps))"
  by (simp add: paths_ok_def)

lemma update_udp_path_ok:
  assumes "update_udp_path addr sock ps = Some ps'" and "list_all (path_ok es sid) ps"
  shows "list_all (path_ok es sid) ps'"
proof -
  have "path_ok es sid p" if "p \<in> set ps'" for p
  proof (cases p)
    case (TcpPath cid m)
    with that update_udp_path_Some [OF assms(1)] have "p \<in> set ps" by auto
    with assms(2) show ?thesis by (simp add: list_all_iff)
  qed (simp add: path_ok_def)
  then show ?thesis by (simp add: list_all_iff)
qed

lemma add_udp_path_ok:
  assumes "paths_ok es (hm_get (s_client_paths s))"
  shows "paths_ok es (hm_get (s_client_paths (add_udp_path s sid addr sock)))"
proof -
  note old = session_paths_ok [OF assms, of sid]
  have "path_ok es sid (UdpPath addr sock)" by (simp add: path_ok_def)
  with old update_udp_path_ok [OF _ old] assms show ?thesis
    by (auto simp: add_udp_path_def Let_def split: option.split intro!: paths_ok_update)
qed

lemma push_tcp_path_ok:
  assumes "paths_ok es (hm_get (s_client_paths s))" and "arrived_on es m sid"
  shows "paths_ok es (hm_get (s_client_paths (push_tcp_path s sid cid m)))"
  using assms session_paths_ok [OF assms(1), of sid]
  by (auto simp: push_tcp_path_def Let_def path_ok_def intro!: paths_ok_update)

lemma routed_out_path:
  assumes "answer_of own es sid pl" and "path_ok es sid p"
  shows "routed_out own es (response_on_path sid q pl p)"
  using assms by (cases p) (auto simp: routed_out_def response_on_path_def path_ok_def)

text \<open>What a step does to the responders.\<close>

definition opens :: "async_server \<Rightarrow> async_server \<Rightarrow> bool" where
  "opens a a' \<longleftrightarrow>
     (\<exists>sid. hm_get (s_responders (a_base a')) = (hm_get (s_responders (a_base a)))(s_next_socket (a_base a) \<mapsto> sid) \<and>
        s_next_socket (a_base a') = Suc (s_next_socket (a_base a)) \<and>
        hm_get (a_sessions a') sid = Some (s_next_socket (a_base a)))"

lemma handler_step_routes:
  assumes h: "hm_get (a_pending a) w = Some h" and ok: "route_ok own es h"
    and paths: "paths_ok es (hm_get (s_client_paths (a_base a)))"
    and step: "handler_step w now target h a = (os, a')"
  shows "(\<exists>h'. hm_get (a_pending a') = (hm_get (a_pending a))(w := h') \<and>
      (\<forall>k. h' = Some k \<longrightarrow> route_ok own es k)) \<and>
    paths_ok es (hm_get (s_client_paths (a_base a'))) \<and> list_all (routed_out own es) os \<and>
    (s_responders (a_base a') = s_responders (a_base a) \<and>
     s_next_socket (a_base a') = s_next_socket (a_base a) \<or> opens a a')"
proof -
  define h' where "h' = hm_get (a_pending a') w"
  let ?conclusion = "(hm_get (a_pending a') = (hm_get (a_pending a))(w := h') \<and>
      (\<forall>k. h' = Some k \<longrightarrow> route_ok own es k)) \<and>
    paths_ok es (hm_get (s_client_paths (a_base a'))) \<and> list_all (routed_out own es) os \<and>
    (s_responders (a_base a') = s_responders (a_base a) \<and>
     s_next_socket (a_base a') = s_next_socket (a_base a) \<or> opens a a')"
  have ?conclusion
  proof (cases h)
    case (Connect src sid q pl)
    with step ok paths show ?thesis
      by (cases target) (auto simp: h'_def step_defs route_ok_def Let_def opens_def)
  next
    case (AddPath src sid pl n)
    with step ok paths show ?thesis
      by (cases src) (auto simp: h'_def step_defs route_ok_def source_ok_def add_udp_path_ok push_tcp_path_ok)
  next
    case (GetPaths sid q pl)
    with step ok paths show ?thesis
      by (auto simp: h'_def step_defs route_ok_def paths_ok_def split: option.splits if_splits)
  next
    case (SendPaths sid q pl ps)
    with step ok paths show ?thesis
      by (cases ps) (auto simp: h'_def step_defs route_ok_def routed_out_path split: if_splits)
  next
    case (DropPath sid cid)
    have "list_all (path_ok es sid) (filter P ps)" if "hm_get (s_client_paths (a_base a)) sid = Some ps" for ps P
      using that paths by (auto simp: paths_ok_def list_all_iff)
    with DropPath step paths show ?thesis
      by (cases w; cases "hm_get (s_client_paths (a_base a)) sid")
        (auto simp: h'_def step_defs Let_def intro!: paths_ok_update)
  next
    case (SweepPaths sid dead)
    with step paths show ?thesis
      by (auto simp: h'_def step_defs route_ok_def paths_ok_def lookup_delete split: if_splits)
  qed (use step ok paths in \<open>auto simp: h'_def step_defs route_ok_def routed_out_def source_ok_def
      case_prod_beta Let_def track_conn_def
      split: option.splits packet_source.splits worker.splits list.splits if_splits\<close>)
  then show ?thesis by blast
qed

text \<open>Taking up an event.\<close>

definition takes_route ::
    "(socket \<Rightarrow> u64) \<Rightarrow> async_event list \<Rightarrow> (worker \<Rightarrow> handler option) \<Rightarrow> (worker \<Rightarrow> handler option) \<Rightarrow> bool" where
  "takes_route own es pending pending' \<longleftrightarrow>
     pending' = pending \<or> (\<exists>w h. pending' = pending(w \<mapsto> h) \<and> route_ok own es h)"

lemma takes_route_same [simp]: "takes_route own es pending pending"
  by (simp add: takes_route_def)

lemma takes_route_goto: "route_ok own es h \<Longrightarrow> takes_route own es pending (pending(w \<mapsto> h))"
  unfolding takes_route_def by blast

lemma takes_route_cases:
  assumes "takes_route own es pending pending'" and "pending' w = Some h"
  shows "pending w = Some h \<or> route_ok own es h"
  using assms by (auto simp: takes_route_def split: if_splits)

lemma start_routes:
  assumes inv: "routes_inv own es outs a" and enabled: "async_enabled a (Start e)"
    and start: "start_handler e a = (os, a')"
  shows "os = [] \<and>
    takes_route own (es @ [Start e]) (hm_get (a_pending a)) (hm_get (a_pending a')) \<and>
    s_client_paths (a_base a') = s_client_paths (a_base a) \<and>
    s_next_socket (a_base a') = s_next_socket (a_base a) \<and>
    (\<forall>n sid. hm_get (s_responders (a_base a')) n = Some sid \<longrightarrow> hm_get (s_responders (a_base a)) n = Some sid) \<and>
    (\<forall>now n pl. e = TargetResponse now n pl \<longrightarrow> hm_get (s_responders (a_base a)) n \<noteq> None)"
proof (cases e)
  case (TcpArrives now target n data)
  have "arrived_on (es @ [Start e]) n sid" if "decode_tcp data = Inr (sid, q, pl)" for sid q pl
  proof -
    have "Start (TcpArrives now target n data) \<in> set (es @ [Start e])" by (simp add: TcpArrives)
    with that show ?thesis unfolding arrived_on_def by blast
  qed
  with start TcpArrives show ?thesis
    by (auto simp: start_handler_def route_ok_def source_ok_def split: option.splits sum.splits
        intro!: takes_route_goto)
next
  case (TargetResponse now n pl)
  from enabled TargetResponse obtain sid where n: "hm_get (s_responders (a_base a)) n = Some sid"
    by (auto simp: async_enabled_def server_enabled_def)
  with routes_invD(1) [OF inv n] have "answer_of own (es @ [Start e]) sid pl"
    by (auto simp: answer_of_def responded_def TargetResponse)
  with start TargetResponse n show ?thesis
    by (auto simp: start_handler_def route_ok_def intro!: takes_route_goto)
qed (use start in \<open>auto simp: start_handler_def server_handle_def server_stop_def Let_def route_ok_def
    source_ok_def lookup_delete split: option.splits sum.splits if_splits
    intro!: takes_route_goto\<close>)

section \<open>Along a run\<close>

lemma responded_snoc:
  "responded (es @ [ev]) n pl \<longleftrightarrow> responded es n pl \<or> (\<exists>now. ev = Start (TargetResponse now n pl))"
  by (auto simp: responded_def)

lemma routes_inv_start:
  assumes inv: "routes_inv own es outs a" and enabled: "async_enabled a (Start e)"
    and start: "start_handler e a = (os, a')"
  shows "routes_inv own (es @ [Start e]) (outs @ os) a'"
proof -
  note D = routes_invD [OF inv] and S = start_routes [OF inv enabled start]
  have "route_ok own (es @ [Start e]) h" if "hm_get (a_pending a') w = Some h" for w h
  proof -
    have "hm_get (a_pending a) w = Some h \<or> route_ok own (es @ [Start e]) h"
      using S that by (blast dest: takes_route_cases)
    with route_ok_mono [OF D(4), of w h own "[Start e]"] show ?thesis by blast
  qed
  moreover have "n < s_next_socket (a_base a')" if "responded (es @ [Start e]) n pl" for n pl
    using that S D(1) [of n] D(2) [of n pl] unfolding responded_snoc by auto
  moreover have "list_all (routed_out own (es @ [Start e])) (outs @ os)"
    using D(5) S routed_out_mono [where fs = "[Start e]"] by (auto simp: list_all_iff)
  ultimately show ?thesis
    using S D(1) paths_ok_mono [OF D(3)] unfolding routes_inv_def by metis
qed

lemma routes_inv_own:
  assumes inv: "routes_inv own es outs a" and own': "\<And>n. n < s_next_socket (a_base a) \<Longrightarrow> own' n = own n"
  shows "routes_inv own' es outs a"
proof -
  note D = routes_invD [OF inv]
  have same: "own' n = own n" if "responded es n pl" for n pl using own' D(2) that by blast
  have "route_ok own' es h" if "hm_get (a_pending a) w = Some h" for w h
    using route_ok_mono [OF D(4) [OF that] same, where fs = "[]"] by simp
  moreover have "list_all (routed_out own' es) outs"
    using D(5) routed_out_mono [OF _ same, where fs = "[]"] by (simp add: list_all_iff)
  ultimately show ?thesis using D(1-3) own' unfolding routes_inv_def by metis
qed

lemma routes_inv_step:
  assumes inv: "routes_inv own es outs a" and h: "hm_get (a_pending a) w = Some h"
    and step: "handler_step w now target h a = (os, a')"
    and own': "\<And>n. n < s_next_socket (a_base a) \<Longrightarrow> own' n = own n"
    and names: "names_inv own' (es @ [Step w now target]) a'"
  shows "routes_inv own' (es @ [Step w now target]) (outs @ os) a'"
proof -
  let ?es = "es @ [Step w now target]"
  note D = routes_invD [OF inv] and S = handler_step_routes [OF h D(4) [OF h] D(3) step]
  have same: "own' n = own n" if "responded es n pl" for n pl using own' D(2) that by blast
  have "route_ok own' ?es k" if "hm_get (a_pending a') v = Some k" for v k
  proof -
    have "route_ok own es k" using that S D(4) [of v k] by (auto split: if_splits)
    then show ?thesis by (rule route_ok_mono [OF _ same])
  qed
  moreover have "list_all (routed_out own' ?es) (outs @ os)"
    using D(5) S routed_out_mono [OF _ same] by (auto simp: list_all_iff)
  moreover have "n < s_next_socket (a_base a')" if "responded ?es n pl" for n pl
    using that S D(2) [of n pl] unfolding responded_snoc opens_def by auto
  moreover have "n < s_next_socket (a_base a') \<and> own' n = sid"
    if r: "hm_get (s_responders (a_base a')) n = Some sid" for n sid
  proof (cases "opens a a'")
    case False
    with r S D(1) [of n sid] own' [of n] show ?thesis by auto
  next
    case True
    then obtain k where
      k: "hm_get (s_responders (a_base a')) = (hm_get (s_responders (a_base a)))(s_next_socket (a_base a) \<mapsto> k)"
        "s_next_socket (a_base a') = Suc (s_next_socket (a_base a))"
        "hm_get (a_sessions a') k = Some (s_next_socket (a_base a))"
      unfolding opens_def by blast
    have "own' (s_next_socket (a_base a)) = k" using names_invD(2) [OF names k(3)] by simp
    with r D(1) [of n sid] own' [of n] k(1,2) show ?thesis by (auto split: if_splits)
  qed
  ultimately show ?thesis
    using S paths_ok_mono [of es "hm_get (s_client_paths (a_base a'))"] unfolding routes_inv_def by blast
qed

text \<open>One account of the sockets' sessions serves all invariants.\<close>

lemma reachable_routes_inv:
  assumes "sc_dedup_window cfg \<noteq> 0" and "async_run (async_started cfg os) es outs a"
  shows "\<exists>own. names_inv own es a \<and> debt_inv own es outs a \<and> routes_inv own es outs a"
  using assms(2)
proof (induction "async_started cfg os" es outs a rule: run.induct)
  case run_Nil
  have "routes_inv (\<lambda>_. 0) [] [] (async_started cfg os)"
    using server_started_tasks [of cfg os]
    by (auto simp: routes_inv_def paths_ok_def responded_def async_started_def async_new_def server_new_def)
  with async_started_inv [OF assms(1)] show ?case by blast
next
  case (run_snoc es outs a ev os' a')
  then obtain own where inv: "names_inv own es a" "debt_inv own es outs a" "routes_inv own es outs a"
    by blast
  from async_inv_step [OF inv(1,2) run_snoc.hyps(3,4)] obtain own' where
    own': "names_inv own' (es @ [ev]) a'" "debt_inv own' (es @ [ev]) (outs @ os') a'"
      "\<And>n. n < s_next_socket (a_base a) \<Longrightarrow> own' n = own n" by blast
  show ?case
  proof (cases ev)
    case (Start e)
    have "routes_inv own' es outs a" by (rule routes_inv_own [OF inv(3) own'(3)])
    with run_snoc.hyps Start have "routes_inv own' (es @ [ev]) (outs @ os') a'"
      by (simp add: routes_inv_start async_handle_def)
    with own'(1,2) show ?thesis by blast
  next
    case (Step w now target)
    with run_snoc.hyps obtain h where h: "hm_get (a_pending a) w = Some h"
      by (auto simp: async_enabled_def split: option.splits)
    with run_snoc.hyps Step have "handler_step w now target h a = (os', a')"
      by (simp add: async_handle_def)
    from routes_inv_step [OF inv(3) h this own'(3)] own'(1,2) Step show ?thesis by blast
  qed
qed

end
