(* ===== verification/Relay.thy ===== *)
theory Relay
  imports Client_Async_Maps Client_Async_Routes Server_Async_Routes "HOL-Library.Multiset"
begin

text \<open>
  The whole relay: an interleaved client, an interleaved server and the network between them. The
  network may lose, delay, repeat and reorder whatever one side has sent, on UDP and on TCP, and
  hand it to any socket or connection of the other side; it does not make anything up. Whatever
  the two programs and the network do, payloads arrive at most as often as they were handed in.
\<close>

section \<open>The system\<close>

text \<open>\<open>r_up\<close> and \<open>r_down\<close> are all that client and server have sent so far.\<close>

record relay =
  r_client :: async_client
  r_server :: async_server
  r_up :: "client_output list"
  r_down :: "server_output list"

datatype relay_event = AtClient client_async_event | AtServer async_event

definition relay_started ::
    "u64 \<Rightarrow> client_config \<Rightarrow> client_sockets \<Rightarrow> server_config \<Rightarrow> server_sockets \<Rightarrow> relay" where
  "relay_started r ccfg cos scfg sos =
     \<lparr>r_client = client_async_started r ccfg cos, r_server = async_started scfg sos,
      r_up = [], r_down = []\<rparr>"

text \<open>The datagrams, and the writes to a TCP stream, that have been sent up and down.\<close>

fun datagrams_up :: "client_output list \<Rightarrow> bytes list" where
  "datagrams_up [] = []"
| "datagrams_up (out # outs) = (case out of UdpSend _ bs \<Rightarrow> [bs] | _ \<Rightarrow> []) @ datagrams_up outs"

fun writes_up :: "client_output list \<Rightarrow> bytes list" where
  "writes_up [] = []"
| "writes_up (out # outs) = (case out of TcpWrite _ bs \<Rightarrow> [bs] | _ \<Rightarrow> []) @ writes_up outs"

fun datagrams_down :: "server_output list \<Rightarrow> bytes list" where
  "datagrams_down [] = []"
| "datagrams_down (out # outs) = (case out of ClientSend _ bs _ \<Rightarrow> [bs] | _ \<Rightarrow> []) @ datagrams_down outs"

fun writes_down :: "server_output list \<Rightarrow> bytes list" where
  "writes_down [] = []"
| "writes_down (out # outs) = (case out of ClientWrite _ bs \<Rightarrow> [bs] | _ \<Rightarrow> []) @ writes_down outs"

lemma in_datagrams_up: "bs \<in> set (datagrams_up outs) \<longleftrightarrow> (\<exists>sock. UdpSend sock bs \<in> set outs)"
  by (induction outs) (auto split: client_output.splits)

lemma in_writes_up: "bs \<in> set (writes_up outs) \<longleftrightarrow> (\<exists>n. TcpWrite n bs \<in> set outs)"
  by (induction outs) (auto split: client_output.splits)

lemma in_datagrams_down: "bs \<in> set (datagrams_down outs) \<longleftrightarrow> (\<exists>sock a. ClientSend sock bs a \<in> set outs)"
  by (induction outs) (auto split: server_output.splits)

lemma in_writes_down: "bs \<in> set (writes_down outs) \<longleftrightarrow> (\<exists>n. ClientWrite n bs \<in> set outs)"
  by (induction outs) (auto split: server_output.splits)

text \<open>
  What can arrive at the server, and at the client: a datagram or a frame that was sent. A
  response of the target is a datagram, so it has at most 65507 bytes.
\<close>

definition sent_up :: "relay \<Rightarrow> async_event \<Rightarrow> bool" where
  "sent_up r ev =
     (case ev of
        Start e \<Rightarrow>
          (case e of
             UdpArrives _ _ _ _ data \<Rightarrow> data \<in> set (datagrams_up (r_up r))
           | TcpArrives _ _ _ data \<Rightarrow> tcp_frame data \<in> set (writes_up (r_up r))
           | TargetResponse _ _ pl \<Rightarrow> length pl \<le> 65507
           | _ \<Rightarrow> True)
      | Step _ _ _ \<Rightarrow> True)"

definition sent_down :: "relay \<Rightarrow> client_async_event \<Rightarrow> bool" where
  "sent_down r ev =
     (case ev of
        Begin e \<Rightarrow>
          (case e of
             UdpResponse _ _ data \<Rightarrow> data \<in> set (datagrams_down (r_down r))
           | TcpResponse _ _ data \<Rightarrow> tcp_frame data \<in> set (writes_down (r_down r))
           | _ \<Rightarrow> True)
      | Advance _ _ _ _ \<Rightarrow> True)"

definition relay_enabled :: "relay \<Rightarrow> relay_event \<Rightarrow> bool" where
  "relay_enabled r e =
     (case e of
        AtClient ev \<Rightarrow> client_async_enabled (r_client r) ev \<and> sent_down r ev
      | AtServer ev \<Rightarrow> async_enabled (r_server r) ev \<and> sent_up r ev)"

definition relay_handle :: "relay_event \<Rightarrow> relay \<Rightarrow> (client_output + server_output) list \<times> relay" where
  "relay_handle e r =
     (case e of
        AtClient ev \<Rightarrow>
          (let (outs, c) = client_async_handle ev (r_client r)
           in (map Inl outs, r\<lparr>r_client := c, r_up := r_up r @ outs\<rparr>))
      | AtServer ev \<Rightarrow>
          (let (outs, s) = async_handle ev (r_server r)
           in (map Inr outs, r\<lparr>r_server := s, r_down := r_down r @ outs\<rparr>)))"

abbreviation relay_run ::
    "relay \<Rightarrow> relay_event list \<Rightarrow> (client_output + server_output) list \<Rightarrow> relay \<Rightarrow> bool" where
  "relay_run \<equiv> run relay_enabled relay_handle"

section \<open>Each side of a run\<close>

definition client_events :: "relay_event list \<Rightarrow> client_async_event list" where
  "client_events es = concat (map (\<lambda>e. case e of AtClient ev \<Rightarrow> [ev] | AtServer ev \<Rightarrow> []) es)"

definition server_events :: "relay_event list \<Rightarrow> async_event list" where
  "server_events es = concat (map (\<lambda>e. case e of AtClient ev \<Rightarrow> [] | AtServer ev \<Rightarrow> [ev]) es)"

lemma events_simps [simp]:
  "client_events [] = []" "server_events [] = []"
  "client_events (es @ fs) = client_events es @ client_events fs"
  "server_events (es @ fs) = server_events es @ server_events fs"
  "client_events [AtClient c] = [c]" "client_events [AtServer s] = []"
  "server_events [AtClient c] = []" "server_events [AtServer s] = [s]"
  by (simp_all add: client_events_def server_events_def)

lemma length_client_events: "length (client_events es) \<le> length es"
  by (induction es) (auto simp: client_events_def split: relay_event.split)

lemma length_server_events: "length (server_events es) \<le> length es"
  by (induction es) (auto simp: server_events_def split: relay_event.split)

text \<open>
  In a run of the relay each side runs, what has been sent is what it has put out, and everything
  that arrives has been sent.
\<close>

definition arrivals_sent :: "relay_event list \<Rightarrow> relay \<Rightarrow> bool" where
  "arrivals_sent es r \<longleftrightarrow>
     list_all (sent_up r) (server_events es) \<and> list_all (sent_down r) (client_events es)"

lemma sent_up_mono: "set (r_up r) \<subseteq> set (r_up r') \<Longrightarrow> sent_up r ev \<Longrightarrow> sent_up r' ev"
  by (auto simp: sent_up_def in_datagrams_up in_writes_up split: async_event.splits server_event.splits)

lemma sent_down_mono: "set (r_down r) \<subseteq> set (r_down r') \<Longrightarrow> sent_down r ev \<Longrightarrow> sent_down r' ev"
  by (auto simp: sent_down_def in_datagrams_down in_writes_down
      split: client_async_event.splits client_event.splits)

lemma arrivals_sent_snoc:
  assumes "arrivals_sent es r" and "relay_enabled r e" and "relay_handle e r = (os, r')"
  shows "arrivals_sent (es @ [e]) r'"
proof -
  have "set (r_up r) \<subseteq> set (r_up r')" "set (r_down r) \<subseteq> set (r_down r')"
    using assms(3) by (auto simp: relay_handle_def split: relay_event.splits prod.splits)
  then have "list_all (sent_up r') (server_events es)" "list_all (sent_down r') (client_events es)"
      "sent_up r ev \<Longrightarrow> sent_up r' ev" "sent_down r cev \<Longrightarrow> sent_down r' cev" for ev cev
    using assms(1) sent_up_mono sent_down_mono by (auto simp: arrivals_sent_def list_all_iff)
  with assms(2) show ?thesis
    by (cases e) (auto simp: arrivals_sent_def relay_enabled_def)
qed

lemma relay_sides:
  assumes "relay_run r0 es outs r" and "r_up r0 = []" and "r_down r0 = []"
  shows "client_async_run (r_client r0) (client_events es) (r_up r) (r_client r) \<and>
    async_run (r_server r0) (server_events es) (r_down r) (r_server r) \<and> arrivals_sent es r"
  using assms
proof (induction rule: run.induct)
  case (run_Nil r)
  then show ?case by (simp add: arrivals_sent_def)
next
  case (run_snoc r0 es os r e os' r')
  note arrived = arrivals_sent_snoc [OF _ run_snoc.hyps(2,3), of es]
  show ?case
  proof (cases e)
    case (AtClient ev)
    obtain outs c where h: "client_async_handle ev (r_client r) = (outs, c)"
      by (cases "client_async_handle ev (r_client r)")
    then have r': "r' = r\<lparr>r_client := c, r_up := r_up r @ outs\<rparr>"
      using run_snoc.hyps(3) by (simp add: AtClient relay_handle_def)
    have "client_async_enabled (r_client r) ev"
      using run_snoc.hyps(2) by (simp add: AtClient relay_enabled_def)
    with run_snoc.IH run_snoc.prems h
    have "client_async_run (r_client r0) (client_events es @ [ev]) (r_up r @ outs) c"
      by (intro run.run_snoc [of client_async_enabled client_async_handle]) auto
    with run_snoc.IH run_snoc.prems arrived show ?thesis by (simp add: AtClient r')
  next
    case (AtServer ev)
    obtain outs s where h: "async_handle ev (r_server r) = (outs, s)"
      by (cases "async_handle ev (r_server r)")
    then have r': "r' = r\<lparr>r_server := s, r_down := r_down r @ outs\<rparr>"
      using run_snoc.hyps(3) by (simp add: AtServer relay_handle_def)
    have "async_enabled (r_server r) ev"
      using run_snoc.hyps(2) by (simp add: AtServer relay_enabled_def)
    with run_snoc.IH run_snoc.prems h
    have "async_run (r_server r0) (server_events es @ [ev]) (r_down r @ outs) s"
      by (intro run.run_snoc [of async_enabled async_handle]) auto
    with run_snoc.IH run_snoc.prems arrived show ?thesis by (simp add: AtServer r')
  qed
qed

section \<open>Requests\<close>

lemma tcp_frame_inject [simp]: "tcp_frame d = tcp_frame e \<longleftrightarrow> d = e"
proof
  assume "tcp_frame d = tcp_frame e"
  then have "drop 2 (tcp_frame d) = drop 2 (tcp_frame e)" by simp
  then show "d = e" by (simp add: tcp_frame_def)
qed simp

text \<open>A packet that arrives at the server is one the client has numbered.\<close>

lemma arrival_numbered:
  assumes sent: "list_all (sent_up r) (server_events es)"
    and ok: "list_all (sent_ok ids num) (r_up r)"
    and q: "q \<in> set (numbers_arrived (server_events es) sid pl)"
  shows "\<exists>k. (k, q, pl) \<in> num \<and> ids k = Some sid"
proof -
  from q obtain ev where ev: "ev \<in> set (server_events es)" "packet_of ev = Some (sid, q, pl)"
    by (auto simp: numbers_arrived_def split: option.splits if_splits)
  from sent ev(1) have up: "sent_up r ev" by (simp add: list_all_iff)
  from ev(2) consider
      now target sock addr data where "ev = Start (UdpArrives now target sock addr data)"
        "decode_udp data = Inr (sid, q, pl)"
    | now target n data where "ev = Start (TcpArrives now target n data)" "decode_tcp data = Inr (sid, q, pl)"
    by (auto simp: packet_of_def split: async_event.splits server_event.splits sum.splits)
  then show ?thesis
  proof cases
    case 1
    with up obtain sock' where "UdpSend sock' data \<in> set (r_up r)"
      by (auto simp: sent_up_def in_datagrams_up in_writes_up)
    with ok have "sent_ok ids num (UdpSend sock' data)" by (auto simp: list_all_iff)
    with 1(2) show ?thesis by (auto simp: sent_ok_def udp.dec_enc)
  next
    case 2
    with up obtain n' where "TcpWrite n' (tcp_frame data) \<in> set (r_up r)"
      by (auto simp: sent_up_def in_datagrams_up in_writes_up)
    with ok have "sent_ok ids num (TcpWrite n' (tcp_frame data))" by (auto simp: list_all_iff)
    with 2(2) show ?thesis by (auto simp: sent_ok_def tcp.dec_enc)
  qed
qed

text \<open>So there are at most as many numbers for a payload as packets with it.\<close>

lemma numbers_of_session:
  assumes ids: "\<And>k k' sid. ids k = Some sid \<Longrightarrow> ids k' = Some sid \<Longrightarrow> k = k'"
    and numbered: "\<And>q. q \<in> N \<Longrightarrow> \<exists>k. (k, q, pl) \<in> set num \<and> ids k = Some sid"
    and k: "ids k = Some sid"
  shows "card N \<le> numbered_from (fst k) pl num"
proof -
  let ?F = "filter (\<lambda>(j, q, p). fst j = fst k \<and> p = pl) num"
  have "N \<subseteq> (\<lambda>(j, q, p). q) ` set ?F"
  proof
    fix q assume "q \<in> N"
    then obtain j where "(j, q, pl) \<in> set num" "ids j = Some sid" using numbered by blast
    with ids [OF this(2) k] show "q \<in> (\<lambda>(j, q, p). q) ` set ?F"
      by (intro image_eqI [where x = "(j, q, pl)"]) auto
  qed
  then have "card N \<le> card ((\<lambda>(j, q, p). q) ` set ?F)" by (intro card_mono) auto
  also have "\<dots> \<le> length ?F" using card_image_le [of "set ?F"] card_length [of ?F] le_trans by blast
  finally show ?thesis by (simp add: numbered_from_def)
qed

lemma numbers_bounded:
  assumes ids: "\<And>k k' sid. ids k = Some sid \<Longrightarrow> ids k' = Some sid \<Longrightarrow> k = k'"
    and numbered: "\<And>q pl. q \<in> N pl \<Longrightarrow> \<exists>k. (k, q, pl) \<in> set num \<and> ids k = Some sid"
  shows "\<exists>a. \<forall>pl. card (N pl) \<le> numbered_from a pl num"
proof (cases "\<exists>k. ids k = Some sid")
  case True
  then obtain k where k: "ids k = Some sid" by blast
  have "card (N pl) \<le> numbered_from (fst k) pl num" for pl
  proof (rule numbers_of_session [where ids = ids and sid = sid])
    show "k = k'" if "ids k = Some i" "ids k' = Some i" for k k' i
      using ids that by blast
  qed (use numbered k in auto)
  then show ?thesis by blast
next
  case False
  then have "N pl = {}" for pl using numbered by blast
  then show ?thesis by simp
qed

text \<open>What the server sends to the target over one socket.\<close>

definition to_target :: "socket \<Rightarrow> server_output list \<Rightarrow> bytes list" where
  "to_target n outs = concat (map (\<lambda>out. case out of TargetSend m pl \<Rightarrow> if m = n then [pl] else [] | _ \<Rightarrow> []) outs)"

lemma count_to_target: "count_list (to_target n outs) pl = count_list outs (TargetSend n pl)"
  by (induction outs) (auto simp: to_target_def split: server_output.split)

lemma mset_subset_by_count:
  "(\<And>x. count_list xs x \<le> count_list ys x) \<Longrightarrow> mset xs \<subseteq># mset ys"
  by (simp add: subseteq_mset_def count_mset)

lemma to_target_bounded:
  assumes debt: "debt_inv own es outs a" and accounts: "accounting num ces pending"
    and numbers: "\<And>pl. card (set (numbers_arrived es (own n) pl)) \<le> numbered_from src pl num"
  shows "mset (to_target n outs) \<subseteq># mset (packets_of ces src)"
proof (rule mset_subset_by_count)
  fix pl
  let ?N = "set (numbers_arrived es (own n) pl)"
  have "count_list outs (TargetSend n pl) \<le> card (?N \<inter> refused_at a n)"
    using debt_invD [OF debt, of n pl] by simp
  also have "\<dots> \<le> card ?N" by (rule card_mono) auto
  also have "\<dots> \<le> numbered_from src pl num" by (rule numbers)
  also have "\<dots> \<le> count_list (packets_of ces src) pl" using accountingD [OF accounts, of src pl] by simp
  finally show "count_list (to_target n outs) pl \<le> count_list (packets_of ces src) pl"
    by (simp add: count_to_target)
qed

text \<open>What a client that has run keeps true of its sessions and packets.\<close>

lemma client_side:
  assumes "relay_run (relay_started r ccfg cos scfg sos) es outs s" and "length es \<le> 2 ^ 32"
  shows "\<exists>num init cnt. client_async_inv r num init cnt (client_events es) (r_up s) (r_client s)"
proof -
  have "client_async_run (client_async_started r ccfg cos) (client_events es) (r_up s) (r_client s)"
    using relay_sides [OF assms(1)] by (simp add: relay_started_def)
  moreover have "length (client_events es) \<le> 2 ^ 32" using length_client_events [of es] assms(2) by simp
  ultimately show ?thesis by (rule reachable_client_async_inv)
qed

lemma requests_at_most_once:
  assumes "sc_dedup_window scfg \<noteq> 0" and "relay_run (relay_started r ccfg cos scfg sos) es outs s"
    and "length es \<le> 2 ^ 32"
  shows "\<exists>a. mset (to_target n (r_down s)) \<subseteq># mset (packets_of (client_events es) a)"
proof -
  from relay_sides [OF assms(2)] have
    server: "async_run (async_started scfg sos) (server_events es) (r_down s) (r_server s)" and
    sent: "arrivals_sent es s"
    by (simp_all add: relay_started_def)
  from client_side [OF assms(2,3)] obtain num init cnt where
    I: "client_async_inv r num init cnt (client_events es) (r_up s) (r_client s)" by blast
  note D = client_async_invD [OF I]
  from reachable_async_inv [OF assms(1) server] obtain own where
    debt: "debt_inv own (server_events es) (r_down s) (r_server s)" by blast
  let ?N = "\<lambda>pl. set (numbers_arrived (server_events es) (own n) pl)"
  let ?ids = "id_in (session_view (r_client s))"
  have "\<exists>a. \<forall>pl. card (?N pl) \<le> numbered_from a pl num"
  proof (rule numbers_bounded [where ids = ?ids and sid = "own n"])
    show "k = k'" if "?ids k = Some sid" "?ids k' = Some sid" for k k' sid
      using D(2) that unfolding ids_ok_def by blast
    show "\<exists>k. (k, q, pl) \<in> set num \<and> ?ids k = Some (own n)" if "q \<in> ?N pl" for q pl
      by (rule arrival_numbered [OF _ D(6) that]) (use sent in \<open>simp add: arrivals_sent_def\<close>)
  qed
  then obtain a where "card (?N pl) \<le> numbered_from a pl num" for pl by blast
  from to_target_bounded [OF debt D(4) this] show ?thesis by blast
qed

section \<open>Responses\<close>

text \<open>A response that arrives at the client is one the server has numbered.\<close>

lemma response_answered:
  assumes sent: "list_all (sent_down r) (client_events es)"
    and ok: "list_all (answer_sent (set ans)) (r_down r)"
    and q: "q \<in> response_numbers (client_events es) pl"
  shows "\<exists>sid. (sid, q, pl) \<in> set ans"
proof -
  from q obtain ev where ev: "ev \<in> set (client_events es)" "response_of ev = Some (q, pl)"
    by (auto simp: response_numbers_def)
  from sent ev(1) have down: "sent_down r ev" by (simp add: list_all_iff)
  from ev(2) consider
      now sock data sid where "ev = Begin (UdpResponse now sock data)" "decode_udp data = Inr (sid, q, pl)"
    | now n data sid where "ev = Begin (TcpResponse now n data)" "decode_tcp data = Inr (sid, q, pl)"
    by (auto simp: response_of_def split: client_async_event.splits client_event.splits sum.splits)
  then show ?thesis
  proof cases
    case 1
    with down obtain sock' a where "ClientSend sock' data a \<in> set (r_down r)"
      by (auto simp: sent_down_def in_datagrams_down)
    with ok have "answer_sent (set ans) (ClientSend sock' data a)" by (auto simp: list_all_iff)
    with 1(2) show ?thesis by (auto simp: answer_sent_def udp.dec_enc)
  next
    case 2
    with down obtain n' where "ClientWrite n' (tcp_frame data) \<in> set (r_down r)"
      by (auto simp: sent_down_def in_writes_down)
    with ok have "answer_sent (set ans) (ClientWrite n' (tcp_frame data))" by (auto simp: list_all_iff)
    with 2(2) show ?thesis by (auto simp: answer_sent_def tcp.dec_enc)
  qed
qed

text \<open>What the client hands to one source.\<close>

definition to_source :: "socket \<Rightarrow> socket_addr \<Rightarrow> client_output list \<Rightarrow> bytes list" where
  "to_source l a outs =
     concat (map (\<lambda>out. case out of SendTo m pl b \<Rightarrow> if m = l \<and> b = a then [pl] else [] | _ \<Rightarrow> []) outs)"

lemma count_to_source: "count_list (to_source l a outs) pl = count_list outs (SendTo l pl a)"
  by (induction outs) (auto simp: to_source_def split: client_output.split)

lemma responses_at_most_once:
  assumes "relay_run (relay_started r ccfg cos scfg sos) es outs s" and "length es \<le> 2 ^ 32"
  shows "mset (to_source l a (r_up s))
    \<subseteq># repeat_mset (sessions_of (r_client s) a) (mset (responses_of (server_events es)))"
proof -
  from relay_sides [OF assms(1)] have
    client: "client_async_run (client_async_started r ccfg cos) (client_events es) (r_up s) (r_client s)" and
    server: "async_run (async_started scfg sos) (server_events es) (r_down s) (r_server s)" and
    sent: "arrivals_sent es s"
    by (simp_all add: relay_started_def)
  have short: "length (client_events es) \<le> 2 ^ 32" using length_client_events [of es] assms(2) by simp
  from answers_inv_along [OF server] obtain ans where
    I: "answers_inv ans (server_events es) (r_down s) (hm_get (a_pending (r_server s)))" by blast
  let ?N = "\<lambda>pl. response_numbers (client_events es) pl"
  have numbers: "card (?N pl) \<le> count_list (responses_of (server_events es)) pl" for pl
  proof -
    let ?F = "filter (\<lambda>(sid, q, p). p = pl) ans"
    have "?N pl \<subseteq> (\<lambda>(sid, q, p). q) ` set ?F"
      using response_answered [OF _ answers_invD(3) [OF I], of es _ pl] sent
      by (force simp: arrivals_sent_def image_iff)
    then have "card (?N pl) \<le> card ((\<lambda>(sid, q, p). q) ` set ?F)" by (intro card_mono) auto
    also have "\<dots> \<le> answered pl ans"
      unfolding answered_def using card_image_le [of "set ?F"] card_length [of ?F] le_trans by blast
    also have "\<dots> \<le> count_list (responses_of (server_events es)) pl"
      using answers_invD(2) [OF I, of pl] by simp
    finally show ?thesis .
  qed
  have "count_list (to_source l a (r_up s)) pl
      \<le> sessions_of (r_client s) a * count_list (responses_of (server_events es)) pl" for pl
    using delivered_bounded [OF client short, of l pl a] mult_le_mono2 [OF numbers]
    unfolding count_to_source by (rule le_trans)
  then show ?thesis by (simp add: subseteq_mset_def count_mset)
qed

end
