(* ===== verification/Relay_Routes.thy ===== *)
theory Relay_Routes
  imports Relay
begin

text \<open>
  Sources do not hear each other. A TCP connection joins one client to one server, so what arrives
  on it was written to it; datagrams may still go to any socket. Then whatever is delivered to a
  source is an answer of the target on a socket that only carries packets of that source.
\<close>

section \<open>Connections\<close>

definition on_connection :: "relay \<Rightarrow> relay_event \<Rightarrow> bool" where
  "on_connection r e =
     (case e of
        AtServer (Start (TcpArrives _ _ n data)) \<Rightarrow> TcpWrite n (tcp_frame data) \<in> set (r_up r)
      | AtClient (Begin (TcpResponse _ n data)) \<Rightarrow> ClientWrite n (tcp_frame data) \<in> set (r_down r)
      | _ \<Rightarrow> True)"

definition linked_enabled :: "relay \<Rightarrow> relay_event \<Rightarrow> bool" where
  "linked_enabled r e \<longleftrightarrow> relay_enabled r e \<and> on_connection r e"

abbreviation linked_run ::
    "relay \<Rightarrow> relay_event list \<Rightarrow> (client_output + server_output) list \<Rightarrow> relay \<Rightarrow> bool" where
  "linked_run \<equiv> run linked_enabled relay_handle"

lemma relay_handle_grows:
  assumes "relay_handle e r = (os, r')"
  shows "set (r_up r) \<subseteq> set (r_up r')" "set (r_down r) \<subseteq> set (r_down r')"
  using assms by (auto simp: relay_handle_def split: relay_event.splits prod.splits)

lemma on_connection_mono:
  assumes "on_connection r e" and "set (r_up r) \<subseteq> set (r_up r')" and "set (r_down r) \<subseteq> set (r_down r')"
  shows "on_connection r' e"
  using assms by (auto simp: on_connection_def split: relay_event.splits client_async_event.splits
      client_event.splits async_event.splits server_event.splits)

lemma linked_relay:
  assumes "linked_run r0 es outs r"
  shows "relay_run r0 es outs r" and "list_all (on_connection r) es"
proof -
  from assms have "relay_run r0 es outs r \<and> list_all (on_connection r) es"
  proof (induction rule: run.induct)
    case (run_Nil r)
    then show ?case by simp
  next
    case (run_snoc r0 es os r e os' r')
    note grows = relay_handle_grows [OF run_snoc.hyps(3)]
    have "relay_enabled r e" "on_connection r e"
      using run_snoc.hyps(2) by (simp_all add: linked_enabled_def)
    with run_snoc on_connection_mono [OF _ grows]
    show ?case by (auto simp: list_all_iff intro: run.run_snoc)
  qed
  then show "relay_run r0 es outs r" "list_all (on_connection r) es" by simp_all
qed

section \<open>Whose answers a source hears\<close>

lemma datagram_answers:
  assumes "heard_udp (client_events es) sid pl" and "arrivals_sent es s"
    and "list_all (routed_out own (server_events es)) (r_down s)"
  shows "answer_of own (server_events es) sid pl"
proof -
  from assms(1) obtain now sock data q where
    ev: "Begin (UdpResponse now sock data) \<in> set (client_events es)" "decode_udp data = Inr (sid, q, pl)"
    unfolding heard_udp_def by blast
  with assms(2) have "sent_down s (Begin (UdpResponse now sock data))"
    by (simp add: arrivals_sent_def list_all_iff)
  then obtain sock' a where "ClientSend sock' data a \<in> set (r_down s)"
    by (auto simp: sent_down_def in_datagrams_down)
  with assms(3) have "routed_out own (server_events es) (ClientSend sock' data a)"
    by (auto simp: list_all_iff)
  with ev(2) show ?thesis by (auto simp: routed_out_def udp.dec_enc)
qed

lemma in_client_events: "ev \<in> set (client_events es) \<longleftrightarrow> AtClient ev \<in> set es"
  by (induction es) (auto simp: client_events_def split: relay_event.splits)

lemma in_server_events: "ev \<in> set (server_events es) \<longleftrightarrow> AtServer ev \<in> set es"
  by (induction es) (auto simp: server_events_def split: relay_event.splits)

lemma frame_answers:
  assumes heard: "heard_tcp (client_events es) n pl" and linked: "list_all (on_connection s) es"
    and down: "list_all (routed_out own (server_events es)) (r_down s)"
    and up: "list_all (client_routed_out ids src next ces) (r_up s)"
  shows "\<exists>sid k. answer_of own (server_events es) sid pl \<and> ids k = Some sid \<and>
    without_flow (fst k) = without_flow (src n)"
proof -
  from heard obtain now data sid q where
    ev: "AtClient (Begin (TcpResponse now n data)) \<in> set es" "decode_tcp data = Inr (sid, q, pl)"
    unfolding heard_tcp_def in_client_events by blast
  with linked have "ClientWrite n (tcp_frame data) \<in> set (r_down s)"
    by (force simp: list_all_iff on_connection_def)
  with down have "routed_out own (server_events es) (ClientWrite n (tcp_frame data))"
    by (simp add: list_all_iff)
  with ev(2) have answer: "answer_of own (server_events es) sid pl" "arrived_on (server_events es) n sid"
    by (auto simp: routed_out_def tcp.dec_enc)
  then obtain now' target data' q' pl' where
    ev': "AtServer (Start (TcpArrives now' target n data')) \<in> set es" "decode_tcp data' = Inr (sid, q', pl')"
    unfolding arrived_on_def in_server_events by blast
  with linked have "TcpWrite n (tcp_frame data') \<in> set (r_up s)"
    by (force simp: list_all_iff on_connection_def)
  with up have "client_routed_out ids src next ces (TcpWrite n (tcp_frame data'))"
    by (simp add: list_all_iff)
  then obtain k sid' q'' pl'' where "ids k = Some sid'" "belongs src next n k"
      "tcp_frame data' = tcp_frame (encode_tcp sid' q'' pl'')"
    unfolding client_routed_out_def client_output.case by blast
  with ev'(2) have "ids k = Some sid" "without_flow (fst k) = without_flow (src n)"
    by (auto simp: tcp.dec_enc belongs_def)
  with answer(1) show ?thesis by blast
qed

lemma sources_isolated:
  assumes "sc_dedup_window scfg \<noteq> 0" and "linked_run (relay_started r ccfg cos scfg sos) es outs s"
    and "length es \<le> 2 ^ 32" and "SendTo l pl a \<in> set (r_up s)"
  shows "\<exists>n b now. AtServer (Start (TargetResponse now n pl)) \<in> set es \<and>
    mset (to_target n (r_down s)) \<subseteq># mset (packets_of (client_events es) b) \<and>
    without_flow b = without_flow a"
proof -
  note L = linked_relay [OF assms(2)]
  from relay_sides [OF L(1)] have
    client: "client_async_run (client_async_started r ccfg cos) (client_events es) (r_up s) (r_client s)" and
    server: "async_run (async_started scfg sos) (server_events es) (r_down s) (r_server s)" and
    sent: "arrivals_sent es s"
    by (simp_all add: relay_started_def)
  from reachable_routes_inv [OF assms(1) server] obtain own where
    debt: "debt_inv own (server_events es) (r_down s) (r_server s)" and
    routes: "routes_inv own (server_events es) (r_down s) (r_server s)" by blast
  from reachable_client_routes_inv [OF client] obtain src where
    croutes: "client_routes_inv src (client_events es) (r_up s) (r_client s)" by blast
  from client_side [OF L(1) assms(3)] obtain num init cnt where
    I: "client_async_inv r num init cnt (client_events es) (r_up s) (r_client s)" by blast
  note C = client_async_invD [OF I]
  note down = routes_invD(5) [OF routes] and up = client_routes_invD(4) [OF croutes]
  let ?ids = "session_ids (r_client s)"
  have "\<exists>sid k. answer_of own (server_events es) sid pl \<and> ?ids k = Some sid \<and>
      without_flow (fst k) = without_flow a"
  proof -
    have "response_for ?ids src (client_events es) a pl"
      using up assms(4) by (force simp: list_all_iff client_routed_out_def)
    then consider sid where "id_of_source ?ids a sid" "heard_udp (client_events es) sid pl"
      | n where "src n = a" "heard_tcp (client_events es) n pl"
      unfolding response_for_def by blast
    then show ?thesis
    proof cases
      case 1
      with datagram_answers [OF 1(2) sent down] show ?thesis
        unfolding id_of_source_def by (metis fst_conv)
    next
      case (2 n)
      with frame_answers [OF 2(2) L(2) down up] show ?thesis by blast
    qed
  qed
  then obtain sid k where answer: "answer_of own (server_events es) sid pl" and
    k: "?ids k = Some sid" "without_flow (fst k) = without_flow a" by blast
  from answer obtain n now where n: "own n = sid" "AtServer (Start (TargetResponse now n pl)) \<in> set es"
    unfolding answer_of_def responded_def in_server_events by blast
  have numbers: "card (set (numbers_arrived (server_events es) (own n) p)) \<le> numbered_from (fst k) p num" for p
  proof (rule numbers_of_session [where ids = ?ids and sid = sid])
    show "j = j'" if "?ids j = Some i" "?ids j' = Some i" for j j' i
      using C(2) that unfolding ids_ok_def by blast
    show "\<exists>k. (k, q, p) \<in> set num \<and> ?ids k = Some sid" if "q \<in> set (numbers_arrived (server_events es) (own n) p)" for q
      by (rule arrival_numbered [OF _ C(6) that [unfolded n(1)]]) (use sent in \<open>simp add: arrivals_sent_def\<close>)
  qed (rule k(1))
  from to_target_bounded [OF debt C(4) numbers] n(2) k(2) show ?thesis by blast
qed

end
