(* ===== verification/Client_Async_Sim.thy ===== *)
theory Client_Async_Sim
  imports Client_Async_Live
begin

text \<open>
  The client of theory \<open>Client\<close>, whose handlers run in one piece, is the interleaved client when no
  two tasks overlap: each of its events is the begin of a task and some steps, with the same
  outputs. So whatever the former can do the latter can, as for the server.
\<close>

section \<open>Handlers that run alone\<close>

abbreviation client_finishes ::
    "async_client \<Rightarrow> client_output list \<Rightarrow> (async_client \<Rightarrow> bool) \<Rightarrow> bool" where
  "client_finishes \<equiv> finishes_in client_async_enabled client_async_handle client_busy"

text \<open>Task \<open>w\<close> is busy at \<open>h\<close> and no other task is.\<close>

abbreviation client_solo :: "client_worker \<Rightarrow> async_client \<Rightarrow> bool" where
  "client_solo \<equiv> solo_in client_busy"

abbreviation alone_at :: "client_worker \<Rightarrow> client_handler \<Rightarrow> async_client \<Rightarrow> bool" where
  "alone_at w h s \<equiv> client_solo w s \<and> client_busy s w = Some h"

lemma client_solo_simps [simp]:
  "client_solo w (proceed w h s) = client_solo w s"
  "client_solo w (modify_udp k f s) = client_solo w s" "client_solo w (modify_tcp n g s) = client_solo w s"
  "client_solo w (s\<lparr>ca_base := c\<rparr>) = client_solo w s" "client_solo w (s\<lparr>ca_next_session := i\<rparr>) = client_solo w s"
  "client_solo w (s\<lparr>ca_udp_sessions := us\<rparr>) = client_solo w s"
  "client_solo w (s\<lparr>ca_udp_store := ust\<rparr>) = client_solo w s"
  "client_solo w (s\<lparr>ca_tcp_sessions := ts\<rparr>) = client_solo w s"
  "client_solo w (s\<lparr>ca_tcp_store := tst\<rparr>) = client_solo w s"
  "client_solo w (close_tcp key s) = client_solo w s"
  "client_solo w (fold close_tcp keys s) = client_solo w s"
  by (auto simp: solo_in_def)

lemma client_finish_idle: "client_solo w s \<Longrightarrow> client_busy (finish w s) = (\<lambda>_. None)"
  by (auto simp: solo_in_def)

lemma client_alone_step:
  assumes "alone_at w h s" and "client_step w now random connected h s = (os, t)"
    and "client_finishes t outs P"
  shows "client_finishes s (os @ outs) P"
  using client_tasks.alone_step [of w s h "(now, random, connected)" os t outs P] assms
  by (simp add: client_async_handle_def)

text \<open>A step without output.\<close>

lemma client_alone_quiet:
  assumes "alone_at w h s" and "client_step w now random connected h s = ([], t)"
    and "client_finishes t outs P"
  shows "client_finishes s outs P"
  using client_alone_step [OF assms] by simp

lemma client_alone_last:
  assumes "alone_at w h s" and "client_step w now random connected h s = (os, finish w t)"
    and "client_solo w t" and "P (finish w t)"
  shows "client_finishes s os P"
proof -
  have "client_finishes (finish w t) [] P"
    by (rule finishes_in_idle) (use assms client_finish_idle in blast)+
  from client_alone_step [OF assms(1,2) this] show ?thesis by simp
qed

section \<open>What an interleaved state stands for\<close>

definition udp_at :: "async_client \<Rightarrow> socket_addr \<Rightarrow> udp_session option" where
  "udp_at s a = Option.bind (hm_get (ca_udp_sessions s) a) (hm_get (ca_udp_store s))"

definition tcp_at :: "async_client \<Rightarrow> string \<Rightarrow> tcp_session option" where
  "tcp_at s key = Option.bind (hm_get (ca_tcp_sessions s) key) (hm_get (ca_tcp_store s))"

definition same_client_rest :: "client \<Rightarrow> client \<Rightarrow> bool" where
  "same_client_rest c d \<longleftrightarrow>
     c_cfg c = c_cfg d \<and> c_cancelled c = c_cancelled d \<and> c_listener c = c_listener d \<and>
     c_listen_addr c = c_listen_addr d \<and> c_session_id_counter c = c_session_id_counter d \<and>
     c_udp_senders c = c_udp_senders d \<and> c_tasks c = c_tasks d \<and> c_readers c = c_readers d \<and>
     c_next_conn c = c_next_conn d \<and> c_cancelled_conns c = c_cancelled_conns d \<and>
     hm_get (c_udp_session_addrs c) = hm_get (c_udp_session_addrs d)"

text \<open>Names in the maps are names of objects, and each object has one place.\<close>

definition udp_named :: "(socket_addr \<Rightarrow> session_name option) \<Rightarrow> session_name set \<Rightarrow> nat \<Rightarrow> bool" where
  "udp_named m D next \<longleftrightarrow>
     (\<forall>a k. m a = Some k \<longrightarrow> fst k = a \<and> k \<in> D) \<and> (\<forall>k \<in> D. snd k < next)"

definition tcp_named :: "(string \<Rightarrow> conn option) \<Rightarrow> (conn \<Rightarrow> tcp_session option) \<Rightarrow> conn \<Rightarrow> bool" where
  "tcp_named m st next \<longleftrightarrow>
     (\<forall>key n. m key = Some n \<longrightarrow> n \<in> dom st \<and> (\<forall>key'. m key' = Some n \<longrightarrow> key' = key)) \<and>
     (\<forall>n ts. st n = Some ts \<longrightarrow> ts_writer ts = n \<and> n < next)"

definition well_named :: "async_client \<Rightarrow> bool" where
  "well_named s \<longleftrightarrow>
     udp_named (hm_get (ca_udp_sessions s)) (dom (hm_get (ca_udp_store s))) (ca_next_session s) \<and>
     tcp_named (hm_get (ca_tcp_sessions s)) (hm_get (ca_tcp_store s)) (c_next_conn (ca_base s))"

lemma udp_named_new:
  assumes "udp_named m D next" and "k = (a, next)"
  shows "udp_named (m(a \<mapsto> k)) (insert k D) (Suc next)"
  using assms unfolding udp_named_def by (simp add: less_Suc_eq)

lemma tcp_named_new:
  assumes "tcp_named m st next" and "ts_writer ts = next"
  shows "tcp_named (m(key \<mapsto> next)) (st(next \<mapsto> ts)) (Suc next)"
proof -
  have "m key' \<noteq> Some next" for key'
    using assms(1) unfolding tcp_named_def by blast
  with assms show ?thesis unfolding tcp_named_def by (auto simp: less_Suc_eq)
qed

lemma tcp_named_touch:
  assumes "tcp_named m st next" and "\<And>ts. ts_writer (f ts) = ts_writer ts"
  shows "tcp_named m (\<lambda>j. if j = n then map_option f (st n) else st j) next"
  using assms unfolding tcp_named_def dom_def by (simp split: if_splits) metis

lemma named_less:
  "udp_named m D next \<Longrightarrow> (\<And>a k. m' a = Some k \<Longrightarrow> m a = Some k) \<Longrightarrow> udp_named m' D next"
  "tcp_named l st nx \<Longrightarrow> (\<And>key n. l' key = Some n \<Longrightarrow> l key = Some n) \<Longrightarrow> tcp_named l' st nx"
  unfolding udp_named_def tcp_named_def by blast+

text \<open>An update of an object is one of the place it is found at.\<close>

lemma bind_update:
  assumes "m a = Some k" and "\<And>b. m b = Some k \<Longrightarrow> b = a"
  shows "(\<lambda>b. Option.bind (m b) (\<lambda>j. if j = k then Some v else st j)) =
    (\<lambda>b. Option.bind (m b) st)(a \<mapsto> v)"
proof
  fix b
  show "Option.bind (m b) (\<lambda>j. if j = k then Some v else st j) =
      ((\<lambda>b. Option.bind (m b) st)(a \<mapsto> v)) b"
  proof (cases "m b")
    case None
    with assms(1) show ?thesis by (cases "b = a") simp_all
  next
    case (Some j)
    then have "b = a \<longleftrightarrow> j = k" using assms by (metis option.inject)
    with Some show ?thesis by (cases "j = k") simp_all
  qed
qed

lemma bind_new:
  assumes "\<And>b. m b \<noteq> Some k"
  shows "(\<lambda>b. Option.bind ((m(a \<mapsto> k)) b) (st(k \<mapsto> v))) = (\<lambda>b. Option.bind (m b) st)(a \<mapsto> v)"
proof
  fix b
  show "Option.bind ((m(a \<mapsto> k)) b) (st(k \<mapsto> v)) = ((\<lambda>b. Option.bind (m b) st)(a \<mapsto> v)) b"
    using assms [of b] by (cases "m b") auto
qed

definition stands_for :: "async_client \<Rightarrow> client \<Rightarrow> bool" where
  "stands_for s c \<longleftrightarrow> same_client_rest (ca_base s) c \<and> udp_at s = hm_get (c_udp_sessions c) \<and>
     tcp_at s = hm_get (c_tcp_sessions c) \<and> well_named s"

lemma well_namedD:
  assumes "well_named s"
  shows "hm_get (ca_udp_sessions s) a = Some k \<Longrightarrow> fst k = a \<and> (\<exists>us. hm_get (ca_udp_store s) k = Some us)"
    and "hm_get (ca_udp_store s) k = Some us \<Longrightarrow> snd k < ca_next_session s"
    and "hm_get (ca_tcp_sessions s) key = Some n \<Longrightarrow> \<exists>ts. hm_get (ca_tcp_store s) n = Some ts"
    and "hm_get (ca_tcp_sessions s) key = Some n \<Longrightarrow> hm_get (ca_tcp_sessions s) key' = Some n \<Longrightarrow> key' = key"
    and "hm_get (ca_tcp_store s) n = Some ts \<Longrightarrow> ts_writer ts = n \<and> n < c_next_conn (ca_base s)"
  using assms unfolding well_named_def udp_named_def tcp_named_def by (blast, blast, blast, blast, blast)

lemma stands_forD:
  assumes "stands_for s c"
  shows "same_client_rest (ca_base s) c" "well_named s"
    and "udp_at s = hm_get (c_udp_sessions c)" "tcp_at s = hm_get (c_tcp_sessions c)"
  using assms unfolding stands_for_def by blast+

lemma stands_for_simps [simp]:
  "stands_for (proceed w h s) c = stands_for s c" "stands_for (finish w s) c = stands_for s c"
  by (simp_all add: stands_for_def udp_at_def tcp_at_def well_named_def fun_eq_iff)

lemma stands_for_udp:
  assumes "stands_for s c" and "hm_get (ca_udp_sessions s) a = Some k"
  shows "\<exists>us. hm_get (ca_udp_store s) k = Some us \<and> hm_get (c_udp_sessions c) a = Some us"
proof -
  obtain us where us: "hm_get (ca_udp_store s) k = Some us"
    using well_namedD(1) [OF stands_forD(2) [OF assms(1)] assms(2)] by blast
  have "hm_get (c_udp_sessions c) a = udp_at s a" using stands_forD(3) [OF assms(1)] by simp
  with us assms(2) show ?thesis by (simp add: udp_at_def)
qed

lemma stands_for_tcp:
  assumes "stands_for s c" and "hm_get (ca_tcp_sessions s) key = Some n"
  shows "\<exists>ts. hm_get (ca_tcp_store s) n = Some ts \<and> hm_get (c_tcp_sessions c) key = Some ts"
proof -
  obtain ts where ts: "hm_get (ca_tcp_store s) n = Some ts"
    using well_namedD(3) [OF stands_forD(2) [OF assms(1)] assms(2)] by blast
  have "hm_get (c_tcp_sessions c) key = tcp_at s key" using stands_forD(4) [OF assms(1)] by simp
  with ts assms(2) show ?thesis by (simp add: tcp_at_def)
qed

lemma stands_for_none:
  assumes "stands_for s c"
  shows "hm_get (ca_udp_sessions s) a = None \<Longrightarrow> hm_get (c_udp_sessions c) a = None"
    and "hm_get (ca_tcp_sessions s) key = None \<Longrightarrow> hm_get (c_tcp_sessions c) key = None"
  using fun_cong [OF stands_forD(3) [OF assms], of a] fun_cong [OF stands_forD(4) [OF assms], of key]
  by (simp_all add: udp_at_def tcp_at_def)

lemma at_fun:
  "udp_at s = (\<lambda>a. Option.bind (hm_get (ca_udp_sessions s) a) (hm_get (ca_udp_store s)))"
  "tcp_at s = (\<lambda>key. Option.bind (hm_get (ca_tcp_sessions s) key) (hm_get (ca_tcp_store s)))"
  by (simp_all add: udp_at_def tcp_at_def fun_eq_iff)

lemma modify_fun:
  "hm_get (ca_udp_store (modify_udp k f s)) =
     (\<lambda>j. if j = k then map_option f (hm_get (ca_udp_store s) k) else hm_get (ca_udp_store s) j)"
  "hm_get (ca_tcp_store (modify_tcp n g s)) =
     (\<lambda>j. if j = n then map_option g (hm_get (ca_tcp_store s) n) else hm_get (ca_tcp_store s) j)"
  by (simp_all add: fun_eq_iff)

lemma dom_modify: "dom (hm_get (ca_udp_store (modify_udp k f s))) = dom (hm_get (ca_udp_store s))"
  by (auto split: if_splits)

section \<open>Updates of the tables\<close>

lemma stands_modify_udp:
  assumes S: "stands_for s c" and k: "hm_get (ca_udp_sessions s) a = Some k"
    and us: "hm_get (c_udp_sessions c) a = Some us"
  shows "stands_for (modify_udp k f s) (c\<lparr>c_udp_sessions := hm_insert a (f us) (c_udp_sessions c)\<rparr>)"
proof -
  note N = well_namedD [OF stands_forD(2) [OF S]]
  have "hm_get (ca_udp_store s) k = Some us" using stands_for_udp [OF S k] us by simp
  moreover have "a' = a" if "hm_get (ca_udp_sessions s) a' = Some k" for a'
    using N(1) [OF that] N(1) [OF k] by simp
  ultimately have "udp_at (modify_udp k f s) = (udp_at s)(a \<mapsto> f us)"
    by (simp only: at_fun modify_fun modify_udp_simps(2) bind_update
        [where m = "hm_get (ca_udp_sessions s)" and a = a and v = "f us", OF k] option.map)
  moreover have "well_named (modify_udp k f s)"
    using stands_forD(2) [OF S] by (simp add: well_named_def dom_modify)
  moreover have "tcp_at (modify_udp k f s) = tcp_at s" by (simp add: tcp_at_def fun_eq_iff)
  ultimately show ?thesis using S by (simp add: stands_for_def same_client_rest_def)
qed

lemma stands_modify_tcp:
  assumes S: "stands_for s c" and n: "hm_get (ca_tcp_sessions s) key = Some n"
    and ts: "hm_get (c_tcp_sessions c) key = Some ts" and f: "\<And>ts. ts_writer (f ts) = ts_writer ts"
  shows "stands_for (modify_tcp n f s) (c\<lparr>c_tcp_sessions := hm_insert key (f ts) (c_tcp_sessions c)\<rparr>)"
proof -
  note N = well_namedD [OF stands_forD(2) [OF S]]
  have "hm_get (ca_tcp_store s) n = Some ts" using stands_for_tcp [OF S n] ts by simp
  then have "tcp_at (modify_tcp n f s) = (tcp_at s)(key \<mapsto> f ts)"
    by (simp only: at_fun modify_fun modify_tcp_simps(5) bind_update
        [where m = "hm_get (ca_tcp_sessions s)" and a = key and v = "f ts", OF n N(4) [OF n]] option.map)
  moreover have "well_named (modify_tcp n f s)"
    using stands_forD(2) [OF S] tcp_named_touch [of _ _ _ f, OF _ f] by (simp add: well_named_def modify_fun)
  moreover have "udp_at (modify_tcp n f s) = udp_at s" by (simp add: udp_at_def fun_eq_iff)
  ultimately show ?thesis using S by (simp add: stands_for_def same_client_rest_def)
qed

lemma stands_new_udp:
  assumes S: "stands_for s c" and none: "hm_get (ca_udp_sessions s) a = None"
    and k: "k = (a, ca_next_session s)"
  shows "stands_for (s\<lparr>ca_base := (ca_base s)\<lparr>c_session_id_counter := i\<rparr>,
        ca_next_session := Suc (ca_next_session s), ca_udp_sessions := hm_insert a k (ca_udp_sessions s),
        ca_udp_store := hm_insert k us (ca_udp_store s)\<rparr>)
    (c\<lparr>c_session_id_counter := i, c_udp_sessions := hm_insert a us (c_udp_sessions c)\<rparr>)"
    (is "stands_for ?t ?d")
proof -
  note N = well_namedD [OF stands_forD(2) [OF S]]
  have old: "hm_get (ca_udp_sessions s) a' \<noteq> Some k" for a'
    using N(1) [of a' k] N(2) [of k] k less_irrefl by (metis snd_conv)
  have "udp_at ?t = (udp_at s)(a \<mapsto> us)"
    using bind_new [of "hm_get (ca_udp_sessions s)", OF old] by (simp add: at_fun)
  moreover have "well_named ?t"
    using stands_forD(2) [OF S] udp_named_new [OF _ k] by (simp add: well_named_def)
  moreover have "tcp_at ?t = tcp_at s" by (simp add: tcp_at_def fun_eq_iff)
  ultimately show ?thesis using S by (simp add: stands_for_def same_client_rest_def)
qed

lemma stands_new_tcp:
  assumes S: "stands_for s c" and none: "hm_get (ca_tcp_sessions s) key = None"
    and n: "n = c_next_conn c" and ts: "ts_writer ts = n"
  shows "stands_for (s\<lparr>ca_base := (ca_base s)\<lparr>c_next_conn := Suc n,
          c_readers := hm_insert n r (c_readers (ca_base s))\<rparr>,
        ca_tcp_sessions := hm_insert key n (ca_tcp_sessions s),
        ca_tcp_store := hm_insert n ts (ca_tcp_store s)\<rparr>)
    (c\<lparr>c_next_conn := Suc n, c_tcp_sessions := hm_insert key ts (c_tcp_sessions c),
       c_readers := hm_insert n r (c_readers c)\<rparr>)"
    (is "stands_for ?t ?d")
proof -
  note N = well_namedD [OF stands_forD(2) [OF S]]
  have next_conn: "c_next_conn (ca_base s) = n"
    using stands_forD(1) [OF S] n by (simp add: same_client_rest_def)
  have old: "hm_get (ca_tcp_sessions s) key' \<noteq> Some n" for key'
    using N(3) [of key' n] N(5) [of n] next_conn by auto
  have "tcp_at ?t = (tcp_at s)(key \<mapsto> ts)"
    using bind_new [of "hm_get (ca_tcp_sessions s)", OF old] by (simp add: at_fun)
  moreover have "well_named ?t"
    using stands_forD(2) [OF S] tcp_named_new [OF _ ts] next_conn by (simp add: well_named_def)
  moreover have "udp_at ?t = udp_at s" by (simp add: udp_at_def fun_eq_iff)
  ultimately show ?thesis using S by (simp add: stands_for_def same_client_rest_def)
qed

lemma stands_new_source:
  assumes "stands_for s c"
  shows "stands_for (s\<lparr>ca_base := (ca_base s)\<lparr>c_udp_session_addrs := hm_insert i a (c_udp_session_addrs (ca_base s))\<rparr>\<rparr>)
    (c\<lparr>c_udp_session_addrs := hm_insert i a (c_udp_session_addrs c)\<rparr>)"
  using assms by (auto simp: stands_for_def same_client_rest_def at_fun well_named_def)

lemma stands_for_again:
  "stands_for s (c\<lparr>c_udp_sessions := hm_insert a v (hm_insert a u m)\<rparr>)
     \<Longrightarrow> stands_for s (c\<lparr>c_udp_sessions := hm_insert a v m\<rparr>)"
  by (simp add: stands_for_def same_client_rest_def)

section \<open>Packets\<close>

definition frame_out :: "tcp_session \<Rightarrow> bytes \<Rightarrow> client_output list" where
  "frame_out ts data = (case send_tcp_frame ts data of Inl e \<Rightarrow> [] | Inr out \<Rightarrow> [out])"

lemma tcp_transport_loop_found:
  assumes "ep_protocol ep = Tcp"
    and "get_or_create_tcp_session now (connects i) c a (session_key a (ep_address ep)) = ((Some ts, cr), c1)"
  shows "tcp_transport_loop now connects a sid q pl i (ep # eps) c =
    (let ts' = ts\<lparr>ts_last_activity := now\<rparr>;
         (outs, c3) = tcp_transport_loop now connects a sid q pl (Suc i) eps
           (c1\<lparr>c_tcp_sessions := hm_insert (session_key a (ep_address ep)) ts' (c_tcp_sessions c1)\<rparr>)
     in (frame_out ts' (encode_tcp sid q pl) @ outs, c3))"
  using assms by (simp add: tcp_transport_loop.simps frame_out_def Let_def case_prod_beta split: sum.split)

lemma frame_finishes:
  assumes at: "alone_at w (TouchTcp k q pl n eps) s" and S: "stands_for s c"
    and n: "hm_get (ca_tcp_sessions s) key = Some n" and ts: "hm_get (c_tcp_sessions c) key = Some ts"
    and us: "hm_get (ca_udp_store s) k = Some us"
    and rest: "\<And>t. alone_at w (FindTcp k q pl eps) t \<Longrightarrow>
      stands_for t (c\<lparr>c_tcp_sessions := hm_insert key (ts\<lparr>ts_last_activity := now\<rparr>) (c_tcp_sessions c)\<rparr>) \<Longrightarrow>
      hm_get (ca_udp_store t) k = Some us \<Longrightarrow> client_finishes t outs P"
  shows "client_finishes s
    (frame_out (ts\<lparr>ts_last_activity := now\<rparr>) (encode_tcp (us_session_id us) q pl) @ outs) P"
proof -
  let ?t = "modify_tcp n (\<lambda>ts. ts\<lparr>ts_last_activity := now\<rparr>) s"
  let ?u = "proceed w (WriteTcp k q pl n eps) ?t"
  let ?v = "proceed w (FindTcp k q pl eps) ?u"
  have "hm_get (ca_tcp_store s) n = Some ts" using stands_for_tcp [OF S n] ts by simp
  then have sends: "client_step w 0 0 True (WriteTcp k q pl n eps) ?u =
      (frame_out (ts\<lparr>ts_last_activity := now\<rparr>) (encode_tcp (us_session_id us) q pl), ?v)"
    using us by (simp add: client_step_def write_tcp_step_def frame_out_def)
  have "stands_for ?t (c\<lparr>c_tcp_sessions := hm_insert key (ts\<lparr>ts_last_activity := now\<rparr>) (c_tcp_sessions c)\<rparr>)"
    by (rule stands_modify_tcp [OF S n ts]) simp
  then have "client_finishes ?v outs P" using at us by (intro rest) simp_all
  from client_alone_step [OF _ sends this] have "client_finishes ?u
      (frame_out (ts\<lparr>ts_last_activity := now\<rparr>) (encode_tcp (us_session_id us) q pl) @ outs) P"
    using at by simp
  then show ?thesis
    by (rule client_alone_quiet [where now = now and random = 0 and connected = True, OF at, rotated])
      (simp add: client_step_def touch_tcp_step_def)
qed

lemma tcp_finishes:
  assumes "alone_at w (FindTcp k q pl eps) s" and "stands_for s c"
    and "hm_get (ca_udp_store s) k = Some us"
    and "tcp_transport_loop now connects (fst k) (us_session_id us) q pl i eps c = (outs, c')"
  shows "client_finishes s outs (\<lambda>t. stands_for t c')"
  using assms
proof (induction eps arbitrary: i s c outs)
  case Nil
  then have "outs = []" "c' = c" by simp_all
  with Nil(1,2) show ?case
    by (intro client_alone_last [OF Nil(1), where now = 0 and random = 0 and connected = True])
      (simp_all add: client_step_def)
next
  case (Cons ep eps)
  note at = Cons.prems(1) and S = Cons.prems(2) and us = Cons.prems(3)
  let ?key = "session_key (fst k) (ep_address ep)"
  have go: "client_finishes s outs (\<lambda>t. stands_for t c')"
    if "alone_at w (TouchTcp k q pl n eps) t" "stands_for t c1"
      "hm_get (ca_tcp_sessions t) ?key = Some n" "hm_get (c_tcp_sessions c1) ?key = Some ts"
      "hm_get (ca_udp_store t) k = Some us" "ep_protocol ep = Tcp"
      "get_or_create_tcp_session now (connects i) c (fst k) ?key = ((Some ts, cr), c1)"
      "client_finishes t outs (\<lambda>t. stands_for t c') \<Longrightarrow> client_finishes s outs (\<lambda>t. stands_for t c')"
    for t n c1 ts cr
  proof (rule that(8))
    note T = that
    obtain outs3 where loop: "tcp_transport_loop now connects (fst k) (us_session_id us) q pl (Suc i) eps
        (c1\<lparr>c_tcp_sessions := hm_insert ?key (ts\<lparr>ts_last_activity := now\<rparr>) (c_tcp_sessions c1)\<rparr>) = (outs3, c')"
      and outs: "outs = frame_out (ts\<lparr>ts_last_activity := now\<rparr>) (encode_tcp (us_session_id us) q pl) @ outs3"
      using Cons.prems(4) unfolding tcp_transport_loop_found [where connects = connects and i = i, OF T(6,7)]
      by (simp add: Let_def case_prod_beta prod_eq_iff)
    show "client_finishes t outs (\<lambda>t. stands_for t c')"
      unfolding outs by (rule frame_finishes [OF T(1-5)]) (rule Cons.IH [OF _ _ _ loop])
  qed
  show ?case
  proof (cases "ep_protocol ep = Tcp")
    case False
    then have "tcp_transport_loop now connects (fst k) (us_session_id us) q pl (Suc i) eps c = (outs, c')"
      using Cons.prems(4) by (simp add: tcp_transport_loop.simps)
    then have "client_finishes (proceed w (FindTcp k q pl eps) s) outs (\<lambda>t. stands_for t c')"
      using at S us by (intro Cons.IH) simp_all
    then show ?thesis
      by (rule client_alone_quiet [where now = 0 and random = 0 and connected = True, OF at, rotated])
        (simp add: client_step_def False)
  next
    case tcp: True
    show ?thesis
    proof (cases "hm_get (ca_tcp_sessions s) ?key")
      case (Some n)
      then obtain ts where ts: "hm_get (c_tcp_sessions c) ?key = Some ts"
        using stands_for_tcp [OF S] by blast
      show ?thesis
      proof (rule go [where t = "proceed w (TouchTcp k q pl n eps) s" and n = n])
        show "get_or_create_tcp_session now (connects i) c (fst k) ?key = ((Some ts, False), c)"
          using ts by (simp add: get_or_create_tcp_session_def)
        show "client_finishes s outs (\<lambda>t. stands_for t c')"
          if "client_finishes (proceed w (TouchTcp k q pl n eps) s) outs (\<lambda>t. stands_for t c')"
          by (rule client_alone_quiet [where now = 0 and random = 0 and connected = True, OF at _ that])
            (simp add: client_step_def tcp Some)
      qed (use at S Some ts us tcp in simp_all)
    next
      case None
      note none = stands_for_none(2) [OF S None]
      let ?o = "proceed w (OpenTcp k q pl ep eps) (proceed w (NewTcp k q pl ep eps) s)"
      have o_at: "alone_at w (OpenTcp k q pl ep eps) ?o" using at by simp
      have open_it: "client_finishes s outs (\<lambda>t. stands_for t c')"
        if "client_finishes ?o outs (\<lambda>t. stands_for t c')"
      proof -
        have "client_finishes (proceed w (NewTcp k q pl ep eps) s) outs (\<lambda>t. stands_for t c')"
          by (rule client_alone_quiet [where w = w and h = "NewTcp k q pl ep eps" and now = 0 and random = 0
                and connected = True, OF _ _ that])
            (simp_all add: at client_step_def new_tcp_step_def None)
        then show ?thesis
          by (rule client_alone_quiet [where now = 0 and random = 0 and connected = True, OF at, rotated])
            (simp add: client_step_def tcp None)
      qed
      show ?thesis
      proof (cases "connects i")
        case False
        then have "tcp_transport_loop now connects (fst k) (us_session_id us) q pl (Suc i) eps c = (outs, c')"
          using Cons.prems(4) tcp none by (simp add: tcp_transport_loop.simps get_or_create_tcp_session_def Let_def)
        then have "client_finishes (proceed w (FindTcp k q pl eps) ?o) outs (\<lambda>t. stands_for t c')"
          using at S us by (intro Cons.IH) simp_all
        then have "client_finishes ?o outs (\<lambda>t. stands_for t c')"
          by (rule client_alone_quiet [where now = 0 and random = 0 and connected = False, OF o_at, rotated])
            (simp add: client_step_def open_tcp_step_def)
        then show ?thesis by (rule open_it)
      next
        case connected: True
        define n where "n = c_next_conn c"
        define ts where "ts = \<lparr>ts_writer = n, ts_last_activity = now\<rparr>"
        define r where "r = \<lparr>tr_source = fst k, tr_key = ?key\<rparr>"
        define t where "t = proceed w (TouchTcp k q pl n eps) (?o\<lparr>ca_base := (ca_base ?o)\<lparr>c_next_conn := Suc n,
            c_readers := hm_insert n r (c_readers (ca_base ?o))\<rparr>,
          ca_tcp_sessions := hm_insert ?key n (ca_tcp_sessions ?o),
          ca_tcp_store := hm_insert n ts (ca_tcp_store ?o)\<rparr>)"
        define c1 where "c1 = c\<lparr>c_next_conn := Suc n, c_tcp_sessions := hm_insert ?key ts (c_tcp_sessions c),
          c_readers := hm_insert n r (c_readers c)\<rparr>"
        have "c_next_conn (ca_base s) = n"
          using stands_forD(1) [OF S] by (simp add: same_client_rest_def n_def)
        then have step: "client_step w now 0 True (OpenTcp k q pl ep eps) ?o = ([], t)"
          by (simp add: client_step_def open_tcp_step_def Let_def t_def ts_def r_def)
        show ?thesis
        proof (rule go [where t = t and n = n])
          show "stands_for t c1"
            using stands_new_tcp [of ?o c ?key n ts r] S None
            by (simp add: t_def c1_def n_def ts_def)
          show "get_or_create_tcp_session now (connects i) c (fst k) ?key = ((Some ts, True), c1)"
            using none connected
            by (simp add: get_or_create_tcp_session_def Let_def c1_def ts_def r_def n_def)
          show "client_finishes s outs (\<lambda>t. stands_for t c')"
            if "client_finishes t outs (\<lambda>t. stands_for t c')"
            by (rule open_it [OF client_alone_quiet [OF o_at step that]])
        qed (use at us tcp in \<open>simp_all add: t_def c1_def\<close>)
      qed
    qed
  qed
qed

lemma datagrams_finish:
  assumes "alone_at w (SendUdp k q pl senders) s" and "stands_for s c"
    and "hm_get (ca_udp_store s) k = Some us"
    and rest: "\<And>t. alone_at w (FindTcp k q pl (cc_servers (c_cfg c))) t \<Longrightarrow> stands_for t c \<Longrightarrow>
      hm_get (ca_udp_store t) k = Some us \<Longrightarrow> client_finishes t outs P"
  shows "client_finishes s
    (map (\<lambda>sender. UdpSend sender (encode_udp (us_session_id us) q pl)) senders @ outs) P"
  using assms(1-3)
proof (induction senders arbitrary: s)
  case Nil
  have "c_cfg (ca_base s) = c_cfg c"
    using stands_forD(1) [OF Nil(2)] by (simp add: same_client_rest_def)
  with Nil have "client_finishes (proceed w (FindTcp k q pl (cc_servers (c_cfg (ca_base s)))) s) outs P"
    by (intro rest) simp_all
  then have "client_finishes s outs P"
    by (rule client_alone_quiet [where now = 0 and random = 0 and connected = True, OF Nil(1), rotated])
      (simp add: client_step_def)
  then show ?case by simp
next
  case (Cons sender senders)
  let ?p = "proceed w (SendUdp k q pl senders) s"
  have "client_finishes ?p
      (map (\<lambda>sender. UdpSend sender (encode_udp (us_session_id us) q pl)) senders @ outs) P"
    using Cons.prems by (intro Cons.IH) simp_all
  moreover have "client_step w 0 0 True (SendUdp k q pl (sender # senders)) s =
      ([UdpSend sender (encode_udp (us_session_id us) q pl)], ?p)"
    using Cons.prems(3) by (simp add: client_step_def)
  ultimately show ?case
    using client_alone_step [OF Cons.prems(1)] by fastforce
qed

text \<open>What \<open>handle_packet\<close> does once the session is there.\<close>

definition packet_numbered ::
    "instant \<Rightarrow> (nat \<Rightarrow> bool) \<Rightarrow> socket_addr \<Rightarrow> bytes \<Rightarrow> udp_session \<Rightarrow> client \<Rightarrow> client_output list \<times> client" where
  "packet_numbered now connects a pl us c =
     (let us' = us\<lparr>us_seq := us_seq us + 1, us_last_activity := now\<rparr>;
          c2 = c\<lparr>c_udp_sessions := hm_insert a us' (c_udp_sessions c)\<rparr>;
          (tcp_outs, c3) = handle_tcp_transport now connects c2 a (us_session_id us) (us_seq us) pl
      in (handle_udp_transport c2 (us_session_id us) (us_seq us) pl @ tcp_outs, c3))"

lemma handle_packet_numbered:
  "handle_packet now random connects c a pl =
     (let (us, c1) = get_or_create_udp_session now random c a in packet_numbered now connects a pl us c1)"
  by (simp add: handle_packet_def packet_numbered_def Let_def case_prod_beta)

lemma numbered_finishes:
  assumes at: "alone_at w (TakeNumber k pl) s" and S: "stands_for s c"
    and k: "hm_get (ca_udp_sessions s) a = Some k" and us: "hm_get (c_udp_sessions c) a = Some us"
    and result: "packet_numbered now connects a pl us c = (outs, c')"
  shows "client_finishes s outs (\<lambda>t. stands_for t c')"
proof -
  let ?us1 = "us\<lparr>us_seq := us_seq us + 1\<rparr>" and ?us2 = "us\<lparr>us_seq := us_seq us + 1, us_last_activity := now\<rparr>"
  let ?c2 = "c\<lparr>c_udp_sessions := hm_insert a ?us2 (c_udp_sessions c)\<rparr>"
  let ?q = "us_seq us"
  let ?s1 = "modify_udp k (\<lambda>us. us\<lparr>us_seq := us_seq us + 1\<rparr>) s"
  let ?t1 = "proceed w (TouchSession k ?q pl) ?s1"
  let ?s2 = "modify_udp k (\<lambda>us. us\<lparr>us_last_activity := now\<rparr>) ?t1"
  let ?t2 = "proceed w (SendUdp k ?q pl (c_udp_senders (ca_base ?t1))) ?s2"
  have fst_k: "fst k = a" using well_namedD(1) [OF stands_forD(2) [OF S] k] by simp
  have store: "hm_get (ca_udp_store s) k = Some us" using stands_for_udp [OF S k] us by simp
  have senders: "c_udp_senders (ca_base s) = c_udp_senders c"
    using stands_forD(1) [OF S] by (simp add: same_client_rest_def)
  obtain tcp_outs where tcp: "tcp_transport_loop now connects (fst k) (us_session_id ?us2) ?q pl 0
      (cc_servers (c_cfg ?c2)) ?c2 = (tcp_outs, c')"
    and outs: "outs = map (\<lambda>sender. UdpSend sender (encode_udp (us_session_id ?us2) ?q pl)) (c_udp_senders c) @ tcp_outs"
    using result fst_k
    by (auto simp: packet_numbered_def handle_tcp_transport_def handle_udp_transport_def Let_def split: prod.splits)
  have "stands_for ?t1 (c\<lparr>c_udp_sessions := hm_insert a ?us1 (c_udp_sessions c)\<rparr>)"
    using stands_modify_udp [OF S k us, of "\<lambda>us. us\<lparr>us_seq := us_seq us + 1\<rparr>"] by simp
  from stands_modify_udp [OF this, of a k ?us1 "\<lambda>us. us\<lparr>us_last_activity := now\<rparr>"] k
  have "stands_for ?t2 ?c2" using stands_for_again by simp
  moreover have "alone_at w (SendUdp k ?q pl (c_udp_senders c)) ?t2" using at senders by simp
  moreover have "hm_get (ca_udp_store ?t2) k = Some ?us2" using store by simp
  ultimately have "client_finishes ?t2 outs (\<lambda>t. stands_for t c')"
    unfolding outs by (intro datagrams_finish [where c = ?c2]) (auto intro: tcp_finishes [OF _ _ _ tcp])
  then have "client_finishes ?t1 outs (\<lambda>t. stands_for t c')"
    by (rule client_alone_quiet [where w = w and h = "TouchSession k ?q pl" and now = now and random = 0
          and connected = True, rotated -1])
      (simp_all add: at client_step_def touch_session_step_def)
  then show ?thesis
    by (rule client_alone_quiet [where now = 0 and random = 0 and connected = True, OF at, rotated])
      (simp add: client_step_def take_number_step_def store)
qed

lemma client_packet_finishes:
  assumes at: "alone_at w (FindSession a pl) s" and S: "stands_for s c"
    and result: "handle_packet now random connects c a pl = (outs, c')"
  shows "client_finishes s outs (\<lambda>t. stands_for t c')"
proof (cases "hm_get (ca_udp_sessions s) a")
  case (Some k)
  then obtain us where us: "hm_get (c_udp_sessions c) a = Some us" using stands_for_udp [OF S] by blast
  with result have "packet_numbered now connects a pl us c = (outs, c')"
    by (simp add: handle_packet_numbered get_or_create_udp_session_def)
  with at S Some us have "client_finishes (proceed w (TakeNumber k pl) s) outs (\<lambda>t. stands_for t c')"
    by (intro numbered_finishes [where w = w and a = a]) simp_all
  then show ?thesis
    by (rule client_alone_quiet [where now = 0 and random = 0 and connected = True, OF at, rotated])
      (simp add: client_step_def find_session_step_def Some)
next
  case None
  note none = stands_for_none(1) [OF S None]
  define i where "i = (let n = c_session_id_counter c + 1 in if n = 0 then n + 1 else n)"
  define us where "us = \<lparr>us_session_id = i, us_seq = random mod ((2 ^ 32 - 1) div 2), us_last_activity = now,
      us_response_dedup = response_window_new DEFAULT_RESPONSE_DEDUP_SIZE\<rparr>"
  define k where "k = (a, ca_next_session s)"
  let ?n = "proceed w (NewSession a pl) s"
  define t1 where "t1 = proceed w (AddSource k pl) (?n\<lparr>ca_base := (ca_base ?n)\<lparr>c_session_id_counter := i\<rparr>,
      ca_next_session := Suc (ca_next_session ?n), ca_udp_sessions := hm_insert a k (ca_udp_sessions ?n),
      ca_udp_store := hm_insert k us (ca_udp_store ?n)\<rparr>)"
  define t2 where "t2 = t1\<lparr>ca_base := (ca_base t1)\<lparr>c_udp_session_addrs :=
      hm_insert i a (c_udp_session_addrs (ca_base t1))\<rparr>\<rparr>"
  define c1 where "c1 = c\<lparr>c_session_id_counter := i, c_udp_sessions := hm_insert a us (c_udp_sessions c),
      c_udp_session_addrs := hm_insert i a (c_udp_session_addrs c)\<rparr>"
  have counter: "c_session_id_counter (ca_base s) = c_session_id_counter c"
    using stands_forD(1) [OF S] by (simp add: same_client_rest_def)
  have "get_or_create_udp_session now random c a = (us, c1)"
    using none by (simp add: get_or_create_udp_session_def Let_def i_def us_def c1_def)
  with result have numbered: "packet_numbered now connects a pl us c1 = (outs, c')"
    by (simp add: handle_packet_numbered)
  have "stands_for t1 (c\<lparr>c_session_id_counter := i, c_udp_sessions := hm_insert a us (c_udp_sessions c)\<rparr>)"
    using stands_new_udp [of ?n c a k us i] S None by (simp add: t1_def k_def)
  from stands_new_source [OF this, of i a] have "stands_for t2 c1"
    by (simp add: t2_def c1_def)
  then have "client_finishes (proceed w (TakeNumber k pl) t2) outs (\<lambda>t. stands_for t c')"
    using at by (intro numbered_finishes [where w = w and a = a, OF _ _ _ _ numbered]) (simp_all add: t2_def t1_def c1_def)
  then have "client_finishes t1 outs (\<lambda>t. stands_for t c')"
    by (rule client_alone_quiet [where w = w and h = "AddSource k pl" and now = 0 and random = 0
          and connected = True, rotated -1])
      (simp_all add: at client_step_def add_source_step_def t1_def t2_def k_def us_def)
  then have "client_finishes ?n outs (\<lambda>t. stands_for t c')"
    by (rule client_alone_quiet [where w = w and h = "NewSession a pl" and now = now and random = random
          and connected = True, rotated -1])
      (simp_all add: at client_step_def new_session_step_def None Let_def t1_def us_def i_def k_def counter)
  then show ?thesis
    by (rule client_alone_quiet [where now = 0 and random = 0 and connected = True, OF at, rotated])
      (simp add: client_step_def find_session_step_def None)
qed

section \<open>Responses\<close>

text \<open>What the two kinds of responses have in common.\<close>

definition receive_response ::
    "instant \<Rightarrow> client \<Rightarrow> socket_addr \<Rightarrow> u32 \<Rightarrow> bytes \<Rightarrow> client_output list \<times> client" where
  "receive_response now c a q pl =
     (case hm_get (c_udp_sessions c) a of
        None \<Rightarrow> ([], c)
      | Some us \<Rightarrow>
          let (dup, window) = response_is_duplicate (us_response_dedup us) q;
              us1 = us\<lparr>us_response_dedup := window\<rparr>
          in if dup then ([], c\<lparr>c_udp_sessions := hm_insert a us1 (c_udp_sessions c)\<rparr>)
             else (case c_listener c of None \<Rightarrow> [] | Some l \<Rightarrow> [SendTo l pl a],
                   c\<lparr>c_udp_sessions := hm_insert a (us1\<lparr>us_last_activity := now\<rparr>) (c_udp_sessions c)\<rparr>))"

lemma process_response_receive:
  "process_udp_response now c data =
     (case decode_udp data of Inl e \<Rightarrow> ([], c)
      | Inr (sid, q, pl) \<Rightarrow>
          (case hm_get (c_udp_session_addrs c) sid of None \<Rightarrow> ([], c)
           | Some a \<Rightarrow> receive_response now c a q pl))"
  "process_tcp_response now c a data =
     (case decode_tcp data of Inl e \<Rightarrow> ([], c) | Inr (sid, q, pl) \<Rightarrow> receive_response now c a q pl)"
  unfolding process_udp_response_def process_tcp_response_def receive_response_def by (rule refl)+

lemma receive_finishes:
  assumes at: "alone_at w (FindReceiver a q pl) s" and S: "stands_for s c"
    and result: "receive_response now c a q pl = (outs, c')"
  shows "client_finishes s outs (\<lambda>t. stands_for t c')"
proof (cases "hm_get (ca_udp_sessions s) a")
  case None
  then have "outs = []" "c' = c"
    using result stands_for_none(1) [OF S None] by (simp_all add: receive_response_def)
  with at S show ?thesis
    by (intro client_alone_last [OF at, where now = 0 and random = 0 and connected = True])
      (simp_all add: client_step_def find_receiver_step_def None)
next
  case (Some k)
  then obtain us where us: "hm_get (c_udp_sessions c) a = Some us" and store: "hm_get (ca_udp_store s) k = Some us"
    using stands_for_udp [OF S] by blast
  let ?win = "snd (response_is_duplicate (us_response_dedup us) q)"
  let ?us1 = "us\<lparr>us_response_dedup := ?win\<rparr>"
  let ?c1 = "c\<lparr>c_udp_sessions := hm_insert a ?us1 (c_udp_sessions c)\<rparr>"
  let ?t1 = "proceed w (CheckResponse a k q pl) s"
  let ?s1 = "modify_udp k (\<lambda>us. us\<lparr>us_response_dedup := ?win\<rparr>) ?t1"
  have t1: "alone_at w (CheckResponse a k q pl) ?t1" "stands_for ?t1 c" using at S by simp_all
  have S1: "stands_for ?s1 ?c1" using Some us by (intro stands_modify_udp [OF t1(2)]) simp_all
  have "client_finishes ?t1 outs (\<lambda>t. stands_for t c')"
  proof (cases "fst (response_is_duplicate (us_response_dedup us) q)")
    case True
    then have "outs = []" "c' = ?c1"
      using result us by (auto simp: receive_response_def case_prod_beta Let_def)
    with S1 at show ?thesis
      by (intro client_alone_last [OF t1(1), where now = 0 and random = 0 and connected = True and t = ?s1])
        (simp_all add: client_step_def check_response_step_def store True case_prod_beta Let_def)
  next
    case False
    let ?us2 = "?us1\<lparr>us_last_activity := now\<rparr>"
    let ?t2 = "proceed w (TouchReceiver a k pl) ?s1"
    let ?s2 = "modify_udp k (\<lambda>us. us\<lparr>us_last_activity := now\<rparr>) ?t2"
    let ?t3 = "proceed w (Deliver a pl) ?s2"
    have r: "outs = (case c_listener c of None \<Rightarrow> [] | Some l \<Rightarrow> [SendTo l pl a])"
        "c' = c\<lparr>c_udp_sessions := hm_insert a ?us2 (c_udp_sessions c)\<rparr>"
      using False result us by (auto simp: receive_response_def case_prod_beta Let_def)
    have "stands_for ?s2 (?c1\<lparr>c_udp_sessions := hm_insert a ?us2 (c_udp_sessions ?c1)\<rparr>)"
      using Some S1 by (intro stands_modify_udp) simp_all
    then have "stands_for ?t3 c'" unfolding r using stands_for_again by simp
    moreover have "c_listener (ca_base s) = c_listener c"
      using stands_forD(1) [OF S] by (simp add: same_client_rest_def)
    ultimately have "client_finishes ?t3 outs (\<lambda>t. stands_for t c')"
      using at
      by (intro client_alone_last [where w = w and h = "Deliver a pl" and now = 0 and random = 0
            and connected = True and t = ?t3])
        (simp_all add: client_step_def deliver_step_def r(1))
    then have "client_finishes ?t2 outs (\<lambda>t. stands_for t c')"
      by (rule client_alone_quiet [where w = w and h = "TouchReceiver a k pl" and now = now and random = 0
            and connected = True, rotated -1])
        (simp_all add: at client_step_def touch_receiver_step_def)
    then show ?thesis
      by (rule client_alone_quiet [where now = 0 and random = 0 and connected = True, OF t1(1), rotated])
        (simp add: client_step_def check_response_step_def store False case_prod_beta Let_def)
  qed
  then show ?thesis
    by (rule client_alone_quiet [where now = 0 and random = 0 and connected = True, OF at, rotated])
      (simp add: client_step_def find_receiver_step_def Some)
qed

section \<open>The end of a reader\<close>

lemma stands_close:
  assumes S: "stands_for s c"
  shows "stands_for (close_tcp key s) (cleanup_tcp_session key c)"
proof (cases "hm_get (ca_tcp_sessions s) key")
  case None
  with S stands_for_none(2) [OF S None] show ?thesis
    by (simp add: close_tcp_def cleanup_tcp_session_def)
next
  case (Some n)
  then obtain ts where ts: "hm_get (ca_tcp_store s) n = Some ts" "hm_get (c_tcp_sessions c) key = Some ts"
    using stands_for_tcp [OF S] by blast
  have n: "ts_writer ts = n" using well_namedD(5) [OF stands_forD(2) [OF S] ts(1)] by simp
  let ?m = "hm_remove key (ca_tcp_sessions s)"
  have sub: "hm_get (ca_tcp_sessions s) key' = Some j" if "hm_get ?m key' = Some j" for key' j
    using that by (simp add: lookup_delete split: if_splits)
  have "tcp_named (hm_get ?m) (hm_get (ca_tcp_store s)) (c_next_conn (ca_base s))"
    using stands_forD(2) [OF S] sub unfolding well_named_def by (blast intro: named_less(2))
  moreover have "(\<lambda>key'. Option.bind (hm_get ?m key') (hm_get (ca_tcp_store s)))
      = hm_get (hm_remove key (c_tcp_sessions c))"
    using fun_cong [OF stands_forD(4) [OF S]] by (simp add: fun_eq_iff lookup_delete tcp_at_def)
  ultimately show ?thesis
    using S Some ts(2) n
    by (simp add: stands_for_def same_client_rest_def well_named_def at_fun close_tcp_def cleanup_tcp_session_def)
qed

lemma stands_fold_close:
  "stands_for s c \<Longrightarrow> stands_for (fold close_tcp keys s) (fold cleanup_tcp_session keys c)"
  by (induction keys arbitrary: s c) (simp_all add: stands_close)

lemma reader_end_finishes:
  assumes at: "alone_at (AtReader n) (CloseTcp key) s" and S: "stands_for s c"
  shows "client_finishes s [] (\<lambda>t. stands_for t (end_reader n (cleanup_tcp_session key c)))"
proof -
  let ?t = "close_tcp key s"
  let ?u = "?t\<lparr>ca_base := end_reader n (ca_base ?t)\<rparr>"
  have "stands_for ?u (end_reader n (cleanup_tcp_session key c))"
    using stands_close [OF S, of key]
    by (auto simp: stands_for_def same_client_rest_def well_named_def at_fun end_reader_def)
  with at show ?thesis
    by (intro client_alone_last [OF at, where now = 0 and random = 0 and connected = True and t = ?u])
      (simp_all add: client_step_def close_tcp_step_def Let_def)
qed

section \<open>The sweep\<close>

lemma stands_for_cong:
  assumes "stands_for s c" and "same_client_rest c d"
    and "hm_get (c_udp_sessions c) = hm_get (c_udp_sessions d)"
    and "hm_get (c_tcp_sessions c) = hm_get (c_tcp_sessions d)"
  shows "stands_for s d"
  using assms by (simp add: stands_for_def same_client_rest_def)

lemma stands_remove_udp:
  assumes S: "stands_for s c"
  shows "stands_for (s\<lparr>ca_udp_sessions := hm_remove a (ca_udp_sessions s)\<rparr>)
    (c\<lparr>c_udp_sessions := hm_remove a (c_udp_sessions c)\<rparr>)"
proof -
  let ?m = "hm_remove a (ca_udp_sessions s)"
  have sub: "hm_get (ca_udp_sessions s) b = Some k" if "hm_get ?m b = Some k" for b k
    using that by (simp add: lookup_delete split: if_splits)
  have "udp_named (hm_get ?m) (dom (hm_get (ca_udp_store s))) (ca_next_session s)"
    using stands_forD(2) [OF S] sub unfolding well_named_def by (blast intro: named_less(1))
  moreover have "(\<lambda>b. Option.bind (hm_get ?m b) (hm_get (ca_udp_store s)))
      = hm_get (hm_remove a (c_udp_sessions c))"
    using fun_cong [OF stands_forD(3) [OF S]] by (simp add: fun_eq_iff lookup_delete udp_at_def)
  ultimately show ?thesis
    using S by (auto simp: stands_for_def same_client_rest_def well_named_def at_fun)
qed

lemma stands_remove_source:
  assumes "stands_for s c"
  shows "stands_for (s\<lparr>ca_base := (ca_base s)\<lparr>c_udp_session_addrs := hm_remove i (c_udp_session_addrs (ca_base s))\<rparr>\<rparr>)
    (c\<lparr>c_udp_session_addrs := hm_remove i (c_udp_session_addrs c)\<rparr>)"
  using assms
  by (auto simp: stands_for_def same_client_rest_def at_fun well_named_def lookup_delete fun_eq_iff)

definition sources_swept :: "(socket_addr \<times> u64) list \<Rightarrow> client \<Rightarrow> client" where
  "sources_swept dead c = c\<lparr>c_udp_sessions := hm_remove_all (map fst dead) (c_udp_sessions c),
     c_udp_session_addrs := hm_remove_all (map snd dead) (c_udp_session_addrs c)\<rparr>"

lemma sources_swept_Cons:
  "sources_swept ((a, sid) # dead) c =
     sources_swept dead (c\<lparr>c_udp_sessions := hm_remove a (c_udp_sessions c),
       c_udp_session_addrs := hm_remove sid (c_udp_session_addrs c)\<rparr>)"
  by (simp add: sources_swept_def hm_remove_all_def)

lemma sweep_udp_finishes:
  assumes "alone_at w (SweepUdp now dead) s" and "stands_for s c"
    and "\<And>t. alone_at w (LockTcp now) t \<Longrightarrow> stands_for t (sources_swept dead c) \<Longrightarrow> client_finishes t outs P"
  shows "client_finishes s outs P"
  using assms
proof (induction dead arbitrary: s c)
  case Nil
  have "client_finishes (proceed w (LockTcp now) s) outs P"
    using Nil(1,2) by (intro Nil(3)) (simp_all add: sources_swept_def)
  then show ?case
    by (rule client_alone_quiet [where now = 0 and random = 0 and connected = True, OF Nil(1), rotated])
      (simp add: client_step_def)
next
  case (Cons e dead)
  obtain a sid where e: "e = (a, sid)" by (cases e)
  let ?s1 = "s\<lparr>ca_udp_sessions := hm_remove a (ca_udp_sessions s)\<rparr>"
  let ?t1 = "proceed w (SweepSource now sid dead) ?s1"
  let ?s2 = "?t1\<lparr>ca_base := (ca_base ?t1)\<lparr>c_udp_session_addrs := hm_remove sid (c_udp_session_addrs (ca_base ?t1))\<rparr>\<rparr>"
  let ?t2 = "proceed w (SweepUdp now dead) ?s2"
  let ?d = "c\<lparr>c_udp_sessions := hm_remove a (c_udp_sessions c),
    c_udp_session_addrs := hm_remove sid (c_udp_session_addrs c)\<rparr>"
  have "stands_for ?t1 (c\<lparr>c_udp_sessions := hm_remove a (c_udp_sessions c)\<rparr>)"
    using stands_remove_udp [OF Cons.prems(2)] by simp
  from stands_remove_source [OF this] have "stands_for ?t2 ?d" by simp
  moreover have "alone_at w (SweepUdp now dead) ?t2" using Cons.prems(1) by simp
  ultimately have "client_finishes ?t2 outs P"
    using Cons.IH [of ?t2 ?d] Cons.prems(3) [unfolded e sources_swept_Cons] by blast
  then have "client_finishes ?t1 outs P"
    by (rule client_alone_quiet [where w = w and h = "SweepSource now sid dead" and now = 0 and random = 0
          and connected = True, rotated -1])
      (simp_all add: Cons.prems(1) client_step_def sweep_source_step_def)
  then show ?case
    by (rule client_alone_quiet [where now = 0 and random = 0 and connected = True, OF Cons.prems(1), rotated])
      (simp add: client_step_def e)
qed

definition idle_source ::
    "instant \<Rightarrow> duration \<Rightarrow> (session_name \<Rightarrow> udp_session option) \<Rightarrow> socket_addr \<times> session_name
       \<Rightarrow> (socket_addr \<times> u64) list" where
  "idle_source now timeout st e =
     (case st (snd e) of None \<Rightarrow> []
      | Some us \<Rightarrow> if expired now timeout (us_last_activity us) then [(fst e, us_session_id us)] else [])"

lemma scan_udp_finishes:
  assumes "alone_at w (ScanUdp now todo dead) s" and "stands_for s c"
    and "\<And>t. stands_for t c \<Longrightarrow> alone_at w (SweepUdp now (dead @
        concat (map (idle_source now (cc_session_timeout (c_cfg c)) (hm_get (ca_udp_store s))) todo))) t \<Longrightarrow>
      client_finishes t outs P"
  shows "client_finishes s outs P"
  using assms
proof (induction todo arbitrary: dead s)
  case Nil
  have "client_finishes (proceed w (SweepUdp now dead) s) outs P"
    using Nil(1,2) by (intro Nil(3)) simp_all
  then show ?case
    by (rule client_alone_quiet [where now = 0 and random = 0 and connected = True, OF Nil(1), rotated])
      (simp add: client_step_def)
next
  case (Cons e todo)
  obtain a k where e: "e = (a, k)" by (cases e)
  have cfg: "c_cfg (ca_base s) = c_cfg c"
    using stands_forD(1) [OF Cons.prems(2)] by (simp add: same_client_rest_def)
  let ?idle = "idle_source now (cc_session_timeout (c_cfg c)) (hm_get (ca_udp_store s))"
  let ?t = "proceed w (ScanUdp now todo (dead @ ?idle e)) s"
  have "client_finishes ?t outs P"
  proof (rule Cons.IH [where dead = "dead @ ?idle e"])
    show "client_finishes t outs P"
      if "stands_for t c" and "alone_at w (SweepUdp now ((dead @ ?idle e) @ concat (map (idle_source now
        (cc_session_timeout (c_cfg c)) (hm_get (ca_udp_store ?t))) todo))) t" for t
      using Cons.prems(3) [of t] that by simp
  qed (use Cons.prems(1,2) in simp_all)
  then show ?case
    by (rule client_alone_quiet [where now = 0 and random = 0 and connected = True, OF Cons.prems(1), rotated])
      (simp add: client_step_def e idle_source_def cfg Let_def split: option.split)
qed

definition idle_conn :: "instant \<Rightarrow> duration \<Rightarrow> (conn \<Rightarrow> tcp_session option) \<Rightarrow> string \<times> conn \<Rightarrow> bool" where
  "idle_conn now timeout st e =
     (case st (snd e) of None \<Rightarrow> False | Some ts \<Rightarrow> expired now timeout (ts_last_activity ts))"

lemma scan_tcp_finishes:
  assumes "alone_at w (ScanTcp now todo dead) s" and "stands_for s c"
  shows "client_finishes s [] (\<lambda>t. stands_for t (fold cleanup_tcp_session (dead @
    map fst (filter (idle_conn now (cc_session_timeout (c_cfg c)) (hm_get (ca_tcp_store s))) todo)) c))"
  using assms
proof (induction todo arbitrary: dead s)
  case Nil
  with stands_fold_close [OF Nil(2), of dead] show ?case
    by (intro client_alone_last [OF Nil(1), where now = 0 and random = 0 and connected = True])
      (simp_all add: client_step_def)
next
  case (Cons e todo)
  obtain key n where e: "e = (key, n)" by (cases e)
  have cfg: "c_cfg (ca_base s) = c_cfg c"
    using stands_forD(1) [OF Cons.prems(2)] by (simp add: same_client_rest_def)
  let ?idle = "idle_conn now (cc_session_timeout (c_cfg c)) (hm_get (ca_tcp_store s))"
  let ?dead = "if ?idle e then dead @ [key] else dead"
  let ?t = "proceed w (ScanTcp now todo ?dead) s"
  have "client_finishes ?t [] (\<lambda>t. stands_for t (fold cleanup_tcp_session (?dead @ map fst (filter ?idle todo)) c))"
    using Cons.IH [of ?t ?dead] Cons.prems by simp
  moreover have "?dead @ map fst (filter ?idle todo) = dead @ map fst (filter ?idle (e # todo))"
    by (simp add: e)
  ultimately have "client_finishes ?t []
      (\<lambda>t. stands_for t (fold cleanup_tcp_session (dead @ map fst (filter ?idle (e # todo))) c))"
    by metis
  then show ?case
    by (rule client_alone_quiet [where now = 0 and random = 0 and connected = True, OF Cons.prems(1), rotated])
      (simp add: client_step_def e idle_conn_def cfg Let_def)
qed

lemma fold_cleanup_frame:
  fixes keys c
  defines "c' \<equiv> fold cleanup_tcp_session keys c"
  shows "c_cfg c' = c_cfg c" "c_cancelled c' = c_cancelled c" "c_listener c' = c_listener c"
    "c_listen_addr c' = c_listen_addr c" "c_session_id_counter c' = c_session_id_counter c"
    "c_udp_sessions c' = c_udp_sessions c" "c_udp_session_addrs c' = c_udp_session_addrs c"
    "c_udp_senders c' = c_udp_senders c" "c_tasks c' = c_tasks c" "c_readers c' = c_readers c"
    "c_next_conn c' = c_next_conn c"
  unfolding c'_def
  by (induction keys arbitrary: c) (simp_all add: cleanup_tcp_session_def split: option.split)

lemma fold_cleanup_gets:
  "hm_get (c_tcp_sessions (fold cleanup_tcp_session keys c)) =
     (\<lambda>key. if key \<in> set keys then None else hm_get (c_tcp_sessions c) key)"
  "c_cancelled_conns (fold cleanup_tcp_session keys c) = c_cancelled_conns c \<union>
     {n. \<exists>key ts. key \<in> set keys \<and> hm_get (c_tcp_sessions c) key = Some ts \<and> ts_writer ts = n}"
proof (induction keys arbitrary: c)
  case (Cons key keys)
  {
    case 1
    show ?case by (simp add: Cons.IH(1)) (auto simp: cleanup_tcp_session_def lookup_delete fun_eq_iff split: option.split)
  next
    case 2
    show ?case
    proof (cases "hm_get (c_tcp_sessions c) key")
      case None
      then have "cleanup_tcp_session key c = c" by (simp add: cleanup_tcp_session_def)
      with None show ?thesis by (auto simp: Cons.IH(2))
    next
      case (Some ts)
      then have "cleanup_tcp_session key c = c\<lparr>c_tcp_sessions := hm_remove key (c_tcp_sessions c),
          c_cancelled_conns := insert (ts_writer ts) (c_cancelled_conns c)\<rparr>"
        by (simp add: cleanup_tcp_session_def)
      with Some show ?thesis
        by (simp add: Cons.IH(2) lookup_delete) (auto split: if_splits, metis option.inject)
    qed
  }
qed simp_all

lemma finishes_in_weaken:
  "finishes_in enabled handle pending s outs P \<Longrightarrow> (\<And>t. P t \<Longrightarrow> Q t) \<Longrightarrow>
     finishes_in enabled handle pending s outs Q"
  unfolding finishes_in_def by blast

text \<open>The entries that the two scans collect are those that the sweep of the maps removes.\<close>

lemma in_iter_at:
  "(\<exists>e \<in> set (hm_iter m). fst e = a \<and> P (snd e)) \<longleftrightarrow> (\<exists>k. hm_get m a = Some k \<and> P k)"
  using in_hm_iter [of a _ m] by (metis fst_conv prod.collapse snd_conv)

lemma in_keys_filter: "key \<in> set (map fst (filter f xs)) \<longleftrightarrow> (\<exists>e \<in> set xs. fst e = key \<and> f e)"
  by (force simp: image_iff)

lemma sources_collected:
  assumes S: "stands_for s c"
  shows "(a, sid) \<in> set (concat (map (idle_source now timeout (hm_get (ca_udp_store s))) (hm_iter (ca_udp_sessions s))))
    \<longleftrightarrow> (\<exists>us. hm_get (c_udp_sessions c) a = Some us \<and> us_session_id us = sid \<and>
          expired now timeout (us_last_activity us))"
proof -
  have entry: "(a, sid) \<in> set (idle_source now timeout (hm_get (ca_udp_store s)) e) \<longleftrightarrow>
      fst e = a \<and> (\<exists>us. hm_get (ca_udp_store s) (snd e) = Some us \<and> us_session_id us = sid \<and>
        expired now timeout (us_last_activity us))" for e
    by (cases "hm_get (ca_udp_store s) (snd e)") (auto simp: idle_source_def)
  have "(a, sid) \<in> set (concat (map (idle_source now timeout (hm_get (ca_udp_store s))) (hm_iter (ca_udp_sessions s))))
    \<longleftrightarrow> (\<exists>e \<in> set (hm_iter (ca_udp_sessions s)). fst e = a \<and>
      (\<exists>us. hm_get (ca_udp_store s) (snd e) = Some us \<and> us_session_id us = sid \<and>
        expired now timeout (us_last_activity us)))"
    unfolding entry [symmetric] by simp
  also have "\<dots> \<longleftrightarrow> (\<exists>k. hm_get (ca_udp_sessions s) a = Some k \<and>
      (\<exists>us. hm_get (ca_udp_store s) k = Some us \<and> us_session_id us = sid \<and>
        expired now timeout (us_last_activity us)))"
    by (rule in_iter_at)
  also have "\<dots> \<longleftrightarrow> (\<exists>us. udp_at s a = Some us \<and> us_session_id us = sid \<and>
      expired now timeout (us_last_activity us))"
    unfolding udp_at_def bind_eq_Some_conv by blast
  finally show ?thesis using stands_forD(3) [OF S] by simp
qed

lemma conns_collected:
  assumes S: "stands_for s c"
  shows "key \<in> set (map fst (filter (idle_conn now timeout (hm_get (ca_tcp_store s))) (hm_iter (ca_tcp_sessions s))))
    \<longleftrightarrow> (\<exists>ts. hm_get (c_tcp_sessions c) key = Some ts \<and> expired now timeout (ts_last_activity ts))"
proof -
  have "key \<in> set (map fst (filter (idle_conn now timeout (hm_get (ca_tcp_store s))) (hm_iter (ca_tcp_sessions s))))
    \<longleftrightarrow> (\<exists>e \<in> set (hm_iter (ca_tcp_sessions s)). fst e = key \<and>
      idle_conn now timeout (hm_get (ca_tcp_store s)) (key, snd e))"
    unfolding in_keys_filter by (metis prod.collapse)
  also have "\<dots> \<longleftrightarrow> (\<exists>n. hm_get (ca_tcp_sessions s) key = Some n \<and>
      idle_conn now timeout (hm_get (ca_tcp_store s)) (key, n))"
    by (rule in_iter_at)
  also have "\<dots> \<longleftrightarrow> (\<exists>n ts. hm_get (ca_tcp_sessions s) key = Some n \<and> hm_get (ca_tcp_store s) n = Some ts \<and>
          expired now timeout (ts_last_activity ts))"
    by (auto simp: idle_conn_def split: option.splits)
  also have "\<dots> \<longleftrightarrow> (\<exists>ts. tcp_at s key = Some ts \<and> expired now timeout (ts_last_activity ts))"
    unfolding tcp_at_def bind_eq_Some_conv by blast
  finally show ?thesis using stands_forD(4) [OF S] by simp
qed

lemma swept_sources_and_conns:
  assumes dead: "\<And>a sid. (a, sid) \<in> set dead \<longleftrightarrow> (\<exists>us. hm_get (c_udp_sessions c) a = Some us \<and>
      us_session_id us = sid \<and> expired now (cc_session_timeout (c_cfg c)) (us_last_activity us))"
    and keys: "\<And>key. key \<in> set keys \<longleftrightarrow> (\<exists>ts. hm_get (c_tcp_sessions c) key = Some ts \<and>
      expired now (cc_session_timeout (c_cfg c)) (ts_last_activity ts))"
    and S: "stands_for s (fold cleanup_tcp_session keys (sources_swept dead c))"
  shows "stands_for s (cleanup_expired_sessions now c)"
proof (rule stands_for_cong [OF S])
  let ?d = "fold cleanup_tcp_session keys (sources_swept dead c)" and ?e = "cleanup_expired_sessions now c"
  have fst_dead: "a \<in> fst ` set dead \<longleftrightarrow> (\<exists>us. hm_get (c_udp_sessions c) a = Some us \<and>
      expired now (cc_session_timeout (c_cfg c)) (us_last_activity us))" for a
    using dead by force
  have snd_dead: "sid \<in> snd ` set dead \<longleftrightarrow> (\<exists>a us. hm_get (c_udp_sessions c) a = Some us \<and>
      us_session_id us = sid \<and> expired now (cc_session_timeout (c_cfg c)) (us_last_activity us))" for sid
    using dead by force
  show "hm_get (c_udp_sessions ?d) = hm_get (c_udp_sessions ?e)"
    by (auto simp: fun_eq_iff fold_cleanup_frame sources_swept_def fst_dead sweep_udp_sessions
        unless_expired_def split: option.split)
  show "hm_get (c_tcp_sessions ?d) = hm_get (c_tcp_sessions ?e)"
    by (auto simp: fun_eq_iff fold_cleanup_gets(1) sources_swept_def keys sweep_tcp_sessions unless_expired_def
        split: option.split)
  have "c_cancelled_conns ?d = c_cancelled_conns ?e"
    unfolding set_eq_iff fold_cleanup_gets(2) Un_iff mem_Collect_eq keys sweep_cancelled_conns sources_swept_def
    by simp (metis option.inject)
  moreover have "hm_get (c_udp_session_addrs ?d) = hm_get (c_udp_session_addrs ?e)"
    by (auto simp: fun_eq_iff fold_cleanup_frame sources_swept_def snd_dead sweep_addrs)
  moreover have "c_listen_addr ?e = c_listen_addr c"
    by (simp add: cleanup_expired_sessions_def Let_def)
  ultimately show "same_client_rest ?d ?e"
    by (simp add: same_client_rest_def fold_cleanup_frame sources_swept_def sweep_frame)
qed

lemma client_tick_finishes:
  assumes at: "alone_at w (ScanUdp now (hm_iter (ca_udp_sessions s)) []) s" and S: "stands_for s c"
  shows "client_finishes s [] (\<lambda>t. stands_for t (cleanup_expired_sessions now c))"
proof (rule scan_udp_finishes [OF at S])
  let ?T = "cc_session_timeout (c_cfg c)"
  let ?dead = "concat (map (idle_source now ?T (hm_get (ca_udp_store s))) (hm_iter (ca_udp_sessions s)))"
  let ?c1 = "sources_swept ?dead c"
  fix t assume t: "stands_for t c" "alone_at w (SweepUdp now ([] @ ?dead)) t"
  from t(2) have "alone_at w (SweepUdp now ?dead) t" by simp
  then show "client_finishes t [] (\<lambda>t. stands_for t (cleanup_expired_sessions now c))"
  proof (rule sweep_udp_finishes [OF _ t(1)])
    fix u assume u: "alone_at w (LockTcp now) u" "stands_for u ?c1"
    let ?v = "proceed w (ScanTcp now (hm_iter (ca_tcp_sessions u)) []) u"
    let ?keys = "map fst (filter (idle_conn now ?T (hm_get (ca_tcp_store ?v))) (hm_iter (ca_tcp_sessions ?v)))"
    have v: "alone_at w (ScanTcp now (hm_iter (ca_tcp_sessions ?v)) []) ?v" "stands_for ?v ?c1" using u by simp_all
    have same: "c_cfg ?c1 = c_cfg c" "c_tcp_sessions ?c1 = c_tcp_sessions c"
      by (simp_all add: sources_swept_def)
    have "client_finishes ?v [] (\<lambda>t. stands_for t (fold cleanup_tcp_session ?keys ?c1))"
      using scan_tcp_finishes [OF v] unfolding same by simp
    then have "client_finishes ?v [] (\<lambda>t. stands_for t (cleanup_expired_sessions now c))"
      by (rule finishes_in_weaken)
        (rule swept_sources_and_conns [OF sources_collected [OF S] conns_collected [OF v(2), unfolded same]])
    then show "client_finishes u [] (\<lambda>t. stands_for t (cleanup_expired_sessions now c))"
      by (rule client_alone_quiet [where now = 0 and random = 0 and connected = True, OF u(1), rotated])
        (simp add: client_step_def lock_tcp_step_def)
  qed
qed

section \<open>Every event\<close>

lemma client_idle_enabled:
  assumes S: "stands_for s c" and idle: "client_busy s = (\<lambda>_. None)" and enabled: "client_enabled c e"
  shows "client_async_enabled s (Begin e)"
proof -
  have "client_enabled (ca_base s) e"
    using enabled stands_forD(1) [OF S]
    by (cases e) (simp_all add: client_enabled_def same_client_rest_def)
  moreover have "\<not> client_locked s l" for l using idle by (simp add: client_locked_iff)
  ultimately show ?thesis
    using idle by (auto simp: client_async_enabled_def split: option.split client_event.split)
qed

lemma stands_base_event:
  assumes "stands_for s c" and "e \<in> {TcpReaderCancelled n, Stop, TaskReturns t}"
  shows "stands_for (s\<lparr>ca_base := snd (client_handle e (ca_base s))\<rparr>) (snd (client_handle e c)) \<and>
    fst (client_handle e c) = []"
  using assms
  by (auto simp: stands_for_def same_client_rest_def well_named_def at_fun client_handle_def end_reader_def
      client_stop_def)

lemma source_finishes:
  assumes at: "alone_at w (FindSource sid q pl) s" and S: "stands_for s c"
    and result: "(case hm_get (c_udp_session_addrs c) sid of None \<Rightarrow> ([], c)
      | Some a \<Rightarrow> receive_response now c a q pl) = (outs, c')"
  shows "client_finishes s outs (\<lambda>t. stands_for t c')"
proof -
  have same: "hm_get (c_udp_session_addrs (ca_base s)) = hm_get (c_udp_session_addrs c)"
    using stands_forD(1) [OF S] by (simp add: same_client_rest_def)
  show ?thesis
  proof (cases "hm_get (c_udp_session_addrs c) sid")
    case None
    with result have "outs = []" "c' = c" by simp_all
    with at S None show ?thesis
      by (intro client_alone_last [OF at, where now = 0 and random = 0 and connected = True])
        (simp_all add: client_step_def find_source_step_def same)
  next
    case (Some a)
    with result at S have "client_finishes (proceed w (FindReceiver a q pl) s) outs (\<lambda>t. stands_for t c')"
      by (intro receive_finishes [where w = w]) simp_all
    then show ?thesis
      by (rule client_alone_quiet [where now = 0 and random = 0 and connected = True, OF at, rotated])
        (simp add: client_step_def find_source_step_def same Some)
  qed
qed

lemma client_event_finishes:
  assumes S: "stands_for s c" and idle: "client_busy s = (\<lambda>_. None)"
    and enabled: "client_enabled c e" and handle: "client_handle e c = (outs, c')"
  shows "client_finishes s outs (\<lambda>t. stands_for t c')"
proof -
  have en: "client_async_enabled s (Begin e)" by (rule client_idle_enabled [OF S idle enabled])
  have solo: "client_solo w s" for w using idle by (rule solo_idle)
  have readers: "c_readers (ca_base s) = c_readers c"
    using stands_forD(1) [OF S] by (simp add: same_client_rest_def)
  have start: "client_finishes s outs (\<lambda>t. stands_for t c')"
    if "begin_handler e s = t" "client_finishes t outs (\<lambda>t. stands_for t c')" for t
    using finishes_in_event [where handle = client_async_handle and os = "[]", OF en _ that(2)] that(1)
    by (simp add: client_async_handle_def)
  have begins: "client_finishes s outs (\<lambda>t. stands_for t c')"
    if "begin_handler e s = proceed w h s"
      "\<And>t. alone_at w h t \<Longrightarrow> stands_for t c \<Longrightarrow> client_finishes t outs (\<lambda>t. stands_for t c')" for w h
    using solo S by (intro start [OF that(1)] that(2)) simp_all
  have none: "client_finishes s [] (\<lambda>t. stands_for t c)" by (rule finishes_in_idle) (rule idle, rule S)
  have base: ?thesis if "e \<in> {TcpReaderCancelled n, Stop, TaskReturns t}" for n t
  proof (rule start)
    show "begin_handler e s = s\<lparr>ca_base := snd (client_handle e (ca_base s))\<rparr>"
      using that by (auto simp: begin_handler_def Let_def)
    show "client_finishes (s\<lparr>ca_base := snd (client_handle e (ca_base s))\<rparr>) outs (\<lambda>t. stands_for t c')"
      using stands_base_event [OF S that] handle idle by (auto intro!: finishes_in_idle)
  qed
  show ?thesis
  proof (cases e)
    case (Packet now random connects a pl)
    have "handle_packet now random connects c a pl = (outs, c')"
      using handle by (simp add: Packet client_handle_def)
    then show ?thesis
      by (intro begins [OF _ client_packet_finishes]) (simp_all add: Packet begin_handler_def Let_def)
  next
    case (UdpResponse now sock data)
    show ?thesis
    proof (cases "decode_udp data")
      case (Inl err)
      with handle none show ?thesis
        by (auto simp: UdpResponse client_handle_def process_response_receive)
    next
      case (Inr p)
      obtain sid q pl where p: "p = (sid, q, pl)" by (cases p)
      with handle Inr have "(case hm_get (c_udp_session_addrs c) sid of None \<Rightarrow> ([], c)
          | Some a \<Rightarrow> receive_response now c a q pl) = (outs, c')"
        by (simp add: UdpResponse client_handle_def process_response_receive)
      then show ?thesis
        by (intro begins [OF _ source_finishes])
          (simp_all add: UdpResponse begin_handler_def Let_def Inr p)
    qed
  next
    case (TcpResponse now n data)
    with enabled obtain r where r: "hm_get (c_readers c) n = Some r"
      by (auto simp: client_enabled_def)
    show ?thesis
    proof (cases "decode_tcp data")
      case (Inl err)
      with handle none r show ?thesis
        by (auto simp: TcpResponse client_handle_def process_response_receive)
    next
      case (Inr p)
      obtain sid q pl where p: "p = (sid, q, pl)" by (cases p)
      with handle Inr r have "receive_response now c (tr_source r) q pl = (outs, c')"
        by (simp add: TcpResponse client_handle_def process_response_receive)
      then show ?thesis
        by (intro begins [OF _ receive_finishes])
          (simp_all add: TcpResponse begin_handler_def Let_def Inr p readers r)
    qed
  next
    case (TcpReaderEnds n)
    with enabled obtain r where r: "hm_get (c_readers c) n = Some r"
      by (auto simp: client_enabled_def)
    with handle have "outs = []" "c' = end_reader n (cleanup_tcp_session (tr_key r) c)"
      by (auto simp: TcpReaderEnds client_handle_def)
    with reader_end_finishes [of n _ "tr_key r" c] show ?thesis
      by (intro begins [where w = "AtReader n" and h = "CloseTcp (tr_key r)"])
        (simp_all add: TcpReaderEnds begin_handler_def Let_def readers r)
  next
    case (CleanupTick now)
    let ?t = "proceed AtCleanup (ScanUdp now (hm_iter (ca_udp_sessions s)) []) s"
    have "outs = []" "c' = cleanup_expired_sessions now c"
      using handle by (auto simp: CleanupTick client_handle_def)
    with solo S show ?thesis
      using client_tick_finishes [where w = AtCleanup and now = now and s = ?t and c = c]
      by (intro start [where t = ?t]) (simp_all add: CleanupTick begin_handler_def Let_def)
  qed (use base in blast)+
qed

lemma client_run_finishes:
  assumes "client_run c es outs c'" and "stands_for s c" and "client_busy s = (\<lambda>_. None)"
  shows "client_finishes s outs (\<lambda>t. stands_for t c')"
  using assms
proof (induction rule: run.induct)
  case (run_Nil c)
  then show ?case by (intro finishes_in_idle)
next
  case (run_snoc c es outs c1 e os c2)
  then obtain fs t where t: "client_async_run s fs outs t" "client_busy t = (\<lambda>_. None)" "stands_for t c1"
    by (auto simp: finishes_in_def)
  from client_event_finishes [OF t(3,2) run_snoc.hyps(2,3)] obtain gs u where
    u: "client_async_run t gs os u" "client_busy u = (\<lambda>_. None)" "stands_for u c2"
    by (auto simp: finishes_in_def)
  from run_append [OF u(1) t(1)] u(2,3) show ?case unfolding finishes_in_def by blast
qed

lemma client_started_stands:
  "stands_for (client_async_started r cfg os) (client_started r cfg os)"
  "client_busy (client_async_started r cfg os) = (\<lambda>_. None)"
proof -
  show "stands_for (client_async_started r cfg os) (client_started r cfg os)"
    by (simp add: stands_for_def same_client_rest_def well_named_def udp_named_def tcp_named_def at_fun
        client_async_started_def client_async_new_def client_started_def client_start_frame client_new_def fun_eq_iff)
  show "client_busy (client_async_started r cfg os) = (\<lambda>_. None)"
    by (simp add: client_async_started_def client_async_new_def)
qed

end
