(* ===== verification/Client_Async_Props.thy ===== *)
theory Client_Async_Props
  imports Client_Async_Maps Client_Async_Sim Client_Props
begin

text \<open>
  The properties of the interleaved client, each with a concrete run: what survives the
  interleaving of the listener, the readers and the cleanup timer.
\<close>

section \<open>Concrete runs\<close>

definition demo_async_client :: async_client where
  "demo_async_client = client_async_started 41 demo_config demo_sockets"

definition advance :: "client_worker \<Rightarrow> instant \<Rightarrow> nat \<Rightarrow> client_async_event list" where
  "advance w now k = replicate k (Advance w now 5 True)"

definition arrives :: "bytes \<Rightarrow> client_async_event" where
  "arrives pl = Begin (Packet 0 0 (\<lambda>_. True) demo_source pl)"

definition answer_udp :: "u64 \<Rightarrow> u32 \<Rightarrow> bytes \<Rightarrow> client_async_event" where
  "answer_udp sid q pl = Begin (UdpResponse 0 100 (encode_udp sid q pl))"

definition answer_tcp :: "u64 \<Rightarrow> u32 \<Rightarrow> bytes \<Rightarrow> client_async_event" where
  "answer_tcp sid q pl = Begin (TcpResponse 0 0 (encode_tcp sid q pl))"

abbreviation client_exec ::
    "client_async_event list \<Rightarrow> (client_output list \<times> async_client) option" where
  "client_exec es \<equiv> exec client_async_enabled client_async_handle es demo_async_client"

text \<open>Both copies of a response have found their session before either checks the window.\<close>

definition racing_responses :: "client_async_event list" where
  "racing_responses =
     [arrives [1, 2, 3]] @ advance AtListener 1000000000 14 @
     [answer_udp 42 7 [9, 9], answer_tcp 42 7 [9, 9]] @
     advance (AtUdpServer 100) 2000000000 2 @ advance (AtReader 0) 2000000000 1 @
     advance (AtUdpServer 100) 2000000000 1 @ advance (AtReader 0) 2000000000 1 @
     advance (AtUdpServer 100) 2000000000 2"

definition racing_client :: async_client where
  "racing_client = snd (the (client_exec racing_responses))"

definition racing_outs :: "client_output list" where
  "racing_outs = [UdpSend 100 (encode_udp 42 5 [1, 2, 3]),
     TcpWrite 0 (tcp_frame (encode_tcp 42 5 [1, 2, 3])), SendTo 7 [9, 9] demo_source]"

lemma racing_facts:
  "case client_exec racing_responses of
     None \<Rightarrow> False
   | Some (outs, s) \<Rightarrow>
       outs = racing_outs \<and> \<not> client_locked s UdpSessions \<and>
       hm_get (c_udp_session_addrs (ca_base s)) 42 = Some demo_source"
  by code_simp

lemma racing_client_facts:
  "client_async_run (client_async_started 41 demo_config demo_sockets) racing_responses racing_outs racing_client"
  "\<not> client_locked racing_client UdpSessions"
  "hm_get (c_udp_session_addrs (ca_base racing_client)) 42 = Some demo_source"
proof -
  show "client_async_run (client_async_started 41 demo_config demo_sockets) racing_responses racing_outs racing_client"
    using racing_facts unfolding racing_client_def demo_async_client_def
    by (intro exec_run) (auto split: option.splits)
qed (use racing_facts in \<open>auto simp: racing_client_def split: option.splits\<close>)

section \<open>What survives interleaving\<close>

text \<open>
  Claim C15: a response is delivered at most once however the client's tasks interleave. A payload
  is handed to a source at most as often as there are numbers under which it has arrived, once
  for each session the source has had: readers of UDP sockets and TCP connections that have
  found the session at the same time do not both pass its window.
\<close>

theorem interleaved_delivered_once:
  assumes "client_async_run (client_async_started r cfg os) es outs s" and "length es \<le> 2 ^ 32"
  shows "count_list outs (SendTo l pl a) \<le> sessions_of s a * card (response_numbers es pl)"
  by (rule delivered_bounded [OF assms])

theorem interleaved_delivered_once_witness:
  "count_list racing_outs (SendTo 7 [9, 9] demo_source)
     \<le> sessions_of racing_client demo_source * card (response_numbers racing_responses [9, 9])"
  by (rule interleaved_delivered_once [OF racing_client_facts(1)])
    (simp add: racing_responses_def advance_def)

text \<open>
  Claim C17: the client's tasks always come to an end. There is no infinite sequence of steps, in
  any order and from any state, though the loops go over senders, endpoints and sessions; and the
  two locks never block all tasks: from every state a sequence of steps leads to one in which
  none is busy.
\<close>

theorem client_tasks_finish:
  "wf {(s', s). \<exists>w now random connected. client_async_enabled s (Advance w now random connected) \<and>
      s' = snd (client_async_handle (Advance w now random connected) s)} \<and>
   (\<exists>es outs s'. client_async_run s es outs s' \<and>
      list_all (\<lambda>ev. \<exists>w now random connected. ev = Advance w now random connected) es \<and>
      hm_iter (ca_pending s') = [])"
proof
  show "wf {(s', s). \<exists>w now random connected. client_async_enabled s (Advance w now random connected) \<and>
      s' = snd (client_async_handle (Advance w now random connected) s)}"
    by (rule wf_subset [OF client_tasks.steps_wf]) auto
  from client_tasks.steps_drain [of s] obtain es os s' where
    "client_async_run s es os s'" "list_all (\<lambda>e. \<exists>w i. e = client_step_of w i) es"
    and idle: "client_busy s' = (\<lambda>_. None)" by blast
  moreover have "hm_iter (ca_pending s') = []" using dom_hm_get [of "ca_pending s'"] idle by simp
  ultimately show "\<exists>es outs s'. client_async_run s es outs s' \<and>
      list_all (\<lambda>ev. \<exists>w now random connected. ev = Advance w now random connected) es \<and>
      hm_iter (ca_pending s') = []"
    by (intro exI [of _ es] exI [of _ os] exI [of _ s']) (auto elim: list.pred_mono_strong)
qed

text \<open>
  Claim C16: in every state reached the two maps of the client, from sources to sessions and from
  identifiers to sources, are inverse to each other whenever the lock of \<open>udp_sessions\<close> is free,
  though each task changes them one after the other.
\<close>

theorem interleaved_maps_inverse:
  assumes "client_async_run (client_async_started r cfg os) es outs s" and "length es \<le> 2 ^ 32"
    and "\<not> client_locked s UdpSessions"
  shows "hm_get (c_udp_session_addrs (ca_base s)) sid = Some a \<longleftrightarrow>
    (\<exists>k us. hm_get (ca_udp_sessions s) a = Some k \<and> hm_get (ca_udp_store s) k = Some us \<and>
       us_session_id us = sid)"
proof -
  have free: "\<forall>w h. client_busy s w = Some h \<longrightarrow> \<not> about_maps h"
    using assms(3) by (auto simp: about_maps_holds client_locked_iff)
  have id: "id_in (session_view s) k = Some i \<longleftrightarrow>
      (\<exists>us. hm_get (ca_udp_store s) k = Some us \<and> us_session_id us = i)" for k i
    by (auto simp: id_in_def session_view_def)
  show ?thesis
    using maps_inv_free [OF client_maps_along [OF assms(1,2)] free] unfolding id by blast
qed

theorem interleaved_maps_inverse_witness:
  "\<exists>k us. hm_get (ca_udp_sessions racing_client) demo_source = Some k \<and>
     hm_get (ca_udp_store racing_client) k = Some us \<and> us_session_id us = 42"
  using interleaved_maps_inverse [OF racing_client_facts(1) _ racing_client_facts(2)] racing_client_facts(3)
  by (simp add: racing_responses_def advance_def)

text \<open>
  Claim C13: the client whose handlers run in one piece refines the interleaved one. Every run of
  it, with all its outputs, is a run of the interleaved client in which no two tasks overlap; it
  ends with no task busy, in a state that stands for the same sessions, connections and tasks.
\<close>

theorem client_run_is_interleaved_run:
  assumes "client_run (client_started r cfg os) es outs c"
  shows "\<exists>aes s. client_async_run (client_async_started r cfg os) aes outs s \<and>
    hm_get (ca_pending s) = (\<lambda>_. None) \<and> stands_for s c"
  using client_run_finishes [OF assms client_started_stands] unfolding finishes_in_def .

theorem client_run_is_interleaved_run_witness:
  "\<exists>aes s. client_async_run (client_async_started 41 demo_config demo_sockets) aes
     (fst (client_handle demo_packet demo_client)) s \<and>
     hm_get (ca_pending s) = (\<lambda>_. None) \<and> stands_for s after_packet"
  by (rule client_run_is_interleaved_run [OF demo_run_started])

end
