(* ===== verification/Server_Async_Paths.thy ===== *)
theory Server_Async_Paths
  imports Server_Async_Routes
begin

text \<open>
  Sessions and paths of the interleaved server: no session has two paths of one listener or
  connection, whoever registers them; a session's entry in the table is never replaced; and what
  becomes of a path that is registered after the timer has dropped its session.
\<close>

section \<open>No path twice\<close>

definition paths_distinct :: "(u64 \<Rightarrow> client_path list option) \<Rightarrow> bool" where
  "paths_distinct paths \<longleftrightarrow> (\<forall>sid ps. paths sid = Some ps \<longrightarrow> distinct (map path_key ps))"

lemma paths_distinctD: "paths_distinct paths \<Longrightarrow> paths sid = Some ps \<Longrightarrow> distinct (map path_key ps)"
  by (simp add: paths_distinct_def)

lemma session_paths_distinct:
  "paths_distinct paths \<Longrightarrow> distinct (map path_key (unwrap_or (paths sid) []))"
  by (cases "paths sid") (auto dest: paths_distinctD)

lemma paths_distinct_update:
  "paths_distinct paths \<Longrightarrow> distinct (map path_key ps) \<Longrightarrow> paths_distinct (paths(sid \<mapsto> ps))"
  by (simp add: paths_distinct_def)

lemma add_udp_path_distinct:
  assumes "paths_distinct (hm_get (s_client_paths s))"
  shows "paths_distinct (hm_get (s_client_paths (add_udp_path s sid addr sock)))"
proof -
  let ?ps = "unwrap_or (hm_get (s_client_paths s) sid) []"
  note old = session_paths_distinct [OF assms, of sid]
  have "distinct (map path_key (case update_udp_path addr sock ?ps of
      Some ps \<Rightarrow> ps | None \<Rightarrow> ?ps @ [UdpPath addr sock]))"
  proof (cases "update_udp_path addr sock ?ps")
    case None
    with old show ?thesis using update_udp_path_None [of addr sock ?ps] by simp
  next
    case (Some ps)
    with old update_udp_path_Some [OF Some] show ?thesis by simp
  qed
  with assms show ?thesis by (simp add: add_udp_path_def Let_def paths_distinct_update)
qed

lemma push_tcp_path_distinct:
  assumes "paths_distinct (hm_get (s_client_paths s))"
  shows "paths_distinct (hm_get (s_client_paths (push_tcp_path s sid cid m)))"
proof -
  let ?ps = "unwrap_or (hm_get (s_client_paths s) sid) []"
  have "distinct (map path_key (if list_ex (is_tcp_path_of cid m) ?ps then ?ps else ?ps @ [TcpPath cid m]))"
    using session_paths_distinct [OF assms, of sid] tcp_path_absent [of cid m ?ps] by simp
  with assms show ?thesis
    unfolding push_tcp_path_def Let_def by (simp add: paths_distinct_update del: distinct_map)
qed

lemma handler_step_distinct:
  assumes inv: "paths_distinct (hm_get (s_client_paths (a_base a)))"
    and step: "handler_step w now target h a = (os, a')"
  shows "paths_distinct (hm_get (s_client_paths (a_base a')))"
proof (cases h)
  case (Connect src sid q pl)
  with step inv show ?thesis by (cases target) (auto simp: step_defs Let_def)
next
  case (AddPath src sid pl n)
  with step inv show ?thesis
    by (cases src) (auto simp: step_defs add_udp_path_distinct push_tcp_path_distinct)
next
  case (SendPaths sid q pl ps)
  with step inv show ?thesis by (cases ps) (auto simp: step_defs split: if_splits)
next
  case (DropPath sid cid)
  have "distinct (map path_key (filter P ps))"
    if "hm_get (s_client_paths (a_base a)) sid = Some ps" for ps P
    using paths_distinctD [OF inv that] by (rule distinct_map_filter)
  with DropPath step inv show ?thesis
    by (cases w; cases "hm_get (s_client_paths (a_base a)) sid")
      (auto simp: step_defs Let_def intro!: paths_distinct_update)
next
  case (SweepPaths sid dead)
  with step inv show ?thesis
    by (auto simp: step_defs paths_distinct_def lookup_delete split: if_splits)
qed (use step inv in \<open>auto simp: step_defs case_prod_beta Let_def track_conn_def
    split: option.splits packet_source.splits worker.splits list.splits if_splits\<close>)

lemma start_keeps_table:
  assumes "start_handler e a = (os, a')"
  shows "os = [] \<and> a_sessions a' = a_sessions a \<and>
    s_client_paths (a_base a') = s_client_paths (a_base a)"
  using assms by (cases e) (auto simp: start_handler_def server_handle_def server_stop_def Let_def
      split: option.splits sum.splits)

lemma paths_distinct_along:
  assumes "async_run (async_started cfg os) es outs a"
  shows "paths_distinct (hm_get (s_client_paths (a_base a)))"
  using assms
proof (induction "async_started cfg os" es outs a rule: run.induct)
  case run_Nil
  show ?case
    using server_started_tasks [of cfg os]
    by (auto simp: paths_distinct_def async_started_def async_new_def server_new_def)
next
  case (run_snoc es outs a ev os' a')
  show ?case
  proof (cases ev)
    case (Start e)
    with run_snoc start_keeps_table [of e a os' a'] show ?thesis by (simp add: async_handle_def)
  next
    case (Step w now target)
    with run_snoc handler_step_distinct [of a w now target _ os' a'] show ?thesis
      by (auto simp: async_enabled_def async_handle_def split: option.splits)
  qed
qed

section \<open>No session twice\<close>

text \<open>Whoever is about to make a session's socket knows that the table has no entry for it.\<close>

definition connecting_absent :: "async_server \<Rightarrow> bool" where
  "connecting_absent a \<longleftrightarrow>
     (\<forall>w src sid q pl. hm_get (a_pending a) w = Some (Connect src sid q pl) \<longrightarrow>
        hm_get (a_sessions a) sid = None)"

lemma connecting_absentD:
  "connecting_absent a \<Longrightarrow> hm_get (a_pending a) w = Some (Connect src sid q pl) \<Longrightarrow>
     hm_get (a_sessions a) sid = None"
  unfolding connecting_absent_def by blast

text \<open>What a step of a handler other than the connecting one does to the table.\<close>

lemma other_step_table:
  assumes "hm_get (a_pending a) w = Some h" and "\<nexists>src sid q pl. h = Connect src sid q pl"
    and "handler_step w now target h a = (os, a')"
  shows "(a_sessions a' = a_sessions a \<or>
      (\<exists>sid dead. h = Sweep (sid # dead) \<and> a_sessions a' = hm_remove sid (a_sessions a))) \<and>
    (\<exists>h'. hm_get (a_pending a') = (hm_get (a_pending a))(w := h') \<and>
      (\<forall>src sid q pl. h' = Some (Connect src sid q pl) \<longrightarrow> hm_get (a_sessions a) sid = None))"
proof -
  define h' where "h' = hm_get (a_pending a') w"
  have "(a_sessions a' = a_sessions a \<or>
      (\<exists>sid dead. h = Sweep (sid # dead) \<and> a_sessions a' = hm_remove sid (a_sessions a))) \<and>
    hm_get (a_pending a') = (hm_get (a_pending a))(w := h') \<and>
      (\<forall>src sid q pl. h' = Some (Connect src sid q pl) \<longrightarrow> hm_get (a_sessions a) sid = None)"
  proof (cases h)
    case (Connect src sid q pl)
    with assms(2) show ?thesis by blast
  next
    case (SendPaths sid q pl ps)
    with assms(3) show ?thesis by (cases ps) (auto simp: h'_def step_defs split: if_splits)
  qed (use assms(3) in \<open>auto simp: h'_def step_defs case_prod_beta Let_def
      split: option.splits packet_source.splits worker.splits list.splits if_splits\<close>)
  then show ?thesis by blast
qed

lemma start_no_connect:
  assumes "start_handler e a = (os, a')" and "hm_get (a_pending a') w = Some (Connect src sid q pl)"
  shows "hm_get (a_pending a) w = Some (Connect src sid q pl)"
  using assms by (cases e) (auto simp: start_handler_def goto_def server_handle_def Let_def
      split: option.splits sum.splits if_splits)

lemma connecting_absent_step:
  assumes inv: "connecting_absent a" and excl: "exclusive busy (on_sessions holds_sessions) a"
    and h: "hm_get (a_pending a) w = Some h" and step: "handler_step w now target h a = (os, a')"
  shows "connecting_absent a'"
proof (cases "\<exists>src sid q pl. h = Connect src sid q pl")
  case True
  then obtain src sid q pl where c: "h = Connect src sid q pl" by blast
  have alone: "v = w" if "hm_get (a_pending a) v = Some (Connect src' sid' q' pl')" for v src' sid' q' pl'
    using excl h that unfolding exclusive_def by (auto simp: c holds_sessions_def)
  from step c have "\<exists>h'. hm_get (a_pending a') = (hm_get (a_pending a))(w := h') \<and>
      (\<forall>src sid q pl. h' \<noteq> Some (Connect src sid q pl))"
    by (cases target) (auto simp: step_defs Let_def)
  with alone show ?thesis unfolding connecting_absent_def by (metis fun_upd_apply)
next
  case False
  with other_step_table [OF h _ step] inv show ?thesis
    unfolding connecting_absent_def by (fastforce simp: lookup_delete split: if_splits)
qed

lemma connecting_absent_along:
  assumes "async_run (async_started cfg os) es outs a"
  shows "connecting_absent a"
  using assms
proof (induction "async_started cfg os" es outs a rule: run.induct)
  case run_Nil
  show ?case by (simp add: connecting_absent_def async_started_def async_new_def)
next
  case (run_snoc es outs a ev os' a')
  then have inv: "connecting_absent a" by simp
  show ?case
  proof (cases ev)
    case (Start e)
    with run_snoc.hyps have "start_handler e a = (os', a')" by (simp add: async_handle_def)
    from start_keeps_table [OF this] start_no_connect [OF this] inv show ?thesis
      unfolding connecting_absent_def by simp blast
  next
    case (Step w now target)
    with run_snoc.hyps inv reachable_exclusive [OF run_snoc.hyps(1)] show ?thesis
      by (auto simp: async_enabled_def async_handle_def split: option.splits
          intro: connecting_absent_step)
  qed
qed

text \<open>An entry leaves the table through the sweep, and no other way.\<close>

definition sweeps :: "async_server \<Rightarrow> async_event \<Rightarrow> u64 \<Rightarrow> bool" where
  "sweeps a ev sid \<longleftrightarrow>
     (\<exists>w now target dead. ev = Step w now target \<and> hm_get (a_pending a) w = Some (Sweep (sid # dead)))"

lemma entry_kept:
  assumes run: "async_run (async_started cfg os) es outs a" and n: "hm_get (a_sessions a) sid = Some n"
    and enabled: "async_enabled a ev" and handle: "async_handle ev a = (os', a')"
  shows "hm_get (a_sessions a') sid = (if sweeps a ev sid then None else Some n)"
proof (cases ev)
  case (Start e)
  with handle start_keeps_table [of e a os' a'] n show ?thesis
    by (simp add: async_handle_def sweeps_def)
next
  case (Step w now target)
  with enabled obtain h where h: "hm_get (a_pending a) w = Some h"
    by (auto simp: async_enabled_def split: option.splits)
  with Step handle have step: "handler_step w now target h a = (os', a')"
    by (simp add: async_handle_def)
  show ?thesis
  proof (cases "\<exists>src sid q pl. h = Connect src sid q pl")
    case True
    then obtain src k q pl where c: "h = Connect src k q pl" by blast
    with connecting_absentD [OF connecting_absent_along [OF run]] h n have "sid \<noteq> k" by auto
    with step c h n Step show ?thesis
      by (cases target) (auto simp: step_defs Let_def sweeps_def)
  next
    case False
    from step have "hm_get (a_sessions a') sid = None" if "h = Sweep (sid # dead)" for dead
      using that n by (auto simp: step_defs lookup_delete)
    with other_step_table [OF h False step] h n Step show ?thesis
      by (auto simp: sweeps_def lookup_delete)
  qed
qed

section \<open>A path without a session\<close>

text \<open>
  A handler whose work may enter the session again, take its paths away or answer for it. The
  handlers of its packets that have fetched it, and those of responses that have not yet looked
  for it, are not among them.
\<close>

definition concerns :: "u64 \<Rightarrow> handler \<Rightarrow> bool" where
  "concerns sid h =
     (case h of
        Lookup src k q pl \<Rightarrow> k = sid
      | Create src k q pl \<Rightarrow> k = sid
      | Connect src k q pl \<Rightarrow> k = sid
      | GetPaths k q pl \<Rightarrow> k = sid
      | SendPaths k q pl ps \<Rightarrow> k = sid
      | Scan t todo dead \<Rightarrow> sid \<in> fst ` set todo \<union> set dead
      | Sweep dead \<Rightarrow> sid \<in> set dead
      | SweepPaths k dead \<Rightarrow> k = sid \<or> sid \<in> set dead
      | _ \<Rightarrow> False)"

definition unattended :: "async_server \<Rightarrow> u64 \<Rightarrow> bool" where
  "unattended a sid \<longleftrightarrow>
     hm_get (a_sessions a) sid = None \<and>
     (\<forall>w h. hm_get (a_pending a) w = Some h \<longrightarrow> \<not> concerns sid h)"

definition answers :: "u64 \<Rightarrow> server_output \<Rightarrow> bool" where
  "answers sid out \<longleftrightarrow> (\<exists>q pl p. out = response_on_path sid q pl p)"

definition has_udp_path :: "async_server \<Rightarrow> u64 \<Rightarrow> socket \<Rightarrow> bool" where
  "has_udp_path a sid sock \<longleftrightarrow>
     Inl sock \<in> set (map path_key (unwrap_or (hm_get (s_client_paths (a_base a)) sid) []))"

lemma response_on_path_session:
  assumes "response_on_path sid q pl p = response_on_path k q' pl' p'"
  shows "sid = k"
proof (cases p)
  case (UdpPath addr sock)
  with assms show ?thesis
    by (cases p') (auto simp: response_on_path_def udp.enc_inject)
next
  case (TcpPath cid m)
  with assms have "tcp_frame (encode_tcp sid q pl) = tcp_frame (encode_tcp k q' pl')"
    by (cases p') (auto simp: response_on_path_def)
  then have "drop 2 (tcp_frame (encode_tcp sid q pl)) = drop 2 (tcp_frame (encode_tcp k q' pl'))"
    by simp
  then show ?thesis by (simp add: tcp_frame_def tcp.enc_inject)
qed

lemma unattended_step:
  assumes un: "unattended a sid" and h: "hm_get (a_pending a) w = Some h"
    and step: "handler_step w now target h a = (os, a')"
  shows "unattended a' sid \<and> list_all (\<lambda>out. \<not> answers sid out) os"
proof -
  have none: "hm_get (a_sessions a) sid = None" and quiet: "\<not> concerns sid h"
    and others: "\<And>v k. hm_get (a_pending a) v = Some k \<Longrightarrow> \<not> concerns sid k"
    using un h by (auto simp: unattended_def)
  define h' where "h' = hm_get (a_pending a') w"
  have "hm_get (a_sessions a') sid = None \<and>
    hm_get (a_pending a') = (hm_get (a_pending a))(w := h') \<and>
    (\<forall>k. h' = Some k \<longrightarrow> \<not> concerns sid k) \<and> list_all (\<lambda>out. \<not> answers sid out) os"
  proof (cases h)
    case (Connect src k q pl)
    with step none quiet show ?thesis
      by (cases target) (auto simp: h'_def step_defs concerns_def Let_def)
  next
    case (SendPaths k q pl ps)
    with quiet have "\<not> answers sid (response_on_path k q pl p)" for p
      using response_on_path_session by (fastforce simp: concerns_def answers_def)
    with SendPaths step none quiet show ?thesis
      by (cases ps) (auto simp: h'_def step_defs concerns_def split: if_splits)
  next
    case (Forward pl n)
    have "\<not> answers sid (TargetSend n pl)"
      by (auto simp: answers_def response_on_path_def split: client_path.splits)
    with Forward step none show ?thesis by (auto simp: h'_def step_defs)
  next
    case (Scan t todo dead)
    with step none quiet show ?thesis
      by (cases todo) (auto simp: h'_def step_defs concerns_def Let_def split: option.splits if_splits)
  next
    case (Sweep dead)
    with step none quiet show ?thesis
      by (cases dead) (auto simp: h'_def step_defs concerns_def lookup_delete split: option.splits)
  qed (use step none quiet in \<open>auto simp: h'_def step_defs concerns_def case_prod_beta Let_def
      split: option.splits packet_source.splits worker.splits if_splits\<close>)
  then show ?thesis using others by (auto simp: unattended_def)
qed

lemma goto_concerns:
  assumes "a' = goto w h a" and "\<not> concerns sid h"
  shows "hm_get (a_pending a') = hm_get (a_pending a) \<or>
    (\<exists>w h. hm_get (a_pending a') = (hm_get (a_pending a))(w \<mapsto> h) \<and> \<not> concerns sid h)"
  unfolding assms(1) goto_simps using assms(2) by blast

lemma start_concerns:
  assumes none: "hm_get (a_sessions a) sid = None" and start: "start_handler e a = (os, a')"
    and packet: "\<And>q pl. packet_of (Start e) \<noteq> Some (sid, q, pl)"
  shows "hm_get (a_pending a') = hm_get (a_pending a) \<or>
    (\<exists>w h. hm_get (a_pending a') = (hm_get (a_pending a))(w \<mapsto> h) \<and> \<not> concerns sid h)"
proof (cases e)
  case (UdpArrives now target sock addr data)
  show ?thesis
  proof (cases "decode_udp data")
    case (Inr p)
    obtain k q pl where p: "p = (k, q, pl)" by (cases p)
    with packet Inr have "\<not> concerns sid (Lookup (FromUdp sock addr) k q pl)"
      by (auto simp: UdpArrives packet_of_def concerns_def)
    with start Inr p show ?thesis unfolding UdpArrives by (auto simp: start_handler_def)
  qed (use start in \<open>auto simp: UdpArrives start_handler_def\<close>)
next
  case (TcpArrives now target n data)
  show ?thesis
  proof (cases "hm_get (s_conns (a_base a)) n")
    case (Some cid)
    show ?thesis
    proof (cases "decode_tcp data")
      case (Inr p)
      obtain k q pl where p: "p = (k, q, pl)" by (cases p)
      with packet Inr have "\<not> concerns sid (Lookup (FromTcp cid n) k q pl)"
        by (auto simp: TcpArrives packet_of_def concerns_def)
      with start Some Inr p show ?thesis unfolding TcpArrives by (auto simp: start_handler_def)
    qed (use start Some in \<open>auto simp: TcpArrives start_handler_def\<close>)
  qed (use start in \<open>auto simp: TcpArrives start_handler_def\<close>)
next
  case (ServerTick now)
  from none have "\<not> concerns sid (Scan now (hm_iter (a_sessions a)) [])"
    by (auto simp: concerns_def)
  with start show ?thesis unfolding ServerTick by (auto simp: start_handler_def)
next
  case (TcpConnEnds n)
  show ?thesis
  proof (cases "hm_get (s_conns (a_base a)) n")
    case (Some cid)
    with start have "a' = goto (ByConn n) (ForgetConn cid) a" by (simp add: TcpConnEnds start_handler_def)
    then show ?thesis by (rule goto_concerns) (simp add: concerns_def)
  qed (use start in \<open>simp add: TcpConnEnds start_handler_def\<close>)
next
  case (TargetResponse now n pl)
  show ?thesis
  proof (cases "hm_get (s_responders (a_base a)) n")
    case (Some k)
    with start have "a' = goto (ByResponder n) (TouchResponse k pl) a"
      by (simp add: TargetResponse start_handler_def)
    then show ?thesis by (rule goto_concerns) (simp add: concerns_def)
  qed (use start in \<open>simp add: TargetResponse start_handler_def\<close>)
qed (use start in \<open>auto simp: start_handler_def\<close>)

lemma unattended_start:
  assumes un: "unattended a sid" and start: "start_handler e a = (os, a')"
    and packet: "\<And>q pl. packet_of (Start e) \<noteq> Some (sid, q, pl)"
  shows "unattended a' sid"
  using un start_concerns [OF _ start packet] start_keeps_table [OF start]
  unfolding unattended_def by (metis fun_upd_apply option.inject)

lemma add_udp_path_keys:
  "Inl sock \<in> set (map path_key (unwrap_or (hm_get (s_client_paths (add_udp_path s sid addr sock)) sid) []))"
  using update_udp_path_Some [of addr sock]
  by (force simp: add_udp_path_def Let_def split: option.split)

lemma add_udp_path_keeps:
  "Inl sock \<in> set (map path_key (unwrap_or (hm_get (s_client_paths s) sid) [])) \<Longrightarrow>
   Inl sock \<in> set (map path_key (unwrap_or (hm_get (s_client_paths (add_udp_path s k addr l)) sid) []))"
  using update_udp_path_Some [of addr l "unwrap_or (hm_get (s_client_paths s) k) []"]
  by (cases "k = sid") (auto simp: add_udp_path_def Let_def simp del: set_map split: option.split)

lemma push_tcp_path_keeps:
  "Inl sock \<in> set (map path_key (unwrap_or (hm_get (s_client_paths s) sid) [])) \<Longrightarrow>
   Inl sock \<in> set (map path_key (unwrap_or (hm_get (s_client_paths (push_tcp_path s k cid m)) sid) []))"
  by (cases "k = sid") (auto simp: push_tcp_path_def Let_def)

lemma udp_path_step:
  assumes path: "has_udp_path a sid sock" and quiet: "\<not> concerns sid h"
    and step: "handler_step w now target h a = (os, a')"
  shows "has_udp_path a' sid sock"
proof (cases h)
  case (Connect src k q pl)
  with step path show ?thesis by (cases target) (auto simp: step_defs Let_def has_udp_path_def)
next
  case (AddPath src k pl n)
  with step path show ?thesis
    by (cases src) (auto simp: step_defs has_udp_path_def add_udp_path_keeps push_tcp_path_keeps
        simp del: set_map)
next
  case (SendPaths k q pl ps)
  with step path show ?thesis by (cases ps) (auto simp: step_defs has_udp_path_def split: if_splits)
next
  case (DropPath k cid)
  have "Inl sock \<in> path_key ` set (filter (\<lambda>p. \<not> matches_conn cid p) ps)"
    if "Inl sock \<in> path_key ` set ps" for ps
    using that by (force simp: matches_conn_def path_key_def split: client_path.splits)
  with DropPath step path show ?thesis
    by (cases w; cases "hm_get (s_client_paths (a_base a)) k")
      (auto simp: step_defs Let_def has_udp_path_def)
next
  case (SweepPaths k dead)
  with step path quiet show ?thesis
    by (auto simp: step_defs has_udp_path_def concerns_def lookup_delete)
qed (use step path in \<open>auto simp: step_defs has_udp_path_def case_prod_beta Let_def track_conn_def
    split: option.splits packet_source.splits worker.splits list.splits if_splits\<close>)

text \<open>Until a packet of the session arrives, nothing looks after the path.\<close>

lemma unattended_along:
  assumes "async_run a es outs a'" and "unattended a sid" and "has_udp_path a sid sock"
    and "\<forall>ev \<in> set es. \<forall>q pl. packet_of ev \<noteq> Some (sid, q, pl)"
  shows "unattended a' sid \<and> has_udp_path a' sid sock \<and> list_all (\<lambda>out. \<not> answers sid out) outs"
  using assms
proof (induction a es outs a' rule: run.induct)
  case (run_snoc a es outs a1 ev os' a')
  then have IH: "unattended a1 sid" "has_udp_path a1 sid sock" "list_all (\<lambda>out. \<not> answers sid out) outs"
    by simp_all
  show ?case
  proof (cases ev)
    case (Start e)
    with run_snoc.hyps have start: "start_handler e a1 = (os', a')" by (simp add: async_handle_def)
    from start_keeps_table [OF start] unattended_start [OF IH(1) start] run_snoc.prems IH Start
    show ?thesis by (auto simp: has_udp_path_def)
  next
    case (Step w now target)
    with run_snoc.hyps obtain h where h: "hm_get (a_pending a1) w = Some h"
      by (auto simp: async_enabled_def split: option.splits)
    with run_snoc.hyps Step have step: "handler_step w now target h a1 = (os', a')"
      by (simp add: async_handle_def)
    from IH(1) h have "\<not> concerns sid h" by (simp add: unattended_def)
    with unattended_step [OF IH(1) h step] udp_path_step [OF IH(2) _ step] IH(3) show ?thesis by simp
  qed
qed simp

text \<open>The step that registers a path for a datagram.\<close>

lemma late_path:
  assumes "hm_get (a_pending a) w = Some (AddPath (FromUdp sock addr) sid pl n)" and "unattended a sid"
  shows "async_handle (Step w now target) a =
      ([], add_path_step w (FromUdp sock addr) sid pl n a)"
    and "unattended (add_path_step w (FromUdp sock addr) sid pl n a) sid"
    and "has_udp_path (add_path_step w (FromUdp sock addr) sid pl n a) sid sock"
    and "hm_get (a_pending (add_path_step w (FromUdp sock addr) sid pl n a)) w = Some (Forward pl n)"
proof -
  show "async_handle (Step w now target) a = ([], add_path_step w (FromUdp sock addr) sid pl n a)"
    using assms(1) by (simp add: async_handle_def handler_step_def)
  show "unattended (add_path_step w (FromUdp sock addr) sid pl n a) sid"
    using assms by (auto simp: unattended_def add_path_step_def concerns_def)
  show "has_udp_path (add_path_step w (FromUdp sock addr) sid pl n a) sid sock"
    unfolding has_udp_path_def add_path_step_def by (simp add: add_udp_path_keys del: set_map)
  show "hm_get (a_pending (add_path_step w (FromUdp sock addr) sid pl n a)) w = Some (Forward pl n)"
    by (simp add: add_path_step_def)
qed

end
