(* ===== verification/Server_Async_Sim.thy ===== *)
theory Server_Async_Sim
  imports Server_Async_Live
begin

text \<open>
  The server of theory \<open>Server\<close>, whose handlers run in one piece, is the interleaved server when
  no two handlers overlap: each of its events is a start and some steps, with the same outputs.
  So whatever the former can do the latter can, and what holds of all interleaved runs holds of
  its runs.
\<close>

section \<open>Handlers that run alone\<close>

abbreviation solo :: "worker \<Rightarrow> async_server \<Rightarrow> bool" where
  "solo \<equiv> solo_in busy"

abbreviation finishes :: "async_server \<Rightarrow> server_output list \<Rightarrow> (async_server \<Rightarrow> bool) \<Rightarrow> bool" where
  "finishes \<equiv> finishes_in async_enabled async_handle busy"

lemma solo_simps [simp]:
  "solo w (goto w h a) = solo w a" "solo w (modify n f a) = solo w a"
  "solo w (a\<lparr>a_base := s\<rparr>) = solo w a" "solo w (a\<lparr>a_sessions := m\<rparr>) = solo w a"
  "solo w (a\<lparr>a_store := st\<rparr>) = solo w a"
  by (auto simp: solo_in_def)

lemma idle_solo: "all_idle a \<Longrightarrow> solo w a"
  by (simp add: all_idle_def solo_idle)

lemma idle_return: "solo w a \<Longrightarrow> all_idle (return w a)"
  by (auto simp: solo_in_def all_idle_def)

lemma finishes_iff:
  "finishes a outs P \<longleftrightarrow> (\<exists>es b. async_run a es outs b \<and> all_idle b \<and> P b)"
  by (simp add: finishes_in_def all_idle_def)

lemma finishes_idle: "all_idle a \<Longrightarrow> P a \<Longrightarrow> finishes a [] P"
  by (rule finishes_in_idle) (simp_all add: all_idle_def)

lemma finishes_step:
  assumes "solo w a" and "handler_step w now target h (goto w h a) = (os, b)" and "finishes b outs P"
  shows "finishes (goto w h a) (os @ outs) P"
  using async_tasks.alone_step [of w "goto w h a" h "(now, target)" os b outs P] assms
  by (simp add: async_handle_def)

text \<open>A step without output.\<close>

lemma finishes_goto:
  assumes "solo w a" and "fst (handler_step w now target h (goto w h a)) = []"
    and "finishes (snd (handler_step w now target h (goto w h a))) outs P"
  shows "finishes (goto w h a) outs P"
  using finishes_step [OF assms(1) _ assms(3), of now target h "[]"] assms(2)
  by (simp add: prod_eq_iff)

section \<open>What an interleaved state stands for\<close>

definition session_at :: "async_server \<Rightarrow> u64 \<Rightarrow> target_session option" where
  "session_at a sid = Option.bind (hm_get (a_sessions a) sid) (hm_get (a_store a))"

definition same_rest :: "server \<Rightarrow> server \<Rightarrow> bool" where
  "same_rest s t \<longleftrightarrow>
     s_cfg s = s_cfg t \<and> s_cancelled s = s_cancelled t \<and>
     s_tcp_conn_to_session s = s_tcp_conn_to_session t \<and> s_tasks s = s_tasks t \<and>
     s_responders s = s_responders t \<and> s_conns s = s_conns t \<and> s_next_socket s = s_next_socket t"

definition represents :: "async_server \<Rightarrow> server \<Rightarrow> bool" where
  "represents a s \<longleftrightarrow>
     same_rest (a_base a) s \<and> s_cancelled_sockets (a_base a) = s_cancelled_sockets s \<and>
     hm_get (s_client_paths (a_base a)) = hm_get (s_client_paths s) \<and>
     session_at a = hm_get (s_sessions s)"

lemma session_at_goto [simp]: "session_at (goto w h a) = session_at a"
  "session_at (return w a) = session_at a" "session_at (a\<lparr>a_base := s\<rparr>) = session_at a"
  by (simp_all add: session_at_def fun_eq_iff)

lemma represents_goto [simp]: "represents (goto w h a) s = represents a s"
  "represents (return w a) s = represents a s"
  "represents (goto w h a\<lparr>a_base := t\<rparr>) s = represents (a\<lparr>a_base := t\<rparr>) s"
  by (simp_all add: represents_def)

text \<open>Names of live sessions are distinct.\<close>

definition only_name :: "async_server \<Rightarrow> u64 \<Rightarrow> socket \<Rightarrow> bool" where
  "only_name a sid n \<longleftrightarrow> hm_get (a_sessions a) sid = Some n \<and>
     (\<forall>k. hm_get (a_sessions a) k = Some n \<longrightarrow> k = sid)"

lemma only_name_simps [simp]:
  "only_name (goto w h a) sid n = only_name a sid n" "only_name (modify m f a) sid n = only_name a sid n"
  "only_name (a\<lparr>a_base := s\<rparr>) sid n = only_name a sid n"
  by (simp_all add: only_name_def)

lemma names_inv_only_name:
  assumes "names_inv own es a" and "hm_get (a_sessions a) sid = Some n"
  shows "only_name a sid n"
  using names_invD(2) [OF assms(1)] assms(2) by (auto simp: only_name_def)

lemma represents_modify:
  assumes rep: "represents a s" and name: "only_name a sid n" and g: "session_at a sid = Some g"
  shows "represents (modify n f a) (s\<lparr>s_sessions := hm_insert sid (f g) (s_sessions s)\<rparr>)"
proof -
  have "session_at (modify n f a) = (session_at a)(sid \<mapsto> f g)"
    using name g by (auto simp: session_at_def only_name_def fun_eq_iff bind_eq_None_conv
        split: bind_split)
  with rep show ?thesis by (simp add: represents_def same_rest_def)
qed

section \<open>Packets\<close>

definition path_added :: "server \<Rightarrow> packet_source \<Rightarrow> u64 \<Rightarrow> server" where
  "path_added s src sid =
     (case src of FromUdp sock addr \<Rightarrow> add_udp_path s sid addr sock
      | FromTcp cid writer \<Rightarrow> add_tcp_path s sid cid writer)"

definition packet_result ::
    "instant \<Rightarrow> packet_source \<Rightarrow> u64 \<Rightarrow> u32 \<Rightarrow> bytes \<Rightarrow> target_session \<Rightarrow> server
       \<Rightarrow> server_output list \<times> server" where
  "packet_result now src sid q pl g s =
     (let (dup, window) = is_duplicate (tg_dedup_window g) q;
          g' = g\<lparr>tg_last_activity := now, tg_dedup_window := window\<rparr>;
          s' = s\<lparr>s_sessions := hm_insert sid g' (s_sessions s)\<rparr>
      in if dup then ([], s') else ([TargetSend (tg_target_conn g) pl], path_added s' src sid))"

definition packet_from ::
    "instant \<Rightarrow> target_open \<Rightarrow> packet_source \<Rightarrow> u64 \<Rightarrow> u32 \<Rightarrow> bytes \<Rightarrow> server
       \<Rightarrow> server_output list \<times> server" where
  "packet_from now target src sid q pl s =
     (case get_or_create_session now target s sid of
        (None, s1) \<Rightarrow> ([], s1)
      | (Some (g, created), s1) \<Rightarrow> packet_result now src sid q pl g s1)"

lemma handle_udp_packet_from:
  "handle_udp_packet now target s sock addr data =
     (case decode_udp data of Inl e \<Rightarrow> ([], s)
      | Inr (sid, q, pl) \<Rightarrow> packet_from now target (FromUdp sock addr) sid q pl s)"
  by (simp add: handle_udp_packet_def packet_from_def packet_result_def path_added_def Let_def
      case_prod_beta split: sum.split option.split)

lemma handle_tcp_packet_from:
  "handle_tcp_packet now target s cid w data =
     (case decode_tcp data of Inl e \<Rightarrow> ([], s)
      | Inr (sid, q, pl) \<Rightarrow> packet_from now target (FromTcp cid w) sid q pl s)"
  by (simp add: handle_tcp_packet_def packet_from_def packet_result_def path_added_def Let_def
      case_prod_beta split: sum.split option.split)

lemma represents_udp_path:
  assumes "represents a s"
  shows "represents (a\<lparr>a_base := add_udp_path (a_base a) sid addr sock\<rparr>) (add_udp_path s sid addr sock)"
  using assms by (simp add: represents_def same_rest_def add_udp_path_def Let_def)

lemma represents_tcp_path:
  assumes "represents a s"
  shows "represents (a\<lparr>a_base := push_tcp_path (track_conn (a_base a) sid cid) sid cid writer\<rparr>)
    (add_tcp_path s sid cid writer)"
  using assms
  by (simp add: represents_def same_rest_def add_tcp_path_halves push_tcp_path_def track_conn_def Let_def)

lemma forward_finishes:
  assumes "solo w a" and "P (return w (goto w (Forward pl n) a))"
  shows "finishes (goto w (Forward pl n) a) [TargetSend n pl] P"
proof -
  let ?a = "goto w (Forward pl n) a"
  have "finishes (return w ?a) [] P"
    using assms by (intro finishes_idle idle_return) simp_all
  from finishes_step [where h = "Forward pl n" and os = "[TargetSend n pl]", OF assms(1) _ this]
  show ?thesis
    by (simp add: handler_step_def)
qed

lemma new_path_finishes:
  assumes solo: "solo w a" and rep: "represents a s"
  shows "finishes (case src of FromUdp _ _ \<Rightarrow> goto w (AddPath src sid pl n) a
      | FromTcp _ _ \<Rightarrow> goto w (Track src sid pl n) a)
    [TargetSend n pl] (\<lambda>b. represents b (path_added s src sid))"
proof (cases src)
  case (FromUdp sock addr)
  let ?a1 = "goto w (AddPath src sid pl n) a"
  let ?b = "?a1\<lparr>a_base := add_udp_path (a_base ?a1) sid addr sock\<rparr>"
  have "represents ?b (path_added s src sid)"
    using represents_udp_path [OF rep] by (simp add: path_added_def FromUdp)
  then have "finishes (goto w (Forward pl n) ?b) [TargetSend n pl]
      (\<lambda>b. represents b (path_added s src sid))"
    using solo by (intro forward_finishes) simp_all
  then have "finishes ?a1 [TargetSend n pl] (\<lambda>b. represents b (path_added s src sid))"
    using solo by (intro finishes_goto [where now = 0 and target = TargetOpens])
      (simp_all add: handler_step_def add_path_step_def FromUdp)
  then show ?thesis by (simp add: FromUdp)
next
  case (FromTcp cid writer)
  let ?a1 = "goto w (Track src sid pl n) a"
  let ?a2 = "goto w (AddPath src sid pl n) (?a1\<lparr>a_base := track_conn (a_base ?a1) sid cid\<rparr>)"
  let ?b = "?a2\<lparr>a_base := push_tcp_path (a_base ?a2) sid cid writer\<rparr>"
  have "represents ?b (path_added s src sid)"
    using represents_tcp_path [OF rep] by (simp add: path_added_def FromTcp represents_def)
  then have "finishes (goto w (Forward pl n) ?b) [TargetSend n pl]
      (\<lambda>b. represents b (path_added s src sid))"
    using solo by (intro forward_finishes) simp_all
  then have "finishes ?a2 [TargetSend n pl] (\<lambda>b. represents b (path_added s src sid))"
    using solo by (intro finishes_goto [where now = 0 and target = TargetOpens])
      (simp_all add: handler_step_def add_path_step_def FromTcp)
  then have "finishes ?a1 [TargetSend n pl] (\<lambda>b. represents b (path_added s src sid))"
    using solo by (intro finishes_goto [where now = 0 and target = TargetOpens])
      (simp_all add: handler_step_def track_step_def FromTcp)
  then show ?thesis by (simp add: FromTcp)
qed

lemma touched_finishes:
  assumes solo: "solo w a" and name: "only_name a sid n" and g: "hm_get (a_store a) n = Some g"
    and conn: "tg_target_conn g = n" and rep: "represents a s"
    and result: "packet_result now src sid q pl g s = (outs, s')"
  shows "finishes (goto w (Touch src sid q pl n) a) outs (\<lambda>b. represents b s')"
proof -
  let ?win = "snd (is_duplicate (tg_dedup_window g) q)"
  let ?g1 = "g\<lparr>tg_last_activity := now\<rparr>"
  let ?a1 = "modify n (\<lambda>h. h\<lparr>tg_last_activity := now\<rparr>) (goto w (Touch src sid q pl n) a)"
  let ?c = "goto w (Check src sid q pl n) ?a1"
  let ?a2 = "modify n (\<lambda>h. h\<lparr>tg_dedup_window := ?win\<rparr>) ?c"
  let ?s2 = "s\<lparr>s_sessions := hm_insert sid (?g1\<lparr>tg_dedup_window := ?win\<rparr>) (s_sessions s)\<rparr>"
  have at: "session_at a sid = Some g" using name g by (simp add: session_at_def only_name_def)
  have "represents ?a1 (s\<lparr>s_sessions := hm_insert sid ?g1 (s_sessions s)\<rparr>)"
    using represents_modify [of "goto w (Touch src sid q pl n) a" s sid n g] name at rep by simp
  moreover have "session_at ?c sid = Some ?g1"
    using name g by (simp add: session_at_def only_name_def)
  ultimately have "represents ?a2 (s\<lparr>s_sessions := hm_insert sid ?g1 (s_sessions s),
      s_sessions := hm_insert sid (?g1\<lparr>tg_dedup_window := ?win\<rparr>) (hm_insert sid ?g1 (s_sessions s))\<rparr>)"
    using represents_modify [of ?c "s\<lparr>s_sessions := hm_insert sid ?g1 (s_sessions s)\<rparr>" sid n ?g1] name
    by simp
  then have rep2: "represents ?a2 ?s2" by (simp add: represents_def same_rest_def)
  have "finishes ?c outs (\<lambda>b. represents b s')"
  proof (cases "fst (is_duplicate (tg_dedup_window g) q)")
    case True
    then have r: "outs = []" "s' = ?s2"
      using result by (auto simp: packet_result_def case_prod_beta)
    have "finishes (return w ?a2) [] (\<lambda>b. represents b ?s2)"
      using solo rep2 by (intro finishes_idle idle_return) simp_all
    then show ?thesis
      unfolding r using solo True g
      by (intro finishes_goto [where now = 0 and target = TargetOpens])
        (simp_all add: handler_step_def check_step_def case_prod_beta Let_def)
  next
    case False
    then have r: "outs = [TargetSend n pl]" "s' = path_added ?s2 src sid"
      using result conn by (auto simp: packet_result_def case_prod_beta)
    have "solo w ?a2" using solo by simp
    from new_path_finishes [OF this rep2, of src sid pl n] show ?thesis
      unfolding r using solo False g
      by (intro finishes_goto [where now = 0 and target = TargetOpens])
        (simp_all add: handler_step_def check_step_def case_prod_beta Let_def)
  qed
  then show ?thesis
    using solo by (intro finishes_goto [where now = now and target = TargetOpens])
      (simp_all add: handler_step_def touch_step_def)
qed

lemma represents_open:
  assumes rep: "represents a s" and none: "hm_get (s_sessions s) sid = None"
    and fresh: "\<And>k. hm_get (a_sessions a) k \<noteq> Some (s_next_socket s)"
  shows "represents (a\<lparr>a_base := (a_base a)\<lparr>s_next_socket := Suc (s_next_socket s),
        s_responders := hm_insert (s_next_socket s) sid (s_responders (a_base a))\<rparr>,
      a_sessions := hm_insert sid (s_next_socket s) (a_sessions a),
      a_store := hm_insert (s_next_socket s) g (a_store a)\<rparr>)
    (s\<lparr>s_next_socket := Suc (s_next_socket s), s_sessions := hm_insert sid g (s_sessions s),
       s_responders := hm_insert (s_next_socket s) sid (s_responders s)\<rparr>)"
proof -
  have "session_at (a\<lparr>a_base := b, a_sessions := hm_insert sid (s_next_socket s) (a_sessions a),
      a_store := hm_insert (s_next_socket s) g (a_store a)\<rparr>) = (session_at a)(sid \<mapsto> g)" for b
    using fresh by (auto simp: session_at_def fun_eq_iff split: bind_split)
  with rep show ?thesis by (simp add: represents_def same_rest_def)
qed

lemma packet_finishes:
  assumes solo: "solo w a" and inv: "names_inv own es a" and rep: "represents a s"
    and result: "packet_from now target src sid q pl s = (outs, s')"
  shows "finishes (goto w (Lookup src sid q pl) a) outs (\<lambda>b. represents b s')"
proof (cases "hm_get (a_sessions a) sid")
  case (Some n)
  then obtain g where g: "hm_get (a_store a) n = Some g"
    using names_invD(2) [OF inv Some] by (auto simp: known_def)
  have "hm_get (s_sessions s) sid = session_at a sid"
    using rep by (simp add: represents_def)
  then have "hm_get (s_sessions s) sid = Some g"
    using Some g by (simp add: session_at_def)
  with result have "packet_result now src sid q pl g s = (outs, s')"
    by (simp add: packet_from_def get_or_create_session_def)
  then have "finishes (goto w (Touch src sid q pl n) (goto w (Lookup src sid q pl) a)) outs
      (\<lambda>b. represents b s')"
    using solo names_inv_only_name [OF inv Some] g names_invD(3) [OF inv g] rep
    by (intro touched_finishes [where g = g]) simp_all
  then show ?thesis
    using solo Some
    by (intro finishes_goto [where now = 0 and target = TargetOpens])
      (simp_all add: handler_step_def lookup_step_def)
next
  case None
  let ?l = "goto w (Lookup src sid q pl) a"
  let ?c = "goto w (Create src sid q pl) ?l"
  let ?k = "goto w (Connect src sid q pl) ?c"
  let ?n = "s_next_socket s"
  have none: "hm_get (s_sessions s) sid = None"
  proof -
    have "hm_get (s_sessions s) sid = session_at a sid" using rep by (simp add: represents_def)
    then show ?thesis using None by (simp add: session_at_def)
  qed
  have base: "s_next_socket (a_base a) = ?n" "s_cfg (a_base a) = s_cfg s"
    using rep by (simp_all add: represents_def same_rest_def)
  have "finishes ?k outs (\<lambda>b. represents b s')"
  proof (cases "target = TargetOpens")
    case False
    then have r: "outs = []" "s' = s"
      using result none
      by (auto simp: packet_from_def get_or_create_session_def split: target_open.splits)
    have "finishes (return w ?k) [] (\<lambda>b. represents b s)"
      using solo rep by (intro finishes_idle idle_return) simp_all
    then show ?thesis
      unfolding r using solo False
      by (intro finishes_goto [where now = now and target = target])
        (cases target; simp_all add: handler_step_def connect_step_def)+
  next
    case True
    define g where "g = \<lparr>tg_target_conn = ?n, tg_dedup_window = dedup_window_new (sc_dedup_window (s_cfg s)),
        tg_response_seq = 0, tg_last_activity = now\<rparr>"
    define b where "b = ?k\<lparr>a_base := (a_base ?k)\<lparr>s_next_socket := Suc ?n,
          s_responders := hm_insert ?n sid (s_responders (a_base ?k))\<rparr>,
        a_sessions := hm_insert sid ?n (a_sessions ?k), a_store := hm_insert ?n g (a_store ?k)\<rparr>"
    define s1 where "s1 = s\<lparr>s_next_socket := Suc ?n, s_sessions := hm_insert sid g (s_sessions s),
        s_responders := hm_insert ?n sid (s_responders s)\<rparr>"
    have fresh: "hm_get (a_sessions ?k) k \<noteq> Some ?n" for k
    proof
      assume "hm_get (a_sessions ?k) k = Some ?n"
      then have "hm_get (a_sessions a) k = Some ?n" by simp
      from names_invD(2) [OF inv this] names_invD(3) [OF inv, of ?n] show False
        by (auto simp: known_def base)
    qed
    have "represents ?k s" using rep by simp
    from represents_open [OF this none fresh, of g] have rb: "represents b s1"
      by (simp only: b_def s1_def)
    have "only_name b sid ?n"
      using fresh by (auto simp: b_def only_name_def)
    moreover have "packet_result now src sid q pl g s1 = (outs, s')"
      using result none True
      by (simp add: packet_from_def get_or_create_session_def Let_def g_def s1_def)
    ultimately have "finishes (goto w (Touch src sid q pl ?n) b) outs (\<lambda>b. represents b s')"
      using solo rb by (intro touched_finishes [where g = g]) (simp_all add: b_def g_def)
    then show ?thesis
      using solo True
      by (intro finishes_goto [where now = now and target = target])
        (simp_all add: handler_step_def connect_step_def Let_def b_def g_def base)
  qed
  then have "finishes ?c outs (\<lambda>b. represents b s')"
    using solo None
    by (intro finishes_goto [where now = 0 and target = TargetOpens]) (simp_all add: handler_step_def create_step_def)
  then show ?thesis
    using solo None
    by (intro finishes_goto [where now = 0 and target = TargetOpens]) (simp_all add: handler_step_def lookup_step_def)
qed

section \<open>Responses\<close>

lemma send_paths_finishes:
  assumes "solo w a" and "ps \<noteq> []" and "represents a s"
  shows "finishes (goto w (SendPaths sid q pl ps) a) (map (response_on_path sid q pl) ps)
    (\<lambda>b. represents b s)"
  using assms
proof (induction ps arbitrary: a)
  case Nil
  then show ?case by simp
next
  case (Cons p ps)
  let ?a = "goto w (SendPaths sid q pl (p # ps)) a"
  show ?case
  proof (cases "ps = []")
    case True
    have "finishes (return w ?a) [] (\<lambda>b. represents b s)"
      using Cons.prems by (intro finishes_idle idle_return) simp_all
    from finishes_step [where h = "SendPaths sid q pl (p # ps)" and os = "[response_on_path sid q pl p]",
        OF Cons.prems(1) _ this] True show ?thesis
      by (simp add: handler_step_def)
  next
    case False
    have "finishes (goto w (SendPaths sid q pl ps) ?a) (map (response_on_path sid q pl) ps)
        (\<lambda>b. represents b s)"
      using Cons.prems False by (intro Cons.IH) simp_all
    from finishes_step [where h = "SendPaths sid q pl (p # ps)" and os = "[response_on_path sid q pl p]",
        OF Cons.prems(1) _ this] False show ?thesis
      by (simp add: handler_step_def)
  qed
qed

lemma response_finishes:
  assumes solo: "solo w a" and inv: "names_inv own es a" and rep: "represents a s"
    and result: "send_response_to_all_paths now s sid pl = (outs, s')"
  shows "finishes (goto w (TouchResponse sid pl) a) outs (\<lambda>b. represents b s')"
proof (cases "hm_get (a_sessions a) sid")
  case None
  let ?t = "goto w (TouchResponse sid pl) a"
  let ?n = "goto w (NextSeq sid pl) ?t"
  have "hm_get (s_sessions s) sid = session_at a sid" using rep by (simp add: represents_def)
  then have "hm_get (s_sessions s) sid = None" using None by (simp add: session_at_def)
  then have r: "outs = []" "s' = s" using result by (auto simp: send_response_to_all_paths_def)
  have "finishes (return w ?n) [] (\<lambda>b. represents b s)"
    using solo rep by (intro finishes_idle idle_return) simp_all
  then have "finishes ?n [] (\<lambda>b. represents b s)"
    using solo None by (intro finishes_goto [where now = 0 and target = TargetOpens])
      (simp_all add: handler_step_def next_seq_step_def)
  then show ?thesis
    unfolding r using solo None by (intro finishes_goto [where now = 0 and target = TargetOpens])
      (simp_all add: handler_step_def touch_response_step_def)
next
  case (Some n)
  then obtain g where g: "hm_get (a_store a) n = Some g"
    using names_invD(2) [OF inv Some] by (auto simp: known_def)
  have conn: "tg_target_conn g = n" using names_invD(3) [OF inv g] by simp
  note name = names_inv_only_name [OF inv Some]
  have "hm_get (s_sessions s) sid = session_at a sid" using rep by (simp add: represents_def)
  then have sess: "hm_get (s_sessions s) sid = Some g" using Some g by (simp add: session_at_def)
  let ?q = "tg_response_seq g"
  let ?g1 = "g\<lparr>tg_last_activity := now\<rparr>"
  let ?g2 = "?g1\<lparr>tg_response_seq := ?q + 1\<rparr>"
  let ?t = "goto w (TouchResponse sid pl) a"
  let ?m = "modify n (\<lambda>h. h\<lparr>tg_last_activity := now\<rparr>) ?t"
  let ?n = "goto w (NextSeq sid pl) ?m"
  let ?b = "modify n (\<lambda>h. h\<lparr>tg_response_seq := tg_response_seq h + 1\<rparr>) ?n"
  let ?p = "goto w (GetPaths sid ?q pl) ?b"
  let ?s2 = "s\<lparr>s_sessions := hm_insert sid ?g2 (s_sessions s)\<rparr>"
  have "represents ?m (s\<lparr>s_sessions := hm_insert sid ?g1 (s_sessions s)\<rparr>)"
    using represents_modify [of ?t s sid n g] name rep g Some by (simp add: session_at_def)
  moreover have "session_at ?n sid = Some ?g1" using Some g by (simp add: session_at_def)
  ultimately have "represents ?b (s\<lparr>s_sessions := hm_insert sid ?g1 (s_sessions s),
      s_sessions := hm_insert sid ?g2 (hm_insert sid ?g1 (s_sessions s))\<rparr>)"
    using represents_modify [of ?n "s\<lparr>s_sessions := hm_insert sid ?g1 (s_sessions s)\<rparr>" sid n ?g1
        "\<lambda>h. h\<lparr>tg_response_seq := tg_response_seq h + 1\<rparr>"] name by simp
  then have rep2: "represents ?b ?s2" by (simp add: represents_def same_rest_def)
  have paths: "hm_get (s_client_paths (a_base a)) sid = hm_get (s_client_paths s) sid"
    using rep by (simp add: represents_def)
  have "finishes ?p outs (\<lambda>b. represents b s')"
  proof (cases "unwrap_or (hm_get (s_client_paths s) sid) [] = []")
    case True
    then have r: "outs = []" "s' = ?s2"
      using result sess
      by (auto simp: send_response_to_all_paths_def Let_def split: option.splits)
    have "finishes (return w ?p) [] (\<lambda>b. represents b ?s2)"
      using solo rep2 by (intro finishes_idle idle_return) simp_all
    then show ?thesis
      unfolding r using solo True paths
      by (intro finishes_goto [where now = 0 and target = TargetOpens])
        (cases "hm_get (s_client_paths s) sid"; simp_all add: handler_step_def get_paths_step_def)+
  next
    case False
    then obtain ps where ps: "hm_get (s_client_paths s) sid = Some ps" "ps \<noteq> []"
      by (auto simp: unwrap_or_def split: option.splits)
    then have r: "outs = map (response_on_path sid ?q pl) ps" "s' = ?s2"
      using result sess by (auto simp: send_response_to_all_paths_def Let_def)
    have "finishes (goto w (SendPaths sid ?q pl ps) ?p) (map (response_on_path sid ?q pl) ps)
        (\<lambda>b. represents b ?s2)"
      using solo ps(2) rep2 by (intro send_paths_finishes) simp_all
    then show ?thesis
      unfolding r using solo ps paths
      by (intro finishes_goto [where now = 0 and target = TargetOpens])
        (simp_all add: handler_step_def get_paths_step_def)
  qed
  then have "finishes ?n outs (\<lambda>b. represents b s')"
    using solo Some g conn by (intro finishes_goto [where now = 0 and target = TargetOpens])
      (simp_all add: handler_step_def next_seq_step_def)
  then show ?thesis
    using solo Some by (intro finishes_goto [where now = now and target = TargetOpens])
      (simp_all add: handler_step_def touch_response_step_def)
qed

section \<open>The end of a connection\<close>

lemma conn_end_finishes:
  assumes solo: "solo (ByConn n) a" and rep: "represents a s"
  shows "finishes (goto (ByConn n) (ForgetConn cid) a) []
    (\<lambda>b. represents b ((cleanup_tcp_conn cid s)\<lparr>s_conns := hm_remove n (s_conns (cleanup_tcp_conn cid s))\<rparr>))"
    (is "finishes ?f [] (\<lambda>b. represents b ?s')")
proof -
  let ?w = "ByConn n"
  have base: "s_tcp_conn_to_session (a_base a) = s_tcp_conn_to_session s"
      "hm_get (s_client_paths (a_base a)) = hm_get (s_client_paths s)"
    using rep by (simp_all add: represents_def same_rest_def)
  show ?thesis
  proof (cases "hm_get (s_tcp_conn_to_session s) cid")
    case None
    let ?b = "return ?w (?f\<lparr>a_base := (a_base ?f)\<lparr>s_conns := hm_remove n (s_conns (a_base ?f))\<rparr>\<rparr>)"
    have "represents ?b ?s'"
      using rep None by (simp add: cleanup_tcp_conn_def represents_def same_rest_def)
    then have "finishes ?b [] (\<lambda>b. represents b ?s')"
      using solo by (intro finishes_idle idle_return) simp_all
    then show ?thesis
      using solo None base by (intro finishes_goto [where now = 0 and target = TargetOpens])
        (simp_all add: handler_step_def forget_conn_step_def end_conn_def Let_def)
  next
    case (Some sid)
    let ?m = "hm_remove cid (s_tcp_conn_to_session (a_base ?f))"
    let ?f1 = "?f\<lparr>a_base := (a_base ?f)\<lparr>s_tcp_conn_to_session := ?m\<rparr>\<rparr>"
    let ?d = "goto ?w (DropPath sid cid) ?f1"
    let ?d1 = "case hm_get (s_client_paths (a_base ?d)) sid of None \<Rightarrow> ?d
      | Some ps \<Rightarrow> ?d\<lparr>a_base := (a_base ?d)\<lparr>s_client_paths := hm_insert sid
           (filter (\<lambda>p. \<not> matches_conn cid p) ps) (s_client_paths (a_base ?d))\<rparr>\<rparr>"
    let ?b = "return ?w (?d1\<lparr>a_base := (a_base ?d1)\<lparr>s_conns := hm_remove n (s_conns (a_base ?d1))\<rparr>\<rparr>)"
    have "represents ?b ?s'"
      using rep Some base
      by (cases "hm_get (s_client_paths s) sid")
        (simp_all add: cleanup_tcp_conn_def represents_def same_rest_def Let_def)
    moreover have "solo ?w ?d1" using solo by (simp split: option.split)
    ultimately have "finishes ?b [] (\<lambda>b. represents b ?s')"
      by (intro finishes_idle idle_return) simp_all
    then have "finishes ?d [] (\<lambda>b. represents b ?s')"
      using solo by (intro finishes_goto [where now = 0 and target = TargetOpens])
        (cases "hm_get (s_client_paths (a_base a)) sid";
          simp add: handler_step_def drop_path_step_def end_conn_def Let_def)+
    then show ?thesis
      using solo Some base by (intro finishes_goto [where now = 0 and target = TargetOpens])
        (simp_all add: handler_step_def forget_conn_step_def Let_def)
  qed
qed

section \<open>The sweep\<close>

text \<open>The part of the state that the scan does not change.\<close>

definition same_shared :: "async_server \<Rightarrow> async_server \<Rightarrow> bool" where
  "same_shared a b \<longleftrightarrow> a_base b = a_base a \<and> a_sessions b = a_sessions a \<and> a_store b = a_store a"

definition idle_session :: "async_server \<Rightarrow> instant \<Rightarrow> u64 \<times> socket \<Rightarrow> bool" where
  "idle_session a now e \<longleftrightarrow>
     (case hm_get (a_store a) (snd e) of None \<Rightarrow> False
      | Some g \<Rightarrow> expired now (sc_session_timeout (s_cfg (a_base a))) (tg_last_activity g))"

lemma idle_session_same: "same_shared a b \<Longrightarrow> idle_session b now = idle_session a now"
  by (simp add: same_shared_def idle_session_def fun_eq_iff split: option.split)

lemma scan_finishes:
  assumes "solo w a"
    and "\<And>b. solo w b \<Longrightarrow> same_shared a b \<Longrightarrow>
      finishes (goto w (Sweep (dead @ map fst (filter (idle_session a now) todo))) b) outs P"
  shows "finishes (goto w (Scan now todo dead) a) outs P"
  using assms
proof (induction todo arbitrary: a dead)
  case Nil
  let ?s = "goto w (Scan now [] dead) a"
  have "finishes (goto w (Sweep dead) ?s) outs P"
    using Nil.prems(2) [of ?s] Nil.prems(1) by (simp add: same_shared_def)
  then show ?case
    using Nil.prems(1) by (intro finishes_goto [where now = 0 and target = TargetOpens])
      (simp_all add: handler_step_def scan_step_def)
next
  case (Cons e todo)
  obtain sid n where e: "e = (sid, n)" by (cases e)
  let ?s = "goto w (Scan now (e # todo) dead) a"
  let ?dead = "if idle_session a now e then dead @ [sid] else dead"
  have "finishes (goto w (Scan now todo ?dead) ?s) outs P"
  proof (rule Cons.IH)
    show "solo w ?s" using Cons.prems(1) by simp
    fix b assume b: "solo w b" "same_shared ?s b"
    then have "same_shared a b" by (simp add: same_shared_def)
    moreover have "idle_session ?s now = idle_session a now"
      by (rule idle_session_same) (simp add: same_shared_def)
    ultimately show "finishes (goto w (Sweep (?dead @ map fst (filter (idle_session ?s now) todo))) b) outs P"
      using Cons.prems(2) [OF b(1)] by (simp add: e split: if_splits)
  qed
  then show ?case
    using Cons.prems(1) by (intro finishes_goto [where now = 0 and target = TargetOpens])
      (simp_all add: handler_step_def scan_step_def idle_session_def e Let_def)
qed

text \<open>What the sweep makes of the state.\<close>

definition swept :: "async_server \<Rightarrow> u64 list \<Rightarrow> async_server \<Rightarrow> bool" where
  "swept a dead b \<longleftrightarrow>
     same_rest (a_base b) (a_base a) \<and> a_store b = a_store a \<and>
     hm_get (a_sessions b) = (\<lambda>k. if k \<in> set dead then None else hm_get (a_sessions a) k) \<and>
     hm_get (s_client_paths (a_base b)) =
       (\<lambda>k. if k \<in> set dead then None else hm_get (s_client_paths (a_base a)) k) \<and>
     s_cancelled_sockets (a_base b) =
       s_cancelled_sockets (a_base a) \<union> {n. \<exists>k \<in> set dead. hm_get (a_sessions a) k = Some n}"

lemma sweep_finishes:
  assumes "solo w a" and "\<And>b. swept a dead b \<Longrightarrow> P b"
  shows "finishes (goto w (Sweep dead) a) [] P"
  using assms
proof (induction dead arbitrary: a)
  case Nil
  let ?s = "goto w (Sweep []) a"
  have "finishes (return w ?s) [] P"
    using Nil by (intro finishes_idle idle_return) (simp_all add: swept_def same_rest_def)
  then show ?case
    using Nil.prems(1) by (intro finishes_goto [where now = 0 and target = TargetOpens])
      (simp_all add: handler_step_def sweep_step_def)
next
  case (Cons sid dead)
  let ?s = "goto w (Sweep (sid # dead)) a"
  let ?s1 = "case hm_get (a_sessions ?s) sid of None \<Rightarrow> ?s
    | Some n \<Rightarrow> ?s\<lparr>a_sessions := hm_remove sid (a_sessions ?s),
        a_base := (a_base ?s)\<lparr>s_cancelled_sockets := insert n (s_cancelled_sockets (a_base ?s))\<rparr>\<rparr>"
  let ?p = "goto w (SweepPaths sid dead) ?s1"
  let ?s2 = "?p\<lparr>a_base := (a_base ?p)\<lparr>s_client_paths := hm_remove sid (s_client_paths (a_base ?p))\<rparr>\<rparr>"
  have solo: "solo w ?s1" using Cons.prems(1) by (simp split: option.split)
  have "finishes (goto w (Sweep dead) ?s2) [] P"
  proof (rule Cons.IH)
    show "solo w ?s2" using solo by simp
    fix b assume "swept ?s2 dead b"
    then have "swept a (sid # dead) b"
      by (cases "hm_get (a_sessions a) sid")
        (auto simp: swept_def same_rest_def lookup_delete fun_eq_iff split: if_splits,
          (metis option.inject)+)
    then show "P b" by (rule Cons.prems(2))
  qed
  then have "finishes ?p [] P"
    using solo by (intro finishes_goto [where now = 0 and target = TargetOpens])
      (simp_all add: handler_step_def sweep_paths_step_def)
  then show ?case
    using Cons.prems(1) by (intro finishes_goto [where now = 0 and target = TargetOpens])
      (simp_all add: handler_step_def sweep_step_def)
qed

lemma swept_represents:
  assumes rep: "represents a s" and inv: "names_inv own es a"
    and dead: "dead = map fst (filter (idle_session a now) (hm_iter (a_sessions a)))"
    and swept: "swept a dead b"
  shows "represents b (server_cleanup_expired_sessions now s)"
proof -
  let ?t = "sc_session_timeout (s_cfg s)"
  have base: "s_cfg (a_base a) = s_cfg s" and at: "session_at a = hm_get (s_sessions s)"
    using rep by (simp_all add: represents_def same_rest_def)
  have dead_iff: "k \<in> set dead \<longleftrightarrow>
      (\<exists>g. hm_get (s_sessions s) k = Some g \<and> expired now ?t (tg_last_activity g))" for k
  proof -
    have "k \<in> set dead \<longleftrightarrow> (\<exists>n. hm_get (a_sessions a) k = Some n \<and> idle_session a now (k, n))"
      unfolding dead by force
    also have "\<dots> \<longleftrightarrow> (\<exists>g. session_at a k = Some g \<and> expired now ?t (tg_last_activity g))"
      by (auto simp: session_at_def idle_session_def base split: option.splits bind_splits)
    finally show ?thesis by (simp add: at)
  qed
  have "session_at b k = (if k \<in> set dead then None else session_at a k)" for k
    using swept by (simp add: session_at_def swept_def)
  then have sessions: "session_at b = hm_get (s_sessions (server_cleanup_expired_sessions now s))"
    by (auto simp: fun_eq_iff server_sweep_sessions unless_expired_def dead_iff at split: option.split)
  have conn: "tg_target_conn g = n" if "hm_get (a_sessions a) k = Some n" "session_at a k = Some g" for k n g
    using that names_invD(3) [OF inv] by (auto simp: session_at_def)
  have "(\<exists>k \<in> set dead. hm_get (a_sessions a) k = Some n) \<longleftrightarrow>
      (\<exists>k g. hm_get (s_sessions s) k = Some g \<and> tg_target_conn g = n
        \<and> expired now ?t (tg_last_activity g))" for n
  proof
    assume "\<exists>k \<in> set dead. hm_get (a_sessions a) k = Some n"
    then obtain k where k: "hm_get (a_sessions a) k = Some n" "k \<in> set dead" by blast
    from k(2) dead_iff obtain g where "hm_get (s_sessions s) k = Some g"
      "expired now ?t (tg_last_activity g)" by blast
    with conn [OF k(1)] show "\<exists>k g. hm_get (s_sessions s) k = Some g \<and> tg_target_conn g = n
        \<and> expired now ?t (tg_last_activity g)" by (auto simp: at)
  next
    assume "\<exists>k g. hm_get (s_sessions s) k = Some g \<and> tg_target_conn g = n
        \<and> expired now ?t (tg_last_activity g)"
    then obtain k g where k: "session_at a k = Some g" "tg_target_conn g = n" "k \<in> set dead"
      unfolding dead_iff at by blast
    then obtain m where "hm_get (a_sessions a) k = Some m"
      by (auto simp: session_at_def bind_eq_Some_conv)
    with conn k show "\<exists>k \<in> set dead. hm_get (a_sessions a) k = Some n" by blast
  qed
  then have cancelled: "s_cancelled_sockets (a_base b)
      = s_cancelled_sockets (server_cleanup_expired_sessions now s)"
    using swept rep by (auto simp: swept_def represents_def server_sweep_cancelled)
  have "hm_get (s_client_paths (a_base b)) = hm_get (s_client_paths (server_cleanup_expired_sessions now s))"
    using swept rep by (auto simp: swept_def represents_def server_sweep_paths fun_eq_iff dead_iff)
  moreover have "same_rest (a_base b) (server_cleanup_expired_sessions now s)"
    using swept rep by (simp add: swept_def represents_def same_rest_def server_sweep_frame)
  ultimately show ?thesis using sessions cancelled by (simp add: represents_def)
qed

lemma tick_finishes:
  assumes solo: "solo w a" and inv: "names_inv own es a" and rep: "represents a s"
  shows "finishes (goto w (Scan now (hm_iter (a_sessions a)) []) a) []
    (\<lambda>b. represents b (server_cleanup_expired_sessions now s))"
proof (rule scan_finishes [OF solo])
  fix b assume b: "solo w b" "same_shared a b"
  let ?dead = "map fst (filter (idle_session a now) (hm_iter (a_sessions a)))"
  have "finishes (goto w (Sweep ?dead) b) [] (\<lambda>c. represents c (server_cleanup_expired_sessions now s))"
  proof (rule sweep_finishes [OF b(1)])
    fix c assume "swept b ?dead c"
    with b(2) have "swept a ?dead c" by (simp add: swept_def same_shared_def cong: if_cong)
    then show "represents c (server_cleanup_expired_sessions now s)"
      by (rule swept_represents [OF rep inv refl])
  qed
  then show "finishes (goto w (Sweep ([] @ ?dead)) b) []
      (\<lambda>c. represents c (server_cleanup_expired_sessions now s))" by simp
qed

section \<open>Every event\<close>

lemma same_rest_enabled:
  assumes rep: "represents a s" and idle: "all_idle a" and enabled: "server_enabled s e"
  shows "async_enabled a (Start e)"
proof -
  have rest: "same_rest (a_base a) s" and cancelled: "s_cancelled_sockets (a_base a) = s_cancelled_sockets s"
      and paths: "hm_get (s_client_paths (a_base a)) = hm_get (s_client_paths s)"
    using rep by (simp_all add: represents_def)
  have mem: "(sid, ps) \<in> set (hm_iter (s_client_paths (a_base a))) \<longleftrightarrow>
      (sid, ps) \<in> set (hm_iter (s_client_paths s))" for sid ps
    by (simp add: paths)
  then have iter: "set (hm_iter (s_client_paths (a_base a))) = set (hm_iter (s_client_paths s))"
    by auto
  have "server_enabled (a_base a) e"
    using enabled rest cancelled
    by (cases e) (auto simp: server_enabled_def same_rest_def live_conn_id_def known_conn_def
        list_ex_iff iter)
  moreover have "hm_iter (a_pending a) = []"
  proof -
    have "x \<notin> set (hm_iter (a_pending a))" for x
      using idle by (cases x) (simp add: all_idle_def)
    then show ?thesis by (metis list.set_intros(1) neq_Nil_conv)
  qed
  ultimately show ?thesis
    using idle by (auto simp: async_enabled_def all_idle_def sessions_locked_def held_writers_def
        split: option.split server_event.split)
qed

lemma base_step_represents:
  assumes "represents a s" and "e \<in> {TcpAccept sock n cid, TargetError n, ResponderCancelled n, ServerStop,
      ServerTaskReturns t}"
  shows "represents (a\<lparr>a_base := snd (server_handle e (a_base a))\<rparr>) (snd (server_handle e s)) \<and>
    fst (server_handle e s) = []"
  using assms by (auto simp: represents_def same_rest_def server_handle_def server_stop_def)

lemma event_finishes:
  assumes rep: "represents a s" and idle: "all_idle a" and inv: "names_inv own es a"
    and enabled: "server_enabled s e" and handle: "server_handle e s = (outs, s')"
  shows "finishes a outs (\<lambda>b. represents b s')"
proof -
  have en: "async_enabled a (Start e)" by (rule same_rest_enabled [OF rep idle enabled])
  have solo: "solo w a" for w by (rule idle_solo [OF idle])
  have conns: "s_conns (a_base a) = s_conns s" and resp: "s_responders (a_base a) = s_responders s"
    using rep by (simp_all add: represents_def same_rest_def)
  have same: "finishes a [] (\<lambda>b. represents b s)" using idle rep by (rule finishes_idle)
  have start: "finishes a outs (\<lambda>b. represents b s')"
    if "start_handler e a = ([], b)" "finishes b outs (\<lambda>b. represents b s')" for b
    using finishes_in_event [where handle = async_handle and os = "[]", OF en _ that(2)] that(1)
    by (simp add: async_handle_def)
  have base: ?thesis if "e \<in> {TcpAccept sock n cid, TargetError n, ResponderCancelled n, ServerStop,
      ServerTaskReturns t}" for sock n cid t
  proof (rule start)
    show "start_handler e a = ([], a\<lparr>a_base := snd (server_handle e (a_base a))\<rparr>)"
      using that by (auto simp: start_handler_def)
    show "finishes (a\<lparr>a_base := snd (server_handle e (a_base a))\<rparr>) outs (\<lambda>b. represents b s')"
      using base_step_represents [OF rep that] handle idle
      by (auto simp: all_idle_def intro!: finishes_idle)
  qed
  show ?thesis
  proof (cases e)
    case (UdpArrives now target sock addr data)
    show ?thesis
    proof (cases "decode_udp data")
      case (Inl err)
      with handle have "outs = []" "s' = s"
        by (auto simp: UdpArrives server_handle_def handle_udp_packet_from)
      with same show ?thesis by simp
    next
      case (Inr p)
      obtain sid q pl where p: "p = (sid, q, pl)" by (cases p)
      have "packet_from now target (FromUdp sock addr) sid q pl s = (outs, s')"
        using handle by (simp add: UdpArrives server_handle_def handle_udp_packet_from Inr p)
      from packet_finishes [OF solo inv rep this] show ?thesis
        by (rule start [rotated]) (simp add: UdpArrives start_handler_def Inr p)
    qed
  next
    case (TcpArrives now target n data)
    with enabled obtain cid where cid: "hm_get (s_conns s) n = Some cid"
      by (auto simp: server_enabled_def)
    show ?thesis
    proof (cases "decode_tcp data")
      case (Inl err)
      with handle cid have "outs = []" "s' = s"
        by (auto simp: TcpArrives server_handle_def handle_tcp_packet_from)
      with same show ?thesis by simp
    next
      case (Inr p)
      obtain sid q pl where p: "p = (sid, q, pl)" by (cases p)
      have "packet_from now target (FromTcp cid n) sid q pl s = (outs, s')"
        using handle by (simp add: TcpArrives server_handle_def handle_tcp_packet_from Inr p cid)
      from packet_finishes [OF solo inv rep this] show ?thesis
        by (rule start [rotated]) (simp add: TcpArrives start_handler_def Inr p conns cid)
    qed
  next
    case (TcpConnEnds n)
    with enabled obtain cid where cid: "hm_get (s_conns s) n = Some cid"
      by (auto simp: server_enabled_def)
    have r: "outs = []" "s' = (cleanup_tcp_conn cid s)\<lparr>s_conns := hm_remove n (s_conns (cleanup_tcp_conn cid s))\<rparr>"
      using handle by (auto simp: TcpConnEnds server_handle_def cid Let_def)
    show ?thesis
      unfolding r using conn_end_finishes [OF solo rep, of n cid]
      by (rule start [unfolded r, rotated]) (simp_all add: TcpConnEnds start_handler_def conns cid)
  next
    case (TargetResponse now n pl)
    with enabled obtain sid where sid: "hm_get (s_responders s) n = Some sid"
      by (auto simp: server_enabled_def)
    have "send_response_to_all_paths now s sid pl = (outs, s')"
      using handle by (simp add: TargetResponse server_handle_def sid)
    from response_finishes [OF solo inv rep this] show ?thesis
      by (rule start [rotated]) (simp add: TargetResponse start_handler_def resp sid)
  next
    case (ServerTick now)
    have r: "outs = []" "s' = server_cleanup_expired_sessions now s"
      using handle by (auto simp: ServerTick server_handle_def)
    show ?thesis
      unfolding r using tick_finishes [OF solo inv rep, of ByCleanup now]
      by (rule start [unfolded r, rotated]) (simp_all add: ServerTick start_handler_def Let_def)
  qed (use base in blast)+
qed

lemma run_finishes:
  assumes "server_run s es outs s'" and "represents a s" and "all_idle a" and "names_inv own aes a"
    and "debt_inv own aes aouts a"
  shows "\<exists>fs b own'. async_run a fs outs b \<and> all_idle b \<and> represents b s' \<and>
    names_inv own' (aes @ fs) b"
  using assms
proof (induction rule: run.induct)
  case (run_Nil s)
  then show ?case by (intro exI [of _ "[]"] exI [of _ a] exI [of _ own]) simp
next
  case (run_snoc s es outs s1 e os s2)
  then obtain fs b own' where b: "async_run a fs outs b" "all_idle b" "represents b s1"
      "names_inv own' (aes @ fs) b" by blast
  from event_finishes [OF b(3,2,4) run_snoc.hyps(2,3)] obtain gs c where
    c: "async_run b gs os c" "all_idle c" "represents c s2" by (auto simp: finishes_iff)
  have run: "async_run a (fs @ gs) (outs @ os) c" by (rule run_append [OF c(1) b(1)])
  from async_inv_along [OF this run_snoc.prems(3,4)] c(2,3) run show ?case by blast
qed

lemma async_started_represents:
  "represents (async_started cfg os) (server_started cfg os)" "all_idle (async_started cfg os)"
proof -
  obtain tasks where "server_started cfg os = (server_new cfg)\<lparr>s_tasks := tasks\<rparr>"
    using server_started_tasks by blast
  then show "represents (async_started cfg os) (server_started cfg os)"
    by (simp add: represents_def same_rest_def async_started_def async_new_def session_at_def
        server_new_def fun_eq_iff)
  show "all_idle (async_started cfg os)"
    by (simp add: all_idle_def async_started_def async_new_def)
qed

end
