(* ===== verification/Server_Async_Props.thy ===== *)
theory Server_Async_Props
  imports Server_Async_Paths Server_Async_Sim Server_Props
begin

text \<open>
  The properties of the interleaved server, each with a concrete run: what survives the
  interleaving of handlers, and what does not.
\<close>

section \<open>Concrete runs\<close>

definition demo_async :: async_server where
  "demo_async = async_started demo_server_config demo_listeners"

definition steps :: "worker \<Rightarrow> instant \<Rightarrow> nat \<Rightarrow> async_event list" where
  "steps w now k = replicate k (Step w now TargetOpens)"

definition datagram :: "u32 \<Rightarrow> bytes \<Rightarrow> async_event" where
  "datagram q pl = Start (UdpArrives 0 TargetOpens 200 client_a (encode_udp 42 q pl))"

lemma demo_async_facts:
  assumes "map_option (\<lambda>(outs, a). (outs, f a)) (exec async_enabled async_handle es demo_async) = Some (outs, v)"
  shows "async_run (async_started demo_server_config demo_listeners) es outs
      (snd (the (exec async_enabled async_handle es demo_async)))"
    and "f (snd (the (exec async_enabled async_handle es demo_async))) = v"
proof -
  from assms obtain a where "exec async_enabled async_handle es demo_async = Some (outs, a)" "f a = v"
    by (auto simp: map_option_eq_Some)
  then show "async_run (async_started demo_server_config demo_listeners) es outs
      (snd (the (exec async_enabled async_handle es demo_async)))"
    "f (snd (the (exec async_enabled async_handle es demo_async))) = v"
    unfolding demo_async_def by (simp_all add: exec_run)
qed

text \<open>
  The same packet arrives as a datagram and as a frame; both handlers have fetched the session
  before either checks the window.
\<close>

definition racing_copies :: "async_event list" where
  "racing_copies =
     [Start (TcpAccept 201 7 55), datagram 5 [1, 2, 3]] @ steps (ByListener 200) 1000000000 3 @
     [Start (TcpArrives 0 TargetOpens 7 (encode_tcp 42 5 [1, 2, 3]))] @ steps (ByConn 7) 1000000000 2 @
     steps (ByListener 200) 1000000000 1 @ steps (ByConn 7) 1000000000 1 @
     steps (ByListener 200) 1000000000 1 @ steps (ByConn 7) 1000000000 3"

definition racing_end :: async_server where
  "racing_end = snd (the (exec async_enabled async_handle racing_copies demo_async))"

lemma racing_run:
  "async_run (async_started demo_server_config demo_listeners) racing_copies [TargetSend 0 [1, 2, 3]] racing_end"
  unfolding racing_end_def by (rule demo_async_facts [where f = "\<lambda>_. ()" and v = "()"]) code_simp

text \<open>A packet over both transports, one copy after the other.\<close>

definition two_arrivals :: "async_event list" where
  "two_arrivals =
     [Start (TcpAccept 201 7 55), datagram 5 [1]] @ steps (ByListener 200) 1000000000 7 @
     [Start (TcpArrives 0 TargetOpens 7 (encode_tcp 42 6 [2]))] @ steps (ByConn 7) 1000000000 6"

definition two_paths :: async_server where
  "two_paths = snd (the (exec async_enabled async_handle two_arrivals demo_async))"

lemma two_paths_computed:
  "map_option (\<lambda>(outs, a). (outs, hm_get (s_client_paths (a_base a)) 42))
     (exec async_enabled async_handle two_arrivals demo_async) =
   Some ([TargetSend 0 [1], TargetSend 0 [2]], Some [UdpPath client_a 200, TcpPath 55 7])"
  by code_simp

lemmas two_paths_facts = demo_async_facts [OF two_paths_computed, folded two_paths_def]

text \<open>The second packet of a session has arrived.\<close>

definition second_arrives :: "async_event list" where
  "second_arrives = [datagram 5 [1]] @ steps (ByListener 200) 1000000000 7 @ [datagram 6 [2]]"

definition second_lookup :: async_server where
  "second_lookup = snd (the (exec async_enabled async_handle second_arrives demo_async))"

lemma second_lookup_computed:
  "map_option (\<lambda>(outs, a). (outs, hm_get (a_pending a) (ByListener 200), hm_get (a_sessions a) 42,
       async_enabled a (Step (ByListener 200) 2000000000 TargetOpens)))
     (exec async_enabled async_handle second_arrives demo_async) =
   Some ([TargetSend 0 [1]], Some (Lookup (FromUdp 200 client_a) 42 6 [2]), Some 0, True)"
  by code_simp

lemmas second_lookup_facts = demo_async_facts [OF second_lookup_computed, folded second_lookup_def]

section \<open>What survives interleaving\<close>

text \<open>
  Claim C10: a packet is forwarded at most once however the handlers interleave. Every socket to
  the target serves one session identifier, and a payload is sent over it at most as often as
  there are different sequence numbers under which it has arrived for that identifier, over
  whatever transports and however many copies: two handlers that have fetched the session at
  the same time do not both pass the window, and a handler that still uses a session the timer has
  dropped does not pass a number the session has seen.
\<close>

theorem interleaved_forwarded_once:
  assumes "sc_dedup_window cfg \<noteq> 0" and "async_run (async_started cfg os) es outs a"
  shows "\<exists>sid. \<forall>pl. count_list outs (TargetSend n pl) \<le> card (set (numbers_arrived es sid pl))"
proof -
  from reachable_async_inv [OF assms] obtain own where debt: "debt_inv own es outs a" by blast
  have "count_list outs (TargetSend n pl) \<le> card (set (numbers_arrived es (own n) pl))" for pl
  proof -
    have "count_list outs (TargetSend n pl)
        \<le> card (set (numbers_arrived es (own n) pl) \<inter> refused_at a n)"
      using debt_invD [OF debt, of n pl] by simp
    also have "\<dots> \<le> card (set (numbers_arrived es (own n) pl))"
      by (rule card_mono) auto
    finally show ?thesis .
  qed
  then show ?thesis by blast
qed

theorem interleaved_forwarded_once_witness:
  "\<exists>sid. \<forall>pl. count_list [TargetSend 0 [1, 2, 3]] (TargetSend 0 pl)
     \<le> card (set (numbers_arrived racing_copies sid pl))"
  by (rule interleaved_forwarded_once [OF demo_window racing_run])

text \<open>
  Claim C11: handlers always come to an end. There is no infinite sequence of handler steps, in
  any order and from any state, though responses go over lists of paths that other handlers
  extend meanwhile; and the lock of the session table never blocks all of them: from every state
  a sequence of steps leads to one in which no handler is left.
\<close>

theorem interleaved_handlers_finish:
  "wf {(a', a). some_step a a'} \<and>
   (\<exists>es outs a'. async_run a es outs a' \<and> list_all is_step es \<and> all_idle a')"
  using some_step_wf drain by blast

text \<open>
  Claim C12: the server whose handlers run in one piece refines the interleaved one. Every run of
  it, with all its outputs, is a run of the interleaved server in which no two handlers overlap,
  and ends in a state that stands for the same sessions, paths and tasks.
\<close>

theorem atomic_run_is_interleaved_run:
  assumes "sc_dedup_window cfg \<noteq> 0" and "server_run (server_started cfg os) es outs s"
  shows "\<exists>aes a. async_run (async_started cfg os) aes outs a \<and> all_idle a \<and> represents a s"
  using run_finishes [OF assms(2) async_started_represents async_started_inv [OF assms(1)]] by blast

theorem atomic_run_is_interleaved_run_witness:
  "\<exists>aes a. async_run (async_started demo_server_config demo_listeners) aes
     (fst (server_handle first_arrival demo_server)) a \<and> all_idle a \<and> represents a after_first"
  by (rule atomic_run_is_interleaved_run [OF demo_window demo_server_run])

text \<open>
  Claim C23: in every state that interleaved handlers reach, a session has at most one path per
  listening socket and at most one per TCP connection, and paths only of connections on which one
  of its packets has arrived; no two sessions share a socket to the target, and what is read from
  a session's socket is answered as this session's. (That a session has paths does not mean that
  it is alive, see \<open>late_path_stays\<close>.)
\<close>

theorem interleaved_paths_consistent:
  assumes "sc_dedup_window cfg \<noteq> 0" and "async_run (async_started cfg os) es outs a"
  shows "(hm_get (s_client_paths (a_base a)) sid = Some ps \<longrightarrow>
            distinct (map path_key ps) \<and> (\<forall>cid m. TcpPath cid m \<in> set ps \<longrightarrow> arrived_on es m sid)) \<and>
         (hm_get (a_sessions a) sid = Some n \<and> hm_get (a_sessions a) sid' = Some n \<longrightarrow> sid = sid') \<and>
         (hm_get (a_sessions a) sid = Some n \<and> hm_get (s_responders (a_base a)) n = Some sid' \<longrightarrow>
            sid' = sid)"
proof -
  from reachable_routes_inv [OF assms] obtain own where
    names: "names_inv own es a" and routes: "routes_inv own es outs a" by blast
  have "list_all (path_ok es sid) ps" if "hm_get (s_client_paths (a_base a)) sid = Some ps"
    using routes_invD(3) [OF routes] that by (simp add: paths_ok_def)
  then have "arrived_on es m sid"
    if "hm_get (s_client_paths (a_base a)) sid = Some ps" "TcpPath cid m \<in> set ps" for cid m
    using that by (auto simp: list_all_iff path_ok_def)
  moreover have "own n = sid" if "hm_get (a_sessions a) sid = Some n" for sid
    using names_invD(2) [OF names that] by simp
  moreover have "own n = sid'" if "hm_get (s_responders (a_base a)) n = Some sid'"
    using routes_invD(1) [OF routes that] by simp
  ultimately show ?thesis using paths_distinctD [OF paths_distinct_along [OF assms(2)]] by metis
qed

theorem interleaved_paths_consistent_witness:
  "distinct (map path_key [UdpPath client_a 200, TcpPath 55 7]) \<and> arrived_on two_arrivals 7 42"
proof -
  from interleaved_paths_consistent [OF demo_window two_paths_facts(1), of 42] two_paths_facts(2)
  show ?thesis by auto
qed

text \<open>
  Claim C18: while a session is in the table its entry is never replaced, however handlers
  interleave: any event leaves it with the socket it has, save the step of the sweep that takes
  it out. Two listeners that both have missed the session when they looked it up do not both
  make a socket for it.
\<close>

theorem live_session_kept:
  assumes "async_run (async_started cfg os) es outs a" and "hm_get (a_sessions a) sid = Some n"
    and "async_enabled a ev" and "async_handle ev a = (os', a')"
  shows "hm_get (a_sessions a') sid = (if sweeps a ev sid then None else Some n)"
  by (rule entry_kept [OF assms])

theorem live_session_kept_witness:
  "hm_get (a_sessions (snd (async_handle (Step (ByListener 200) 2000000000 TargetOpens) second_lookup))) 42
     = Some 0"
proof -
  have F: "hm_get (a_pending second_lookup) (ByListener 200) = Some (Lookup (FromUdp 200 client_a) 42 6 [2])"
    "hm_get (a_sessions second_lookup) 42 = Some 0"
    "async_enabled second_lookup (Step (ByListener 200) 2000000000 TargetOpens)"
    using second_lookup_facts(2) by simp_all
  have "\<not> sweeps second_lookup (Step (ByListener 200) 2000000000 TargetOpens) 42"
    using F(1) by (simp add: sweeps_def)
  with live_session_kept [OF second_lookup_facts(1) F(2,3)] show ?thesis by (metis prod.collapse)
qed

section \<open>What does not\<close>

text \<open>
  A packet of a session that has been idle for the timeout: its handler fetches the session, the
  timer drops it, and the handler is about to register the packet's path.
\<close>

definition expiring_run :: "async_event list" where
  "expiring_run =
     [datagram 5 [1]] @ steps (ByListener 200) 1000000000 7 @
     [datagram 6 [2]] @ steps (ByListener 200) 62000000000 1 @
     [Start (ServerTick 62000000000)] @ steps ByCleanup 62000000000 5 @
     steps (ByListener 200) 62000000000 2"

definition expiring :: async_server where
  "expiring = snd (the (exec async_enabled async_handle expiring_run demo_async))"

definition registered :: async_server where
  "registered = snd (async_handle (Step (ByListener 200) 62000000000 TargetOpens) expiring)"

text \<open>The packet is forwarded, the target answers, and the timer ticks much later.\<close>

definition afterwards :: "async_event list" where
  "afterwards =
     steps (ByListener 200) 62000000000 1 @
     [Start (TargetResponse 0 0 [9])] @ steps (ByResponder 0) 62000000000 2 @
     [Start (ServerTick 900000000000)] @ steps ByCleanup 900000000000 2"

definition leaked :: async_server where
  "leaked = snd (the (exec async_enabled async_handle afterwards registered))"

lemma expiring_computed:
  "map_option (\<lambda>(outs, a). (outs, hm_iter (a_pending a), hm_get (a_sessions a) 42,
       map_option fst (exec async_enabled async_handle afterwards
         (snd (async_handle (Step (ByListener 200) 62000000000 TargetOpens) a)))))
     (exec async_enabled async_handle expiring_run demo_async) =
   Some ([TargetSend 0 [1]], [(ByListener 200, AddPath (FromUdp 200 client_a) 42 [2] 0)], None,
     Some [TargetSend 0 [2]])"
  by code_simp

lemmas expiring_facts = demo_async_facts [OF expiring_computed, folded expiring_def, folded registered_def]

text \<open>
  Claim C14: that paths belong to live sessions does not survive interleaving. When a handler has
  fetched a session and registers the path of its datagram after the timer has dropped the
  session, it goes on to forward the packet; from then on, whatever happens and however often the
  timer ticks, until a packet of the session arrives again, the session is not in the table, the
  path stays there without it, and no response of the session is sent to anyone.
\<close>

theorem late_path_stays:
  assumes "hm_get (a_pending a) w = Some (AddPath (FromUdp sock addr) sid pl n)"
    and "unattended a sid" and "async_handle (Step w now target) a = (os, a1)"
    and "async_run a1 es outs a2" and "\<forall>ev \<in> set es. \<forall>q pl. packet_of ev \<noteq> Some (sid, q, pl)"
  shows "hm_get (a_pending a1) w = Some (Forward pl n) \<and>
    hm_get (a_sessions a2) sid = None \<and> has_udp_path a2 sid sock \<and>
    list_all (\<lambda>out. \<not> answers sid out) outs"
proof -
  note L = late_path [OF assms(1,2)]
  have a1: "a1 = add_path_step w (FromUdp sock addr) sid pl n a" using assms(3) L(1) by simp
  from unattended_along [OF assms(4)] assms(5) L(2,3) show ?thesis
    unfolding a1 using L(4) by (auto simp: unattended_def)
qed

theorem late_path_stays_witness:
  "async_run (async_started demo_server_config demo_listeners) expiring_run [TargetSend 0 [1]] expiring \<and>
   async_run registered afterwards [TargetSend 0 [2]] leaked \<and>
   hm_get (a_sessions leaked) 42 = None \<and> has_udp_path leaked 42 200"
proof -
  have E: "hm_iter (a_pending expiring) = [(ByListener 200, AddPath (FromUdp 200 client_a) 42 [2] 0)]"
    "hm_get (a_sessions expiring) 42 = None"
    "map_option fst (exec async_enabled async_handle afterwards registered) = Some [TargetSend 0 [2]]"
    using expiring_facts(2) by simp_all
  note run = expiring_facts(1)
  have "exec async_enabled async_handle afterwards registered = Some ([TargetSend 0 [2]], leaked)"
    using E(3) unfolding leaked_def by (cases "exec async_enabled async_handle afterwards registered") auto
  then have run2: "async_run registered afterwards [TargetSend 0 [2]] leaked" by (rule exec_run)
  have h: "hm_get (a_pending expiring) (ByListener 200) = Some (AddPath (FromUdp 200 client_a) 42 [2] 0)"
    unfolding hm_get_iter E(1) by simp
  have un: "unattended expiring 42"
    using E(2) unfolding unattended_def hm_get_iter E(1) by (auto simp: concerns_def)
  have step: "async_handle (Step (ByListener 200) 62000000000 TargetOpens) expiring = ([], registered)"
    unfolding registered_def late_path(1) [OF h un] by simp
  have quiet: "\<forall>ev \<in> set afterwards. \<forall>q pl. packet_of ev \<noteq> Some (42, q, pl)"
    by (auto simp: afterwards_def steps_def packet_of_def)
  from late_path_stays [OF h un step run2 quiet] run run2 show ?thesis by blast
qed

end
