(* ===== verification/Relay_Props.thy ===== *)
theory Relay_Props
  imports Relay_Routes Client_Async_Props Server_Async_Props
begin

text \<open>The properties of the whole relay, from source to target and back, with a concrete run.\<close>

section \<open>A run\<close>

abbreviation at_client :: "client_async_event list \<Rightarrow> relay_event list" where
  "at_client \<equiv> map AtClient"

abbreviation at_server :: "async_event list \<Rightarrow> relay_event list" where
  "at_server \<equiv> map AtServer"

definition demo_relay :: relay where
  "demo_relay = relay_started 41 demo_config demo_sockets demo_server_config demo_listeners"

text \<open>
  A packet goes out on both transports and reaches the server twice on UDP and once on TCP; the
  target answers, and the network doubles the response.
\<close>

definition there_and_back :: "relay_event list" where
  "there_and_back =
     at_client ([arrives [1, 2, 3]] @ advance AtListener 1000000000 14) @
     at_server ([Start (TcpAccept 201 0 55), datagram 5 [1, 2, 3]] @ steps (ByListener 200) 1000000000 7 @
       [datagram 5 [1, 2, 3]] @ steps (ByListener 200) 1000000000 3 @
       [Start (TcpArrives 0 TargetOpens 0 (encode_tcp 42 5 [1, 2, 3]))] @ steps (ByConn 0) 1000000000 3 @
       [Start (TargetResponse 0 0 [9, 9])] @ steps (ByResponder 0) 1000000000 4) @
     at_client ([answer_udp 42 0 [9, 9]] @ advance (AtUdpServer 100) 2000000000 5 @
       [answer_udp 42 0 [9, 9]] @ advance (AtUdpServer 100) 2000000000 3)"

definition relay_end :: relay where
  "relay_end = snd (the (exec linked_enabled relay_handle there_and_back demo_relay))"

definition relay_outs :: "(client_output + server_output) list" where
  "relay_outs =
     [Inl (UdpSend 100 (encode_udp 42 5 [1, 2, 3])), Inl (TcpWrite 0 (tcp_frame (encode_tcp 42 5 [1, 2, 3]))),
      Inr (TargetSend 0 [1, 2, 3]), Inr (ClientSend 200 (encode_udp 42 0 [9, 9]) client_a),
      Inl (SendTo 7 [9, 9] demo_source)]"

lemma relay_facts:
  "case exec linked_enabled relay_handle there_and_back demo_relay of
     None \<Rightarrow> False
   | Some (outs, s) \<Rightarrow>
       outs = relay_outs \<and> to_target 0 (r_down s) = [[1, 2, 3]] \<and>
       to_source 7 demo_source (r_up s) = [[9, 9]] \<and> sessions_of (r_client s) demo_source = 1 \<and>
       list_ex (\<lambda>out. out = SendTo 7 [9, 9] demo_source) (r_up s)"
  by code_simp

lemma linked_demo:
  "linked_run (relay_started 41 demo_config demo_sockets demo_server_config demo_listeners)
     there_and_back relay_outs relay_end"
  using relay_facts unfolding relay_end_def demo_relay_def
  by (intro exec_run) (auto split: option.splits)

lemma relay_demo:
  "relay_run (relay_started 41 demo_config demo_sockets demo_server_config demo_listeners)
     there_and_back relay_outs relay_end"
  "to_target 0 (r_down relay_end) = [[1, 2, 3]]"
  "to_source 7 demo_source (r_up relay_end) = [[9, 9]]"
  "sessions_of (r_client relay_end) demo_source = 1"
  "SendTo 7 [9, 9] demo_source \<in> set (r_up relay_end)"
  using linked_relay(1) [OF linked_demo] relay_facts
  by (auto simp: relay_end_def list_ex_iff split: option.splits)

lemma relay_demo_short: "length there_and_back \<le> 2 ^ 32"
  by (simp add: there_and_back_def advance_def steps_def)

section \<open>From source to target\<close>

text \<open>
  Claim C1: requests through the whole relay arrive at most once. Whatever client and server do, in
  any interleaving of their tasks, and whatever the network does with what they send (losing,
  delaying, repeating, reordering and misdirecting it on either transport), the payloads sent to
  the target over one socket are, counted with multiplicity, payloads that one source has sent.
\<close>

theorem relay_requests_once:
  assumes "sc_dedup_window scfg \<noteq> 0" and "relay_run (relay_started r ccfg cos scfg sos) es outs s"
    and "length es \<le> 2 ^ 32"
  shows "\<exists>a. mset (to_target n (r_down s)) \<subseteq># mset (packets_of (client_events es) a)"
  by (rule requests_at_most_once [OF assms])

theorem relay_requests_once_witness:
  "\<exists>a. {#[1, 2, 3]#} \<subseteq># mset (packets_of (client_events there_and_back) a)"
  using relay_requests_once [OF demo_window relay_demo(1) relay_demo_short, of 0]
  by (simp add: relay_demo(2))

section \<open>From target to source\<close>

text \<open>
  Claim C2: responses through the whole relay arrive at most once in each session of a source.
  Whatever client, server and network do, the payloads handed to a source are, counted with
  multiplicity, responses of the target, each repeated at most once for each session the source
  has had.
\<close>

theorem relay_responses_once:
  assumes "relay_run (relay_started r ccfg cos scfg sos) es outs s" and "length es \<le> 2 ^ 32"
  shows "mset (to_source l a (r_up s))
    \<subseteq># repeat_mset (sessions_of (r_client s) a) (mset (responses_of (server_events es)))"
  by (rule responses_at_most_once [OF assms])

theorem relay_responses_once_witness:
  "{#[9, 9]#} \<subseteq># mset (responses_of (server_events there_and_back))"
  using relay_responses_once [OF relay_demo(1) relay_demo_short, of 7 demo_source]
  by (simp add: relay_demo(3,4))

section \<open>Between sources\<close>

text \<open>
  Claim C3: sources do not hear each other. Whatever client and server do, in any interleaving of
  their tasks, and whatever the network does with datagrams and, on each connection, with frames:
  a payload handed to a source is a response that the target has sent to a socket of the server
  over which it has been sent, counted with multiplicity, only packets of that source (of its
  address as printed, which leaves out the flow information of IPv6).
\<close>

theorem relay_sources_isolated:
  assumes "sc_dedup_window scfg \<noteq> 0" and "linked_run (relay_started r ccfg cos scfg sos) es outs s"
    and "length es \<le> 2 ^ 32" and "SendTo l pl a \<in> set (r_up s)"
  shows "\<exists>n b now. AtServer (Start (TargetResponse now n pl)) \<in> set es \<and>
    mset (to_target n (r_down s)) \<subseteq># mset (packets_of (client_events es) b) \<and>
    without_flow b = without_flow a"
  by (rule sources_isolated [OF assms])

theorem relay_sources_isolated_witness:
  "\<exists>n b now. AtServer (Start (TargetResponse now n [9, 9])) \<in> set there_and_back \<and>
    mset (to_target n (r_down relay_end)) \<subseteq># mset (packets_of (client_events there_and_back) b) \<and>
    without_flow b = without_flow demo_source"
  by (rule relay_sources_isolated [OF demo_window linked_demo relay_demo_short]) (rule relay_demo(5))

end
