(* ===== verification/Unit_Tests.thy ===== *)
theory Unit_Tests
  imports Client_Dedup Config Protocol
begin

text \<open>
  The program's unit tests (the modules \<open>tests\<close> at the end of \<open>protocol.rs\<close>, \<open>server.rs\<close>,
  \<open>client.rs\<close> and \<open>config.rs\<close>) as booleans over the model, one definition per test, so that the
  model is seen to give every answer the authors expect of the code. An \<open>unwrap\<close> that would
  panic is \<open>False\<close>.
\<close>

text \<open>A byte string literal.\<close>

definition byte_string :: "string \<Rightarrow> bytes" where
  "byte_string s = map of_char s"

text \<open>The answers of a window to one number after another; the numbers of a loop from zero.\<close>

fun answers :: "('w \<Rightarrow> u32 \<Rightarrow> bool \<times> 'w) \<Rightarrow> 'w \<Rightarrow> u32 list \<Rightarrow> bool list" where
  "answers check w [] = []"
| "answers check w (s # ss) = (let (dup, w') = check w s in dup # answers check w' ss)"

definition first_numbers :: "nat \<Rightarrow> u32 list" where
  "first_numbers n = map of_nat [0..<n]"

text \<open>The configurations that the tests of \<open>validate\<close> build.\<close>

definition parsed :: "string list \<Rightarrow> endpoint list" where
  "parsed ss = concat (map (\<lambda>s. case endpoint_parse s of Inl _ \<Rightarrow> [] | Inr ep \<Rightarrow> [ep]) ss)"

definition client_test :: "string \<Rightarrow> string list \<Rightarrow> config" where
  "client_test listen_addr servers =
     \<lparr>cfg_mode = Client, cfg_verbose = False,
      cfg_client = Some \<lparr>cc_listen_addr = listen_addr, cc_servers = parsed servers, cc_session_timeout = 0\<rparr>,
      cfg_server = None\<rparr>"

definition server_test :: "string list \<Rightarrow> string \<Rightarrow> config" where
  "server_test listen_addrs target =
     \<lparr>cfg_mode = Server, cfg_verbose = False, cfg_client = None,
      cfg_server = Some \<lparr>sc_listen_addrs = parsed listen_addrs, sc_target_addr = target,
                         sc_dedup_window = 0, sc_session_timeout = 0\<rparr>\<rparr>"

section \<open>\<open>protocol.rs\<close>\<close>

definition test_encode_decode_tcp :: bool where
  "test_encode_decode_tcp \<longleftrightarrow>
   (let session_id = 0x123456789ABCDEF0; seq = 0xABCDEF01; payload = byte_string ''hello world'';
      encoded = encode_tcp session_id seq payload
  in length encoded = HEADER_SIZE + length payload \<and>
     take 8 encoded = [0x12, 0x34, 0x56, 0x78, 0x9A, 0xBC, 0xDE, 0xF0] \<and>
     take 4 (drop 8 encoded) = [0xAB, 0xCD, 0xEF, 0x01] \<and> drop 12 encoded = payload \<and>
     decode_tcp encoded = Inr (session_id, seq, payload))"

definition test_encode_decode_udp :: bool where
  "test_encode_decode_udp \<longleftrightarrow>
   (let session_id = 1; seq = 42; payload = byte_string ''test payload'';
      encoded = encode_udp session_id seq payload
  in decode_udp encoded = Inr (session_id, seq, payload))"

definition test_decode_empty_payload :: bool where
  "test_decode_empty_payload \<longleftrightarrow>
   (let session_id = 100; seq = 200; payload = byte_string '''';
      encoded = encode_tcp session_id seq payload
  in length encoded = HEADER_SIZE \<and> decode_tcp encoded = Inr (session_id, seq, []))"

definition test_decode_too_short :: bool where
  "test_decode_too_short \<longleftrightarrow>
   decode_tcp (replicate 11 0) = Inl PacketTooShort \<and> decode_udp (replicate 11 0) = Inl PacketTooShort \<and>
   decode_tcp [] = Inl PacketTooShort \<and> decode_tcp (replicate 8 0) = Inl PacketTooShort"

definition test_decode_exactly_header_size :: bool where
  "test_decode_exactly_header_size \<longleftrightarrow>
   decode_tcp [0, 0, 0, 0, 0, 0, 0, 1, 0, 0, 0, 2] = Inr (1, 2, [])"

definition test_big_endian_encoding :: bool where
  "test_big_endian_encoding \<longleftrightarrow>
   (let encoded = encode_tcp 0x0102030405060708 0x090A0B0C (byte_string '''')
  in map (nth encoded) [0..<12] = [1, 2, 3, 4, 5, 6, 7, 8, 9, 0xA, 0xB, 0xC])"

definition test_large_payload :: bool where
  "test_large_payload \<longleftrightarrow>
   (let payload = replicate 65535 0xFF; encoded = encode_udp 1 1 payload
  in length encoded = HEADER_SIZE + 65535 \<and>
     (case decode_udp encoded of Inl _ \<Rightarrow> False
      | Inr (_, _, decoded) \<Rightarrow> length decoded = 65535 \<and> list_all (\<lambda>x. x = 0xFF) decoded))"

definition test_max_session_id :: bool where
  "test_max_session_id \<longleftrightarrow>
   (let session_id = - 1; seq = - 1; payload = byte_string ''test'';
      encoded = encode_tcp session_id seq payload
  in decode_tcp encoded = Inr (session_id, seq, payload))"

section \<open>\<open>server.rs\<close>\<close>

definition test_dedup_window_first_packet :: bool where
  "test_dedup_window_first_packet \<longleftrightarrow>
   answers is_duplicate (dedup_window_new 100) ([0, 0]) = [False, True]"

definition test_dedup_window_sequential :: bool where
  "test_dedup_window_sequential \<longleftrightarrow>
   answers is_duplicate (dedup_window_new 100) (first_numbers 50 @ first_numbers 50) = replicate 50 False @ replicate 50 True"

definition test_dedup_window_sliding :: bool where
  "test_dedup_window_sliding \<longleftrightarrow>
   answers is_duplicate (dedup_window_new 10) (first_numbers 10 @ [15, 0, 4, 10]) = replicate 10 False @ [False, True, True, False]"

definition test_dedup_window_out_of_order :: bool where
  "test_dedup_window_out_of_order \<longleftrightarrow>
   answers is_duplicate (dedup_window_new 100) ([5, 3, 7, 5, 7]) = [False, True, False, True, True]"

definition test_dedup_window_out_of_order_within_window :: bool where
  "test_dedup_window_out_of_order_within_window \<longleftrightarrow>
   answers is_duplicate (dedup_window_new 100) ([0, 5, 3, 7, 3, 5]) = [False, False, False, False, True, True]"

definition test_dedup_window_before_start :: bool where
  "test_dedup_window_before_start \<longleftrightarrow>
   answers is_duplicate (dedup_window_new 100) ([10, 5]) = [False, True]"

section \<open>\<open>client.rs\<close>\<close>

definition test_response_dedup_window_first_packet :: bool where
  "test_response_dedup_window_first_packet \<longleftrightarrow>
   answers response_is_duplicate (response_window_new 100) ([0, 0]) = [False, True]"

definition test_response_dedup_window_sequential :: bool where
  "test_response_dedup_window_sequential \<longleftrightarrow>
   answers response_is_duplicate (response_window_new 100) (first_numbers 50 @ first_numbers 50) = replicate 50 False @ replicate 50 True"

definition test_response_dedup_window_sliding :: bool where
  "test_response_dedup_window_sliding \<longleftrightarrow>
   answers response_is_duplicate (response_window_new 10) (first_numbers 10 @ [15, 0, 4]) = replicate 10 False @ [False, True, True]"

definition test_response_dedup_window_before_start :: bool where
  "test_response_dedup_window_before_start \<longleftrightarrow>
   answers response_is_duplicate (response_window_new 100) ([10, 5]) = [False, True]"

section \<open>\<open>config.rs\<close>\<close>

definition test_parse_endpoint_udp :: bool where
  "test_parse_endpoint_udp \<longleftrightarrow>
   endpoint_parse ''192.168.1.1:8001/udp'' = Inr \<lparr>ep_address = ''192.168.1.1:8001'', ep_protocol = Udp\<rparr>"

definition test_parse_endpoint_tcp :: bool where
  "test_parse_endpoint_tcp \<longleftrightarrow>
   endpoint_parse ''192.168.1.1:8002/tcp'' = Inr \<lparr>ep_address = ''192.168.1.1:8002'', ep_protocol = Tcp\<rparr>"

definition test_parse_endpoint_ipv6 :: bool where
  "test_parse_endpoint_ipv6 \<longleftrightarrow>
   endpoint_parse ''[::1]:8001/udp'' = Inr \<lparr>ep_address = ''[::1]:8001'', ep_protocol = Udp\<rparr>"

definition test_parse_endpoint_listen_addr :: bool where
  "test_parse_endpoint_listen_addr \<longleftrightarrow>
   endpoint_parse '':8001/udp'' = Inr \<lparr>ep_address = ''0.0.0.0:8001'', ep_protocol = Udp\<rparr>"

definition test_parse_endpoint_invalid_format :: bool where
  "test_parse_endpoint_invalid_format \<longleftrightarrow>
   (case endpoint_parse ''192.168.1.1:8001'' of Inl (InvalidEndpointFormat _) \<Rightarrow> True | _ \<Rightarrow> False)"

definition test_parse_endpoint_invalid_protocol :: bool where
  "test_parse_endpoint_invalid_protocol \<longleftrightarrow>
   (case endpoint_parse ''192.168.1.1:8001/http'' of Inl (InvalidProtocol _) \<Rightarrow> True | _ \<Rightarrow> False)"

definition test_parse_endpoint_domain_rejected :: bool where
  "test_parse_endpoint_domain_rejected \<longleftrightarrow>
   endpoint_parse ''example.com:8001/udp'' = Inl InvalidIPAddress"

definition test_parse_endpoint_list :: bool where
  "test_parse_endpoint_list \<longleftrightarrow>
   (case endpoint_parse_list ''192.168.1.1:8001/udp, 192.168.1.1:8002/tcp'' of
     Inl _ \<Rightarrow> False
   | Inr endpoints \<Rightarrow> length endpoints = 2 \<and> ep_protocol (endpoints ! 0) = Udp \<and>
       ep_protocol (endpoints ! 1) = Tcp)"

definition test_parse_endpoint_list_empty :: bool where
  "test_parse_endpoint_list_empty \<longleftrightarrow>
   endpoint_parse_list '''' = Inr []"

definition test_parse_duration :: bool where
  "test_parse_duration \<longleftrightarrow>
   parse_duration ''60s'' = Some (from_secs 60) \<and> parse_duration ''5m'' = Some (from_secs 300) \<and>
   parse_duration ''1h'' = Some (from_secs 3600) \<and> parse_duration ''100ms'' = Some (from_millis 100) \<and>
   parse_duration ''60'' = Some (from_secs 60) \<and> parse_duration '''' = None"

definition test_validate_client_missing_listen :: bool where
  "test_validate_client_missing_listen \<longleftrightarrow>
   fst (config_validate (client_test '''' [''192.168.1.1:8001/udp''])) = Inl ClientListenRequired"

definition test_validate_client_missing_servers :: bool where
  "test_validate_client_missing_servers \<longleftrightarrow>
   fst (config_validate (client_test '':5000'' [])) = Inl ClientServersRequired"

definition test_validate_client_different_ips :: bool where
  "test_validate_client_different_ips \<longleftrightarrow>
   fst (config_validate (client_test '':5000'' [''192.168.1.1:8001/udp'', ''192.168.1.2:8002/tcp'']))
     = Inl ClientServersDifferentIPs"

definition test_validate_client_same_ip :: bool where
  "test_validate_client_same_ip \<longleftrightarrow>
   fst (config_validate (client_test '':5000'' [''192.168.1.1:8001/udp'', ''192.168.1.1:8002/tcp''])) = Inr ()"

definition test_validate_server_missing_listen :: bool where
  "test_validate_server_missing_listen \<longleftrightarrow>
   fst (config_validate (server_test [] ''192.168.1.100:9000'')) = Inl ServerListenRequired"

definition test_validate_server_missing_target :: bool where
  "test_validate_server_missing_target \<longleftrightarrow>
   fst (config_validate (server_test ['':8001/udp''] '''')) = Inl ServerTargetRequired"

definition test_validate_sets_defaults :: bool where
  "test_validate_sets_defaults \<longleftrightarrow>
   (case config_validate (server_test ['':8001/udp''] ''192.168.1.100:9000'') of
     (Inr _, cfg) \<Rightarrow>
       (case cfg_server cfg of None \<Rightarrow> False
        | Some server \<Rightarrow> sc_dedup_window server = DEFAULT_DEDUP_WINDOW \<and>
            sc_session_timeout server = from_secs DEFAULT_SESSION_TIMEOUT_SECS)
   | _ \<Rightarrow> False)"

definition test_mode_from_str :: bool where
  "test_mode_from_str \<longleftrightarrow>
   mode_from_str ''client'' = Some Client \<and> mode_from_str ''CLIENT'' = Some Client \<and>
   mode_from_str ''server'' = Some Server \<and> mode_from_str ''SERVER'' = Some Server \<and>
   mode_from_str ''invalid'' = None"

section \<open>Long runs of numbers\<close>

text \<open>
  The tests that check fifty numbers in turn follow from the contracts of the windows; the
  shorter ones are computed.
\<close>

lemma answers_append:
  "answers check w (ss @ ts) = answers check w ss @ answers check (window_after check w ss) ts"
  by (induction ss arbitrary: w) (simp_all add: run_filter_Cons case_prod_beta Let_def)

lemma length_admitted_le: "length (admitted check w ss) \<le> length ss"
  by (induction ss arbitrary: w) (simp_all add: run_filter_Cons le_SucI)

lemma admitted_all_answers:
  "admitted check w ss = ss \<Longrightarrow> answers check w ss = replicate (length ss) False"
proof (induction ss arbitrary: w)
  case Nil
  then show ?case by simp
next
  case (Cons s ss)
  have "\<not> fst (check w s)"
  proof
    assume "fst (check w s)"
    then have "length (admitted check w (s # ss)) \<le> length ss"
      by (simp add: run_filter_Cons length_admitted_le)
    with Cons.prems show False by simp
  qed
  with Cons show ?case by (simp add: run_filter_Cons case_prod_beta Let_def)
qed

context replay_filter begin

lemma refused_answers:
  "inv w \<Longrightarrow> set ss \<subseteq> refused w \<Longrightarrow> answers check w ss = replicate (length ss) True"
proof (induction ss)
  case Nil
  then show ?case by simp
next
  case (Cons s ss)
  then have "check w s = (True, w)"
    using verdict [of w s] duplicate_stable [of w s] by (cases "check w s") auto
  with Cons show ?case by simp
qed

end

context sliding_window begin

lemma sequential_answers:
  assumes "inv w" and "fresh w" and "sorted_wrt (<) ss" and "length ss = n"
  shows "answers check w (ss @ ss) = replicate n False @ replicate n True"
  using assms
  by (simp add: answers_append admitted_all_answers increasing_admitted refused_answers inv_run
      processed_refused)

end

lemma dedup_window_not_started: "\<not> dw_started (dedup_window_new n)"
  by (simp add: dedup_window_new_def)

lemma first_numbers_increasing: "n \<le> 2 ^ 32 \<Longrightarrow> sorted_wrt (<) (first_numbers n)"
  by (auto simp: first_numbers_def sorted_wrt_map sorted_wrt_iff_nth_less word_less_nat_alt
      unat_of_nat take_bit_nat_eq_self_iff)

lemma length_first_numbers [simp]: "length (first_numbers n) = n"
  by (simp add: first_numbers_def)

section \<open>They pass\<close>

lemma test_encode_decode_tcp_passes: "test_encode_decode_tcp"
  by code_simp

lemma test_encode_decode_udp_passes: "test_encode_decode_udp"
  by code_simp

lemma test_decode_empty_payload_passes: "test_decode_empty_payload"
  by code_simp

lemma test_decode_too_short_passes: "test_decode_too_short"
  by code_simp

lemma test_decode_exactly_header_size_passes: "test_decode_exactly_header_size"
  by code_simp

lemma test_big_endian_encoding_passes: "test_big_endian_encoding"
  by code_simp

lemma test_large_payload_passes: "test_large_payload"
  unfolding test_large_payload_def Let_def
  by (simp add: udp.dec_enc udp.enc_length list_all_iff)

lemma test_max_session_id_passes: "test_max_session_id"
  by code_simp

lemma test_dedup_window_first_packet_passes: "test_dedup_window_first_packet"
  by code_simp

lemma test_dedup_window_sequential_passes: "test_dedup_window_sequential"
  unfolding test_dedup_window_sequential_def
  by (rule dw.sequential_answers) (simp_all add: dw_inv_new first_numbers_increasing dedup_window_not_started)

lemma test_dedup_window_sliding_passes: "test_dedup_window_sliding"
  by code_simp

lemma test_dedup_window_out_of_order_passes: "test_dedup_window_out_of_order"
  by code_simp

lemma test_dedup_window_out_of_order_within_window_passes: "test_dedup_window_out_of_order_within_window"
  by code_simp

lemma test_dedup_window_before_start_passes: "test_dedup_window_before_start"
  by code_simp

lemma test_response_dedup_window_first_packet_passes: "test_response_dedup_window_first_packet"
  by code_simp

lemma test_response_dedup_window_sequential_passes: "test_response_dedup_window_sequential"
  unfolding test_response_dedup_window_sequential_def
  by (rule rw.sequential_answers) (simp_all add: rw_inv_new first_numbers_increasing)

lemma test_response_dedup_window_sliding_passes: "test_response_dedup_window_sliding"
  by code_simp

lemma test_response_dedup_window_before_start_passes: "test_response_dedup_window_before_start"
  by code_simp

lemma test_parse_endpoint_udp_passes: "test_parse_endpoint_udp"
  by code_simp

lemma test_parse_endpoint_tcp_passes: "test_parse_endpoint_tcp"
  by code_simp

lemma test_parse_endpoint_ipv6_passes: "test_parse_endpoint_ipv6"
  by code_simp

lemma test_parse_endpoint_listen_addr_passes: "test_parse_endpoint_listen_addr"
  by code_simp

lemma test_parse_endpoint_invalid_format_passes: "test_parse_endpoint_invalid_format"
  by code_simp

lemma test_parse_endpoint_invalid_protocol_passes: "test_parse_endpoint_invalid_protocol"
  by code_simp

lemma test_parse_endpoint_domain_rejected_passes: "test_parse_endpoint_domain_rejected"
  by code_simp

lemma test_parse_endpoint_list_passes: "test_parse_endpoint_list"
  by code_simp

lemma test_parse_endpoint_list_empty_passes: "test_parse_endpoint_list_empty"
  by code_simp

lemma test_parse_duration_passes: "test_parse_duration"
  by code_simp

lemma test_validate_client_missing_listen_passes: "test_validate_client_missing_listen"
  by code_simp

lemma test_validate_client_missing_servers_passes: "test_validate_client_missing_servers"
  by code_simp

lemma test_validate_client_different_ips_passes: "test_validate_client_different_ips"
  by code_simp

lemma test_validate_client_same_ip_passes: "test_validate_client_same_ip"
  by code_simp

lemma test_validate_server_missing_listen_passes: "test_validate_server_missing_listen"
  by code_simp

lemma test_validate_server_missing_target_passes: "test_validate_server_missing_target"
  by code_simp

lemma test_validate_sets_defaults_passes: "test_validate_sets_defaults"
  by code_simp

lemma test_mode_from_str_passes: "test_mode_from_str"
  by code_simp

lemmas tests_pass =
  test_encode_decode_tcp_passes
  test_encode_decode_udp_passes
  test_decode_empty_payload_passes
  test_decode_too_short_passes
  test_decode_exactly_header_size_passes
  test_big_endian_encoding_passes
  test_large_payload_passes
  test_max_session_id_passes
  test_dedup_window_first_packet_passes
  test_dedup_window_sequential_passes
  test_dedup_window_sliding_passes
  test_dedup_window_out_of_order_passes
  test_dedup_window_out_of_order_within_window_passes
  test_dedup_window_before_start_passes
  test_response_dedup_window_first_packet_passes
  test_response_dedup_window_sequential_passes
  test_response_dedup_window_sliding_passes
  test_response_dedup_window_before_start_passes
  test_parse_endpoint_udp_passes
  test_parse_endpoint_tcp_passes
  test_parse_endpoint_ipv6_passes
  test_parse_endpoint_listen_addr_passes
  test_parse_endpoint_invalid_format_passes
  test_parse_endpoint_invalid_protocol_passes
  test_parse_endpoint_domain_rejected_passes
  test_parse_endpoint_list_passes
  test_parse_endpoint_list_empty_passes
  test_parse_duration_passes
  test_validate_client_missing_listen_passes
  test_validate_client_missing_servers_passes
  test_validate_client_different_ips_passes
  test_validate_client_same_ip_passes
  test_validate_server_missing_listen_passes
  test_validate_server_missing_target_passes
  test_validate_sets_defaults_passes
  test_mode_from_str_passes

text \<open>The model passes all 36 unit tests of the program.\<close>

lemma unit_tests_pass:
  "list_all id
     [test_encode_decode_tcp,
      test_encode_decode_udp,
      test_decode_empty_payload,
      test_decode_too_short,
      test_decode_exactly_header_size,
      test_big_endian_encoding,
      test_large_payload,
      test_max_session_id,
      test_dedup_window_first_packet,
      test_dedup_window_sequential,
      test_dedup_window_sliding,
      test_dedup_window_out_of_order,
      test_dedup_window_out_of_order_within_window,
      test_dedup_window_before_start,
      test_response_dedup_window_first_packet,
      test_response_dedup_window_sequential,
      test_response_dedup_window_sliding,
      test_response_dedup_window_before_start,
      test_parse_endpoint_udp,
      test_parse_endpoint_tcp,
      test_parse_endpoint_ipv6,
      test_parse_endpoint_listen_addr,
      test_parse_endpoint_invalid_format,
      test_parse_endpoint_invalid_protocol,
      test_parse_endpoint_domain_rejected,
      test_parse_endpoint_list,
      test_parse_endpoint_list_empty,
      test_parse_duration,
      test_validate_client_missing_listen,
      test_validate_client_missing_servers,
      test_validate_client_different_ips,
      test_validate_client_same_ip,
      test_validate_server_missing_listen,
      test_validate_server_missing_target,
      test_validate_sets_defaults,
      test_mode_from_str]"
  by (simp add: tests_pass)

end
