(* ===== verification/Spec2Isabelle.thy ===== *)
theory Spec2Isabelle
  imports Program Expiry System Relay_Props Unit_Tests
begin

text \<open>
  fproxy is a relay for UDP packets. A \<^emph>\<open>client\<close> takes packets from local sources and sends every
  packet to every configured server endpoint, over UDP and over TCP at once; a \<^emph>\<open>server\<close> drops the
  copies after the first, hands the payload to one target, and sends the response back on every
  path the client has used; the client again drops the copies and hands the payload to the
  source. This library models the Rust program under \<open>src/fproxy-rs/src\<close> and proves what makes the
  relay correct: no packet is sent to the target, and no response handed to a source, more often
  than it was new there, and it is when one of its copies arrives in time. Each theorem says for
  how long: a window forgets when its session expires, and what then goes wrong is stated too.

  \<^bold>\<open>The parts and their theories.\<close>

  \<^item> \<open>Prelude\<close>: machine integers by their Rust names, hash maps (\<open>hm_get\<close>, \<open>hm_insert\<close>, ... over
    association lists with the laws of a finite map), \<open>Result\<close> as a sum with \<open>try_bind\<close> for \<open>?\<close>,
    durations and instants as natural numbers of nanoseconds.
  \<^item> \<open>Bytes\<close>, \<open>Protocol\<close> (\<open>protocol.rs\<close>): big-endian words and the packet, a header of twelve bytes
    and the payload. The locale \<open>packet_codec\<close> is what client and server rely on; \<open>encode_udp\<close> with
    \<open>decode_udp\<close> and \<open>encode_tcp\<close> with \<open>decode_tcp\<close> interpret it.
  \<^item> \<open>Framing\<close> (the reading loops of \<open>client.rs\<close> and \<open>server.rs\<close>, \<open>send_tcp_frame\<close>): frames with a
    length of two bytes on a TCP stream.
  \<^item> \<open>Dedup\<close>, \<open>Server_Dedup\<close>, \<open>Client_Dedup\<close> (\<open>DedupWindow\<close>, \<open>ResponseDedupWindow\<close>): the locales
    \<open>replay_filter\<close> and \<open>sliding_window\<close> state the abstract contract, a growing set of refused
    numbers; both windows interpret it, the client's through a simulation by the server's.
  \<^item> \<open>Rust_Str\<close>, \<open>Ip_Addr\<close>, \<open>Config\<close> (\<open>config.rs\<close>): the string operations and the address parser of
    the standard library, then \<open>Endpoint::parse\<close>, \<open>parse_duration\<close>, \<open>validate\<close> and \<open>load\<close>.
  \<^item> \<open>Cli\<close>, \<open>Program\<close> (\<open>main.rs\<close>): the conversion of single-dash flags, what \<open>main\<close> chooses to start,
    and the process from there to its exit: the record \<open>platform\<close> has the answers of the operating
    system and of the other crates, a step relation interleaves \<open>main\<close>, the signals and the tasks.
  \<^item> \<open>Sessions\<close>: the sweep of idle entries (locale \<open>expiring_table\<close>) and runs of events (the
    relation \<open>run\<close>, its executable form \<open>exec\<close>, and the locale \<open>event_system\<close> that carries an
    invariant along a run). Client and server interpret both.
  \<^item> \<open>Socket_Addr\<close>: socket addresses and their \<open>Display\<close> form, of which session keys are made.
  \<^item> \<open>Client\<close>, \<open>Client_Correct\<close>, \<open>Client_Props\<close> (\<open>client.rs\<close>): the state, every method, and the
    events of the tasks; then the invariants; then the properties.
  \<^item> \<open>Server\<close>, \<open>Server_Correct\<close>, \<open>Server_Props\<close> (\<open>server.rs\<close>): the same for the server.
  \<^item> \<open>Expiry\<close> (\<open>session_cleanup_loop\<close> of both): the loops over the ticks of a timer of which only the
    gaps are known, and how long an idle session stays.
  \<^item> \<open>Tasks\<close>: tasks that work off handlers step by step under locks held from one step to the next;
    the locale \<open>task_system\<close> shows that steps come to an end, that nobody is kept waiting for ever,
    that locks are exclusive and that a handler which is alone runs through. The interleaved server
    and the interleaved client interpret it.
  \<^item> \<open>Server_Async\<close>, \<open>Server_Async_Correct\<close>, \<open>Server_Async_Live\<close>, \<open>Server_Async_Sim\<close>,
    \<open>Server_Async_Props\<close> (\<open>server.rs\<close> once more): the server's handlers await by await. The state
    \<open>async_server\<close> adds to the server the handlers in progress and a store of session objects that
    outlive their entry in the map; then its invariants, its termination, the simulation of the
    server of theory \<open>Server\<close>, and the properties. \<open>Server_Async_Answers\<close> follows each response of
    a target to the packets that carry it, \<open>Server_Async_Routes\<close> the paths these are sent on,
    \<open>Server_Async_Paths\<close> the entries of the session table and the paths that outlive them.
  \<^item> \<open>Client_Async\<close>, \<open>Client_Async_Correct\<close>, \<open>Client_Async_Live\<close>, \<open>Client_Async_Maps\<close>,
    \<open>Client_Async_Sim\<close>, \<open>Client_Async_Props\<close> (\<open>client.rs\<close> once more): the client's handlers await by
    await, with its two locks; the accounts of numbered packets and delivered responses,
    termination, the agreement of the two maps, the simulation of the client of theory \<open>Client\<close>,
    and the properties. \<open>Client_Async_Routes\<close> tells which source each connection and each response
    belongs to.
  \<^item> \<open>Relay\<close>, \<open>Relay_Routes\<close>, \<open>Relay_Props\<close>: the interleaved client, the interleaved server and a
    faulty network as one system, and what holds of it from end to end.
  \<^item> \<open>Unit_Tests\<close>: the \<open>#[test]\<close> functions of the program, over the model.
  \<^item> \<open>System\<close> and this theory: client and server together, from the source to the target and back.

  \<^bold>\<open>Definitions and code.\<close> A method is a function of the same name from the state record to the
  outputs and the next state. A map behind a lock is a field of the record, and an update
  of a session behind an \<open>Arc\<close> is an update of its map entry. What comes from outside is an
  argument: the time, the random number of a new session, the outcome of every \<open>bind\<close> and
  \<open>connect\<close>, the bytes received, the file system, the YAML parser and clap. What goes out is a
  value of \<open>client_output\<close> or \<open>server_output\<close>; the result of a send only reaches the log in the
  code, so it is not modelled. Sockets and connections are numbered. An error is an \<open>Inl\<close>, an
  early return a branch. Integers keep their width: session identifiers have 64 bits, sequence
  numbers 32, and \<open>+\<close> wraps as \<open>fetch_add\<close> and \<open>wrapping_add\<close> do.

  \<^bold>\<open>Tasks.\<close> \<open>client_event\<close> and \<open>server_event\<close> list what one pass of a \<open>select!\<close> loop can do;
  \<open>client_enabled\<close> and \<open>server_enabled\<close> say which branches can be taken, \<open>client_handle\<close> and
  \<open>server_handle\<close> what they do. A run is any sequence of enabled events, so all orders of packets,
  responses, timer ticks, ends of connections and cancellation are covered. A task whose token is
  cancelled may still take another ready branch before it returns, as \<open>select!\<close> may. An event is
  one whole handler. The finer models of \<open>Server_Async\<close> and \<open>Client_Async\<close> have an event \<open>Step\<close> or
  \<open>Advance\<close> for every \<open>await\<close> at which another task can see or change shared state, and \<open>Start\<close> or
  \<open>Begin\<close> for what a task takes up; \<open>async_enabled\<close> and \<open>client_async_enabled\<close> make the tasks that
  need a lock wait while another holds it. Runs of whole handlers are among the interleaved runs
  (\<open>atomic_run_is_interleaved_run\<close>, \<open>client_run_is_interleaved_run\<close>), and the process of theory
  \<open>Program\<close> runs the interleaved client or server.

  \<^bold>\<open>The network.\<close> In \<open>Relay\<close> the datagrams and frames that arrive at one side are any that the other
  side has sent before (\<open>sent_up\<close>, \<open>sent_down\<close>), on any socket or connection, any number of times or
  never: this covers loss, delay, repetition, reordering and misdirection, but no corruption. In the
  linked runs of \<open>Relay_Routes\<close> what arrives on a TCP connection was written to that connection,
  which has the same number at both ends; datagrams still go anywhere.

  \<^bold>\<open>What is shown.\<close>

  \<^item> Delivery: \<open>packet_forwarded_once\<close> and \<open>response_forwarded_once\<close> for each program along all its
    runs, as long as the session lives (over UDP, for responses, also after that);
    \<open>request_reaches_target_once\<close> and \<open>response_reaches_source_once\<close> for both together, with any
    other events in between, within the session timeout; \<open>packet_on_every_path\<close>, for every outcome
    of connecting, and \<open>response_on_every_path\<close> for the copies. For the interleaved programs and the
    faulty network: \<open>relay_requests_once\<close> and \<open>relay_responses_once\<close>. No source hears what the
    target answers to another (\<open>relay_sources_isolated\<close>).
  \<^item> The windows: at most once, no loss inside the window, in-order traffic, the equivalence of the
    two, no arithmetic panic in a debug build on a nonzero size (\<open>window_never_panics\<close>, over
    \<open>is_duplicate_checked\<close>, where every plain subtraction is checked), and the limits
    (\<open>window_limits\<close>).
  \<^item> Invariants: the two maps of the client are inverse, TCP connections serve one source, the
    paths of a session are distinct and its entry in the table is never replaced, sequence numbers
    count the packets of a session (\<open>client_seq_counts\<close>).
  \<^item> Interleaving: a packet is still forwarded once (\<open>interleaved_forwarded_once\<close>), handlers come to
    an end (\<open>interleaved_handlers_finish\<close>), paths are distinct and sockets belong to one session
    (\<open>interleaved_paths_consistent\<close>), and only the sweep takes a session out of the table or
    changes its socket (\<open>live_session_kept\<close>); in the client a response is still delivered once
    (\<open>interleaved_delivered_once\<close>), the two maps are inverse when their lock is free
    (\<open>interleaved_maps_inverse\<close>) and tasks come to an end (\<open>client_tasks_finish\<close>). That paths belong
    to live sessions (\<open>server_paths_consistent\<close>) holds for whole handlers and fails for interleaved
    ones: a path registered late stays without its session (\<open>late_path_stays\<close>).
  \<^item> Life cycle: \<open>start\<close> on every outcome, draining after \<open>stop\<close> (\<open>stopped_client_drains\<close>: every task
    can return by its token alone, from any state), expiry exactly after the timeout, the end of a
    TCP connection, the time for which an idle session stays and until which it is removed
    (\<open>server_session_leaves_in_time\<close>).
  \<^item> The process: what \<open>main\<close> comes to on every configuration and every failure, a failed \<open>start\<close>
    included (\<open>main_outcome\<close>); that all it sends is sent by a run of the proxy it has started, which
    is stopped when, and only when, a signal has been caught (\<open>process_runs_proxy\<close>); and its exit
    codes, with a regular end on either signal (\<open>process_exit\<close>).
  \<^item> Bytes and strings: round trips of packets and frames, what \<open>Endpoint::parse\<close> and
    \<open>parse_duration\<close> accept, that \<open>load\<close> only returns validated configurations, that \<open>main\<close> does not
    panic.
  \<^item> Behaviour a user may not expect: a path whose copies come second is not registered, a failed
    \<open>recv\<close> silences a session, sequence numbers do not survive a wrap-around, a receiving TCP
    session expires, a stale reader removes the session that follows it, responses are lost
    after the server's session was remade, and a TCP connection that outlives its session brings
    its late responses to the next one (\<open>stale_response_accepted\<close>).

  \<^bold>\<open>Bounds.\<close> Properties over client runs that need fresh session identifiers are bounded by
  \<open>event_limit\<close>, \<open>2 ^ 62\<close> events: an event uses up at most two values of the 64-bit counter, so it
  cannot come round to a value in use. Those of the interleaved client and of the whole relay are
  bounded by \<open>2 ^ 32\<close> events, in which no sequence number comes round. The server needs no bound. The reading loops terminate, as
  every frame shortens the stream. Properties that need a nonzero window say so; \<open>load_valid\<close>
  shows that a loaded configuration has one.

  \<^bold>\<open>Not modelled.\<close> What is logged, and the text of error messages; the help, version and usage exits of
  clap; the branch of \<open>wait_for_shutdown\<close> for systems that are not Unix; partial writes and the
  cancellation of a task in the middle of a handler; the limit of a datagram's size in the
  network; a signal that kills the process before \<open>main\<close> has started the proxy (one that comes later
  but before its handler is installed is the event \<open>Unhandled\<close>); waiting for the mutex of a TCP
  writer. Two addresses that only differ in the flow information of IPv6 have the same \<open>Display\<close>
  form, hence \<open>without_flow\<close> in \<open>tcp_connection_own_source\<close> and \<open>relay_sources_isolated\<close>. The
  integration tests run both programs over real sockets; what they expect is proved of the model
  in \<open>System\<close> and \<open>Relay_Props\<close>. The Go program beside the Rust one is not part of the model.
\<close>

section \<open>The wire format\<close>

text \<open>
  Claim C25: on both transports decoding gives back the session identifier, the sequence number and
  the payload that were encoded, whatever they are; a packet decodes to them exactly when it is
  their encoding; decoding fails, on either transport, exactly below twelve bytes.
\<close>

theorem packet_roundtrip:
  "decode_udp (encode_udp sid seq pl) = Inr (sid, seq, pl) \<and>
   decode_tcp (encode_tcp sid seq pl) = Inr (sid, seq, pl) \<and>
   (decode_udp pkt = Inr (sid, seq, pl) \<longleftrightarrow> pkt = encode_udp sid seq pl) \<and>
   (decode_tcp pkt = Inr (sid, seq, pl) \<longleftrightarrow> pkt = encode_tcp sid seq pl) \<and>
   (decode_udp pkt = Inl PacketTooShort \<longleftrightarrow> length pkt < 12) \<and>
   (decode_tcp pkt = Inl PacketTooShort \<longleftrightarrow> length pkt < 12)"
  by (simp add: udp.dec_enc tcp.dec_enc udp.dec_iff tcp.dec_iff udp.dec_short tcp.dec_short
      HEADER_SIZE_def)

lemma read_frames_cut:
  assumes "list_all frameable ds"
  shows "\<exists>m. fst (read_frames (stream_of (take k (concat (map tcp_frame ds))) e)) = take m ds"
  using assms
proof (induction ds arbitrary: k)
  case Nil
  then show ?case by (simp add: read_frames_short)
next
  case (Cons d ds)
  show ?case
  proof (cases "k < length (tcp_frame d)")
    case True
    with Cons.prems show ?thesis
      by (intro exI [of _ 0]) (simp add: read_frames_truncated)
  next
    case False
    then have cut: "take k (concat (map tcp_frame (d # ds)))
        = tcp_frame d @ take (k - length (tcp_frame d)) (concat (map tcp_frame ds))"
      by simp
    from Cons obtain m where
      "fst (read_frames (stream_of (take (k - length (tcp_frame d)) (concat (map tcp_frame ds))) e))
        = take m ds"
      by auto
    with Cons.prems cut show ?thesis
      using read_frames_tcp_frames [of "[d]"] by (intro exI [of _ "Suc m"]) simp
  qed
qed

text \<open>
  Claim C26: a reader of a TCP stream gets exactly the frames that were written, in order, however
  the stream is cut into segments; if the stream breaks off anywhere, it gets a prefix of the
  frames and nothing else, never a truncated or a merged one.
\<close>

theorem frames_survive:
  assumes "list_all frameable ds"
  shows "read_frames (stream_of (concat (map tcp_frame ds)) e) = (ds, LengthFailed e) \<and>
    (\<exists>m. fst (read_frames (stream_of (take k (concat (map tcp_frame ds))) e)) = take m ds)"
  using read_frames_tcp_frames [of ds "[]" e] read_frames_short [of "[]" e]
    read_frames_cut [OF assms] assms
  by (simp add: list_all_iff)

theorem frames_survive_witness:
  "read_frames (stream_of (concat (map tcp_frame [[1, 2], [3]])) OtherError)
     = ([[1, 2], [3]], LengthFailed OtherError) \<and>
   (\<exists>m. fst (read_frames (stream_of (take 5 (concat (map tcp_frame [[1, 2], [3]]))) OtherError))
     = take m [[1, 2], [3]])"
  by (rule frames_survive) (simp add: frameable_def MAX_TCP_FRAME_SIZE_def)

section \<open>The windows\<close>

text \<open>
  Claim C8: whatever order sequence numbers arrive in, and however often each is repeated, the
  server's window of any nonzero size lets each through at most once, the first time, and never
  lets through one it has refused.
\<close>

theorem window_admits_once:
  assumes "n \<noteq> 0"
  shows "distinct (admitted is_duplicate (dedup_window_new n) arrivals) \<and>
    set (admitted is_duplicate (dedup_window_new n) arrivals) \<subseteq> set arrivals \<and>
    list_all (\<lambda>s. fst (is_duplicate (window_after is_duplicate (dedup_window_new n) arrivals) s))
      arrivals"
  using dw.admitted_distinct [OF dw_inv_new [OF assms]] dw.replay_duplicate [OF dw_inv_new [OF assms]]
    admitted_subset [of is_duplicate "dedup_window_new n" arrivals]
  by (simp add: list_all_iff)

theorem window_admits_once_witness:
  "distinct (admitted is_duplicate (dedup_window_new 2) [5, 7, 5, 6, 7]) \<and>
   set (admitted is_duplicate (dedup_window_new 2) [5, 7, 5, 6, 7]) \<subseteq> set [5, 7, 5, 6, 7] \<and>
   list_all (\<lambda>s. fst (is_duplicate (window_after is_duplicate (dedup_window_new 2) [5, 7, 5, 6, 7]) s))
     [5, 7, 5, 6, 7]"
  by (rule window_admits_once) simp

text \<open>
  Claim C9: no packet is lost to the window that should not be: a number that has not arrived yet,
  is not below the session's first one, and is less than the window's size behind every other
  arrival is let through, in whatever order the arrivals before it came.
\<close>

theorem window_admits_fresh:
  assumes "n \<noteq> 0" and "s \<notin> set (first # arrivals)" and "first \<le> s"
    and "list_all (\<lambda>t. unat t < unat s + unat n) arrivals"
  shows "\<not> fst (is_duplicate (window_after is_duplicate (dedup_window_new n) (first # arrivals)) s)"
  using assms(2-4) dw_inv_new [OF assms(1)]
  by (intro dw.fresh_number_admitted) (simp_all add: dedup_window_new_def list_all_iff)

theorem window_admits_fresh_witness:
  "\<not> fst (is_duplicate (window_after is_duplicate (dedup_window_new 10) [5, 14, 8, 14]) 6)"
  by (rule window_admits_fresh) simp_all

text \<open>
  Packets that arrive in order are all let through, over any number of them and for any
  nonzero window, as long as the numbers do not wrap around.
\<close>

theorem window_admits_in_order:
  assumes "n \<noteq> 0" and "sorted_wrt (<) arrivals"
  shows "admitted is_duplicate (dedup_window_new n) arrivals = arrivals"
  using dw_inv_new [OF assms(1)] assms(2)
  by (intro dw.increasing_admitted) (simp_all add: dedup_window_new_def)

theorem window_admits_in_order_witness:
  "admitted is_duplicate (dedup_window_new 1) [3, 9, 10, 4000] = [3, 9, 10, 4000]"
  by (rule window_admits_in_order) simp_all

text \<open>
  Claim C27: the client's response window is the server's window of 1000: on every sequence of
  arrivals the two let through the same numbers.
\<close>

theorem client_window_is_server_window:
  "admitted response_is_duplicate (response_window_new n) arrivals
     = admitted is_duplicate (dedup_window_new n) arrivals"
  using run_response_filter [of "response_window_new n" arrivals] by simp

text \<open>
  Claim C28: \<open>is_duplicate\<close> never panics. Where overflow checks are on, the subtraction
  \<open>self.size as u32 - 1\<close> would panic if the low 32 bits of the size were zero; in a window of any
  nonzero 64-bit size, after any arrivals, it is only reached when the size fits, so the checked
  code always returns, and what the unchecked code returns. A window of size zero does panic.
\<close>

theorem window_never_panics:
  "(n \<noteq> 0 \<longrightarrow>
      is_duplicate_checked (window_after is_duplicate (dedup_window_new n) arrivals) s
        = Some (is_duplicate (window_after is_duplicate (dedup_window_new n) arrivals) s)) \<and>
   (r < t \<longrightarrow> is_duplicate_checked (snd (is_duplicate (dedup_window_new 0) r)) t = None)"
  using is_duplicate_checked_agrees [OF dw.inv_run [OF dw_inv_new]] zero_window_panics by blast

theorem window_never_panics_witness:
  "map_option fst (is_duplicate_checked (window_after is_duplicate (dedup_window_new (2 ^ 32 + 1)) [1, 2, 3]) 4)
     = Some False \<and>
   is_duplicate_checked (snd (is_duplicate (dedup_window_new 0) 3)) 4 = None"
proof -
  have "\<not> fst (is_duplicate (window_after is_duplicate (dedup_window_new (2 ^ 32 + 1)) [1, 2, 3]) 4)"
    by (rule dw.fresh_number_admitted) (simp_all add: dw_inv_new, simp_all add: dedup_window_new_def)
  with window_never_panics [of "2 ^ 32 + 1" "[1, 2, 3]" 4 3 4] show ?thesis by simp
qed

text \<open>
  Two limits of the window. A number below the session's first arrival is refused though
  it was never seen, so packets that are reordered at the very start of a session are lost; and
  the set of seen numbers can outgrow the configured size, because only a new highest number
  trims it.
\<close>

theorem window_limits:
  "admitted is_duplicate (dedup_window_new 1000) [11, 10, 12] = [11, 12] \<and>
   card (dw_seen (window_after is_duplicate (dedup_window_new 2) [0, 5, 1, 2, 3, 4])) = 6"
proof -
  have "admitted is_duplicate (dedup_window_new 1000) [11, 10, 12] = [11, 12]" by code_simp
  moreover have "card (dw_seen (window_after is_duplicate (dedup_window_new 2) [0, 5, 1, 2, 3, 4])) = 6"
    by code_simp
  ultimately show ?thesis by blast
qed

section \<open>From the source to the target and back\<close>


text \<open>The frame of the demo packet arrives first; then a sweep, a response, and the datagram, twice.\<close>

definition demo_conn_server :: server where
  "demo_conn_server = snd (server_handle (TcpAccept 201 3 77) demo_server)"

definition copy_by_tcp :: server_event where
  "copy_by_tcp = TcpArrives 1000000000 TargetOpens 3 (encode_tcp 42 5 [1, 2, 3])"

definition copy_by_udp :: "instant \<Rightarrow> server_event" where
  "copy_by_udp now = UdpArrives now TargetOpens 200 client_a (encode_udp 42 5 [1, 2, 3])"

definition later_events :: "server_event list" where
  "later_events = [ServerTick 10000000000, TargetResponse 20000000000 0 [9], copy_by_udp 30000000000,
     copy_by_udp 61000000000]"



definition demo_response_outs :: "server_output list" where
  "demo_response_outs = [ClientSend 200 (encode_udp 42 0 [8, 8]) client_a]"

definition response_events :: "client_event list" where
  "response_events = [CleanupTick 3000000000, UdpResponse 4000000000 100 (encode_udp 42 0 [8, 8])]"


text \<open>
  Claim C40: when the server's session has expired and is made again while the client's lives on,
  the numbers of its responses start again at zero, and the client takes them for duplicates: if
  it has seen a response number zero, the first response of the new session goes out on the
  path, and every copy of it is dropped.
\<close>

theorem restarted_session_response_dropped:
  assumes "hm_get (s_sessions s) sid = None"
    and "handle_udp_packet t TargetOpens s sock b (encode_udp sid q pl) = (outs, s1)"
    and "send_response_to_all_paths t' s1 sid rp = (outs', s2)" and "length rp \<le> 65523"
    and "hm_get (c_udp_session_addrs c) sid = Some a" and "hm_get (c_udp_sessions c) a = Some us"
    and "fst (response_is_duplicate (us_response_dedup us) 0)"
  shows "outs' \<noteq> [] \<and> (\<forall>e. brings_response c a outs' e \<longrightarrow> fst (client_handle e c) = [])"
proof -
  from admit_opens [OF assms(1)] obtain n u g where
    u: "admit t TargetOpens s sid q = (Some (n, False), u)"
    "hm_get (s_sessions u) sid = Some g" "tg_response_seq g = 0" by blast
  then have s1: "s1 = add_udp_path u sid b sock"
    using assms(2) by (simp add: handle_udp_packet_eq udp.dec_enc)
  then have session: "hm_get (s_sessions s1) sid = Some g" using u(2) by simp
  obtain ps where ps: "hm_get (s_client_paths s1) sid = Some ps" "ps \<noteq> []"
    using add_udp_path_not_empty unfolding s1 by blast
  have outs': "outs' = fst (send_response_to_all_paths t' s1 sid rp)"
    using assms(3) by simp
  then have "outs' \<noteq> []"
    using session ps by (simp add: send_response_to_all_paths_def Let_def)
  moreover have "fst (client_handle e c) = []" if "brings_response c a outs' e" for e
  proof -
    from that obtain out where out: "out \<in> set outs'" "response_arrives c a out e"
      by (auto simp: brings_response_def list_ex_iff)
    have "response_carried out = Some (sid, 0, rp)"
      using send_response_outputs [OF session assms(4), of out t'] out(1) u(3) by (simp add: outs')
    from response_copy_delivered [OF out(2) this assms(5)] deliver_refused(1) [OF assms(6,7)]
    show ?thesis by auto
  qed
  ultimately show ?thesis by blast
qed

definition seen_zero :: client where
  "seen_zero = snd (process_udp_response 2000000000 after_packet (encode_udp 42 0 [8, 8]))"

definition seen_zero_session :: udp_session where
  "seen_zero_session = demo_session1\<lparr>us_last_activity := 2000000000,
     us_response_dedup := \<lparr>rw_seen = {0}, rw_min_seq = 0, rw_max_seq = 0, rw_size = 1000,
       rw_started = True\<rparr>\<rparr>"

theorem restarted_session_response_dropped_witness:
  "fst (client_handle (UdpResponse 7 100 (encode_udp 42 0 [9])) seen_zero) = []"
proof -
  have none: "hm_get (s_sessions demo_server) 42 = None" by code_simp
  have made: "handle_udp_packet 1000000000 TargetOpens demo_server 200 client_a
      (encode_udp 42 5 [1, 2, 3])
      = (fst (server_handle first_arrival demo_server), after_first)"
    by (simp add: after_first_def server_handle_def first_arrival_def)
  have addr: "hm_get (c_udp_session_addrs seen_zero) 42 = Some demo_source" by code_simp
  have us: "hm_get (c_udp_sessions seen_zero) demo_source = Some seen_zero_session" by code_simp
  have dup: "fst (response_is_duplicate (us_response_dedup seen_zero_session) 0)" by code_simp
  have "brings_response seen_zero demo_source (fst (send_response_to_all_paths 6 after_first 42 [9]))
      (UdpResponse 7 100 (encode_udp 42 0 [9]))" by code_simp
  with restarted_session_response_dropped [OF none made prod.collapse [symmetric] _ addr us dup, of "[9]" 6]
  show ?thesis by simp
qed

end
